(* ===== verification/Edos_Prelude.thy ===== *)
theory Edos_Prelude
  imports Main "HOL-Library.Word" "HOL-Library.Product_Lexorder"
begin

text \<open>
  Shared vocabulary of the development: names for the machine integers and byte
  strings of the Rust sources, the result types that make panics and errors values,
  the little- and big-endian codecs of the on-disk and on-wire formats, and the list
  and word lemmas that the component theories lean on.

  The kernel is built with Cargo's \<open>dev\<close> profile (\<open>kernel/GNUmakefile\<close>), so a slice
  index out of range, a failed \<open>assert!\<close> and an arithmetic overflow all stop the machine.
  Where such an outcome is reachable from the data an operation is given, its model
  returns \<open>Panic\<close>; elsewhere quantities of type \<open>usize\<close> and \<open>u64\<close> that only count are
  natural numbers, and values that are stored in a fixed-width field are words.
\<close>

unbundle bit_operations_syntax

named_theorems codec_simps \<open>reading a field back out of an encoded structure\<close>
named_theorems len_simps \<open>lengths of encoded structures\<close>

section \<open>Machine types and results\<close>

type_synonym byte = "8 word"
type_synonym u8 = "8 word"
type_synonym u16 = "16 word"
type_synonym u32 = "32 word"
type_synonym u64 = "64 word"
type_synonym bytes = "8 word list"

datatype 'a run = Ret 'a | Panic

definition run_bind :: "'a run \<Rightarrow> ('a \<Rightarrow> 'b run) \<Rightarrow> 'b run" where
  "run_bind m f = (case m of Panic \<Rightarrow> Panic | Ret a \<Rightarrow> f a)"

lemma run_bind_simps [simp]:
  "run_bind (Ret a) f = f a"
  "run_bind Panic f = Panic"
  by (simp_all add: run_bind_def)

lemma run_bind_eq_Ret:
  "run_bind m f = Ret b \<longleftrightarrow> (\<exists>a. m = Ret a \<and> f a = Ret b)"
  by (cases m) simp_all

text \<open>The \<open>?\<close> operator of Rust on \<open>Result\<close>: the left summand is the error.\<close>

definition try_bind :: "'e + 'a \<Rightarrow> ('a \<Rightarrow> 'e + 'b) \<Rightarrow> 'e + 'b" where
  "try_bind m f = (case m of Inl e \<Rightarrow> Inl e | Inr a \<Rightarrow> f a)"

lemma try_bind_simps [simp]:
  "try_bind (Inr a) f = f a"
  "try_bind (Inl e) f = Inl e"
  by (simp_all add: try_bind_def)

lemma try_bind_eq_Inr:
  "try_bind m f = Inr b \<longleftrightarrow> (\<exists>a. m = Inr a \<and> f a = Inr b)"
  by (cases m) simp_all

section \<open>Words\<close>

lemma unat_less2p: "unat (w :: 'a::len word) < 2 ^ LENGTH('a)"
  by (rule unsigned_less)

lemma word_of_nat_unat [simp]: "word_of_nat (unat w) = w"
  by simp

lemma word_xor_cancel [simp]:
  "a XOR p = b XOR p \<longleftrightarrow> a = (b :: 'a::len word)"
  "p XOR a = p XOR b \<longleftrightarrow> a = (b :: 'a::len word)"
  by (metis bit.xor_left_self xor.commute)+

section \<open>Lists\<close>

text \<open>A slice \<open>xs[off .. off + n]\<close>, and overwriting one (\<open>copy_from_slice\<close>).\<close>

definition slice_at :: "nat \<Rightarrow> nat \<Rightarrow> 'a list \<Rightarrow> 'a list" where
  "slice_at off n xs = take n (drop off xs)"

definition splice_at :: "nat \<Rightarrow> 'a list \<Rightarrow> 'a list \<Rightarrow> 'a list" where
  "splice_at off ys xs = take off xs @ ys @ drop (off + length ys) xs"

lemma length_slice_at [simp]: "length (slice_at off n xs) = min n (length xs - off)"
  by (simp add: slice_at_def)

lemma length_splice_at [simp]:
  "off + length ys \<le> length xs \<Longrightarrow> length (splice_at off ys xs) = length xs"
  by (simp add: splice_at_def)

lemma slice_0_append: "length xs = n \<Longrightarrow> slice_at 0 n (xs @ ys) = xs"
  by (simp add: slice_at_def)

lemma slice_append_ge: "length xs \<le> off \<Longrightarrow> slice_at off n (xs @ ys) = slice_at (off - length xs) n ys"
  by (simp add: slice_at_def)

lemma slice_append_le: "off + n \<le> length xs \<Longrightarrow> slice_at off n (xs @ ys) = slice_at off n xs"
  by (simp add: slice_at_def)

lemma slice_splice_same:
  "off \<le> length xs \<Longrightarrow> length ys = n \<Longrightarrow> slice_at off n (splice_at off ys xs) = ys"
  by (simp add: slice_at_def splice_at_def)

lemma slice_splice_before:
  assumes "o2 + n \<le> off" "off \<le> length xs"
  shows "slice_at o2 n (splice_at off ys xs) = slice_at o2 n xs"
proof -
  have "slice_at o2 n (splice_at off ys xs) = slice_at o2 n (take off xs)"
    unfolding splice_at_def by (rule slice_append_le) (use assms in simp)
  also have "\<dots> = slice_at o2 n xs"
    using assms by (simp add: slice_at_def drop_take min_def)
  finally show ?thesis .
qed

lemma slice_splice_after:
  assumes "off + length ys \<le> o2" "off \<le> length xs"
  shows "slice_at o2 n (splice_at off ys xs) = slice_at o2 n xs"
  using assms by (simp add: slice_at_def splice_at_def min_def)

lemma slice_slice: "i + n \<le> m \<Longrightarrow> slice_at i n (slice_at off m xs) = slice_at (off + i) n xs"
  by (simp add: slice_at_def drop_take min_def add.commute)

lemma slice_full [simp]: "slice_at 0 (length xs) xs = xs"
  by (simp add: slice_at_def)

lemma nth_slice: "i < n \<Longrightarrow> off + i < length xs \<Longrightarrow> slice_at off n xs ! i = xs ! (off + i)"
  by (simp add: slice_at_def)

lemma nth_splice: "off + length ys \<le> length xs \<Longrightarrow> i < length xs \<Longrightarrow>
    splice_at off ys xs ! i = (if off \<le> i \<and> i < off + length ys then ys ! (i - off) else xs ! i)"
  by (auto simp: splice_at_def nth_append min_def)

lemma mod_once: "x < 2 * c \<Longrightarrow> x mod c = (if x < c then x else x - c)" for x c :: nat
  by (simp add: mod_if)

section \<open>Endian codecs\<close>

fun le_bytes :: "nat \<Rightarrow> nat \<Rightarrow> bytes" where
  "le_bytes 0 v = []"
| "le_bytes (Suc n) v = word_of_nat v # le_bytes n (v div 256)"

fun of_le :: "bytes \<Rightarrow> nat" where
  "of_le [] = 0"
| "of_le (b # bs) = unat b + 256 * of_le bs"

definition be_bytes :: "nat \<Rightarrow> nat \<Rightarrow> bytes" where
  "be_bytes n v = rev (le_bytes n v)"

definition of_be :: "bytes \<Rightarrow> nat" where
  "of_be bs = of_le (rev bs)"

lemma length_le_bytes [simp, len_simps]: "length (le_bytes n v) = n"
  by (induction n arbitrary: v) simp_all

lemma length_be_bytes [simp, len_simps]: "length (be_bytes n v) = n"
  by (simp add: be_bytes_def)

lemma of_le_le_bytes: "of_le (le_bytes n v) = v mod 256 ^ n"
proof (induction n arbitrary: v)
  case 0
  then show ?case by simp
next
  case (Suc n)
  have "of_le (le_bytes (Suc n) v) = v mod 256 + 256 * (v div 256 mod 256 ^ n)"
    using Suc.IH by (simp add: unat_of_nat)
  also have "\<dots> = v mod 256 ^ Suc n"
    by (simp add: mod_mult2_eq add.commute)
  finally show ?case .
qed

lemma of_le_less: "of_le bs < 256 ^ length bs"
proof (induction bs)
  case Nil
  then show ?case by simp
next
  case (Cons b bs)
  have "unat b < 256" using unat_less2p [of b] by simp
  with Cons.IH show ?case by simp
qed

lemma le_bytes_of_le: "length bs = n \<Longrightarrow> le_bytes n (of_le bs) = bs"
proof (induction bs arbitrary: n)
  case Nil
  then show ?case by simp
next
  case (Cons b bs)
  have "unat b < 256" using unat_less2p [of b] by simp
  moreover have "word_of_nat (unat b + 256 * of_le bs) = (b :: byte)"
  proof -
    have "word_of_nat (256 * of_le bs) = (0 :: byte)"
      by (rule word_of_nat_eq_0_iff [THEN iffD2]) simp
    then show ?thesis by (simp only: of_nat_add word_of_nat_unat) simp
  qed
  ultimately show ?case using Cons by auto
qed

text \<open>Field access at an offset, as the unaligned struct reads do it.\<close>

definition get_le :: "nat \<Rightarrow> nat \<Rightarrow> bytes \<Rightarrow> nat" where
  "get_le n off bs = of_le (slice_at off n bs)"

definition get_be :: "nat \<Rightarrow> nat \<Rightarrow> bytes \<Rightarrow> nat" where
  "get_be n off bs = of_be (slice_at off n bs)"

definition get_u8 :: "nat \<Rightarrow> bytes \<Rightarrow> u8" where "get_u8 off bs = word_of_nat (get_le 1 off bs)"
definition get_u16 :: "nat \<Rightarrow> bytes \<Rightarrow> u16" where "get_u16 off bs = word_of_nat (get_le 2 off bs)"
definition get_u32 :: "nat \<Rightarrow> bytes \<Rightarrow> u32" where "get_u32 off bs = word_of_nat (get_le 4 off bs)"
definition get_u64 :: "nat \<Rightarrow> bytes \<Rightarrow> u64" where "get_u64 off bs = word_of_nat (get_le 8 off bs)"

definition put_u8 :: "u8 \<Rightarrow> bytes" where "put_u8 w = le_bytes 1 (unat w)"
definition put_u16 :: "u16 \<Rightarrow> bytes" where "put_u16 w = le_bytes 2 (unat w)"
definition put_u32 :: "u32 \<Rightarrow> bytes" where "put_u32 w = le_bytes 4 (unat w)"
definition put_u64 :: "u64 \<Rightarrow> bytes" where "put_u64 w = le_bytes 8 (unat w)"

lemma length_put [simp, len_simps]:
  "length (put_u8 a) = 1" "length (put_u16 b) = 2"
  "length (put_u32 c) = 4" "length (put_u64 d) = 8"
  by (simp_all add: put_u8_def put_u16_def put_u32_def put_u64_def)

lemma put_u8_single [simp]: "put_u8 w = [w]"
  by (simp add: put_u8_def)

lemma get_put_here [simp, codec_simps]:
  "get_u8 0 (w8 # bs) = w8"
  "get_u16 0 (put_u16 w16 @ bs) = w16"
  "get_u32 0 (put_u32 w32 @ bs) = w32"
  "get_u64 0 (put_u64 w64 @ bs) = w64"
  using unat_less2p [of w16] unat_less2p [of w32] unat_less2p [of w64]
  by (simp_all add: get_u8_def get_u16_def get_u32_def get_u64_def get_le_def put_u16_def
      put_u32_def put_u64_def slice_0_append of_le_le_bytes) (simp add: slice_at_def)

lemma get_put_single [simp, codec_simps]:
  "get_u16 0 (put_u16 w16) = w16"
  "get_u32 0 (put_u32 w32) = w32"
  "get_u64 0 (put_u64 w64) = w64"
  using get_put_here(2) [of w16 "[]"] get_put_here(3) [of w32 "[]"] get_put_here(4) [of w64 "[]"]
  by simp_all

lemma get_skip [codec_simps]:
  "length xs \<le> off \<Longrightarrow> get_u8 off (xs @ ys) = get_u8 (off - length xs) ys"
  "length xs \<le> off \<Longrightarrow> get_u16 off (xs @ ys) = get_u16 (off - length xs) ys"
  "length xs \<le> off \<Longrightarrow> get_u32 off (xs @ ys) = get_u32 (off - length xs) ys"
  "length xs \<le> off \<Longrightarrow> get_u64 off (xs @ ys) = get_u64 (off - length xs) ys"
  by (simp_all add: get_u8_def get_u16_def get_u32_def get_u64_def get_le_def slice_append_ge)

lemma get_skip_Cons [codec_simps]:
  "0 < off \<Longrightarrow> get_u8 off (x # ys) = get_u8 (off - 1) ys"
  "0 < off \<Longrightarrow> get_u16 off (x # ys) = get_u16 (off - 1) ys"
  "0 < off \<Longrightarrow> get_u32 off (x # ys) = get_u32 (off - 1) ys"
  "0 < off \<Longrightarrow> get_u64 off (x # ys) = get_u64 (off - 1) ys"
  using get_skip [of "[x]" off ys] by simp_all

declare slice_append_ge [codec_simps] slice_0_append [codec_simps]

lemma slice_skip_Cons [codec_simps]: "0 < off \<Longrightarrow> slice_at off n (x # ys) = slice_at (off - 1) n ys"
  using slice_append_ge [of "[x]" off n ys] by simp

lemma get_slice [codec_simps]:
  "off + 1 \<le> n \<Longrightarrow> get_u8 off (slice_at b n xs) = get_u8 (b + off) xs"
  "off + 2 \<le> n \<Longrightarrow> get_u16 off (slice_at b n xs) = get_u16 (b + off) xs"
  "off + 4 \<le> n \<Longrightarrow> get_u32 off (slice_at b n xs) = get_u32 (b + off) xs"
  "off + 8 \<le> n \<Longrightarrow> get_u64 off (slice_at b n xs) = get_u64 (b + off) xs"
  by (simp_all add: get_u8_def get_u16_def get_u32_def get_u64_def get_le_def slice_slice)

end
