(* ===== verification/Btree_Map.thy ===== *)
theory Btree_Map
  imports Edos_Prelude
begin

text \<open>
  The part of \<open>alloc::collections::BTreeMap\<close> and \<open>BTreeSet\<close> that the kernel uses, as
  association lists sorted by key: a lookup, an insertion that replaces, a removal, and
  iteration in key order.  The locale \<open>ordered_map\<close> is the interface its clients rely on;
  the lemmas about loops of insertions and removals are proved from it once.
\<close>

type_synonym ('k, 'v) btree = "('k \<times> 'v) list"

fun bt_get :: "('k::linorder, 'v) btree \<Rightarrow> 'k \<Rightarrow> 'v option" where
  "bt_get [] k = None"
| "bt_get ((k', v) # xs) k = (if k = k' then Some v else bt_get xs k)"

fun bt_insert :: "'k::linorder \<Rightarrow> 'v \<Rightarrow> ('k, 'v) btree \<Rightarrow> ('k, 'v) btree" where
  "bt_insert k v [] = [(k, v)]"
| "bt_insert k v ((k', v') # xs) =
     (if k < k' then (k, v) # (k', v') # xs
      else if k = k' then (k, v) # xs
      else (k', v') # bt_insert k v xs)"

fun bt_remove :: "'k::linorder \<Rightarrow> ('k, 'v) btree \<Rightarrow> ('k, 'v) btree" where
  "bt_remove k [] = []"
| "bt_remove k ((k', v') # xs) = (if k = k' then xs else (k', v') # bt_remove k xs)"

text \<open>Loops that insert or remove one key after the other.\<close>

definition bt_insert_all :: "('k::linorder \<times> 'v) list \<Rightarrow> ('k, 'v) btree \<Rightarrow> ('k, 'v) btree" where
  "bt_insert_all kvs m = foldl (\<lambda>m (k, v). bt_insert k v m) m kvs"

definition bt_remove_all :: "'k::linorder list \<Rightarrow> ('k, 'v) btree \<Rightarrow> ('k, 'v) btree" where
  "bt_remove_all ks m = foldl (\<lambda>m k. bt_remove k m) m ks"

definition bt_keys :: "('k::linorder, 'v) btree \<Rightarrow> 'k list" where
  "bt_keys xs = map fst xs"

definition bt_wf :: "('k::linorder, 'v) btree \<Rightarrow> bool" where
  "bt_wf xs \<longleftrightarrow> sorted_wrt (<) (bt_keys xs)"

lemma bt_keys_simps [simp]:
  "bt_keys [] = []" "bt_keys (x # xs) = fst x # bt_keys xs"
  by (simp_all add: bt_keys_def)

lemma bt_wf_Nil [simp]: "bt_wf []"
  by (simp add: bt_wf_def)

lemma bt_wf_Cons: "bt_wf (x # xs) \<longleftrightarrow> (\<forall>k \<in> set (bt_keys xs). fst x < k) \<and> bt_wf xs"
  by (simp add: bt_wf_def)

lemma set_bt_keys_insert [simp]: "set (bt_keys (bt_insert k v xs)) = insert k (set (bt_keys xs))"
  by (induction k v xs rule: bt_insert.induct) auto

lemma bt_keys_remove_subset: "set (bt_keys (bt_remove k xs)) \<subseteq> set (bt_keys xs)"
  by (induction k xs rule: bt_remove.induct) auto

lemma bt_get_None: "k \<notin> set (bt_keys xs) \<Longrightarrow> bt_get xs k = None"
  by (induction xs k rule: bt_get.induct) auto

lemma bt_get_Some_iff: "bt_wf xs \<Longrightarrow> bt_get xs k = Some v \<longleftrightarrow> (k, v) \<in> set xs"
proof (induction xs k rule: bt_get.induct)
  case (2 k' v' xs k)
  have "(k, v) \<in> set xs \<Longrightarrow> k \<in> set (bt_keys xs)"
    by (force simp: bt_keys_def)
  with 2 show ?case by (auto simp: bt_wf_Cons)
qed simp

lemma bt_get_dom: "bt_get xs k \<noteq> None \<longleftrightarrow> k \<in> set (bt_keys xs)"
  by (induction xs k rule: bt_get.induct) auto

lemma bt_wf_insert [simp, intro]: "bt_wf xs \<Longrightarrow> bt_wf (bt_insert k v xs)"
  by (induction k v xs rule: bt_insert.induct) (fastforce simp: bt_wf_Cons)+

lemma bt_wf_remove [simp, intro]: "bt_wf xs \<Longrightarrow> bt_wf (bt_remove k xs)"
  by (induction k xs rule: bt_remove.induct)
    (use bt_keys_remove_subset in \<open>fastforce simp: bt_wf_Cons\<close>)+

lemma bt_get_insert: "bt_wf xs \<Longrightarrow> bt_get (bt_insert k v xs) = (bt_get xs)(k \<mapsto> v)"
  by (induction k v xs rule: bt_insert.induct) (auto simp: bt_wf_Cons fun_eq_iff)

lemma bt_get_remove: "bt_wf xs \<Longrightarrow> bt_get (bt_remove k xs) = (bt_get xs)(k := None)"
proof (induction k xs rule: bt_remove.induct)
  case (2 k k' v' xs)
  then have "k' \<notin> set (bt_keys xs)" by (auto simp: bt_wf_Cons)
  with 2 show ?case by (auto simp: fun_eq_iff bt_wf_Cons bt_get_None)
qed auto

section \<open>The interface\<close>

locale ordered_map =
  fixes get :: "'t \<Rightarrow> 'k \<Rightarrow> 'v option"
    and ins :: "'k \<Rightarrow> 'v \<Rightarrow> 't \<Rightarrow> 't"
    and rem :: "'k \<Rightarrow> 't \<Rightarrow> 't"
    and wf :: "'t \<Rightarrow> bool"
  assumes get_ins: "wf m \<Longrightarrow> get (ins k v m) = (get m)(k \<mapsto> v)"
    and get_rem: "wf m \<Longrightarrow> get (rem k m) = (get m)(k := None)"
    and wf_ins: "wf m \<Longrightarrow> wf (ins k v m)"
    and wf_rem: "wf m \<Longrightarrow> wf (rem k m)"
begin

definition ins_all :: "('k \<times> 'v) list \<Rightarrow> 't \<Rightarrow> 't" where
  "ins_all kvs m = foldl (\<lambda>m (k, v). ins k v m) m kvs"

definition rem_all :: "'k list \<Rightarrow> 't \<Rightarrow> 't" where
  "rem_all ks m = foldl (\<lambda>m k. rem k m) m ks"

lemma wf_ins_all: "wf m \<Longrightarrow> wf (ins_all kvs m)"
  unfolding ins_all_def by (induction kvs arbitrary: m) (auto intro: wf_ins)

lemma wf_rem_all: "wf m \<Longrightarrow> wf (rem_all ks m)"
  unfolding rem_all_def by (induction ks arbitrary: m) (auto intro: wf_rem)

lemma get_ins_all: "wf m \<Longrightarrow> get (ins_all kvs m) = get m ++ map_of (rev kvs)"
  unfolding ins_all_def
  by (induction kvs arbitrary: m)
    (auto simp: wf_ins get_ins fun_eq_iff map_add_def split: option.splits)

lemma get_rem_all: "wf m \<Longrightarrow> get (rem_all ks m) = get m |` (- set ks)"
  unfolding rem_all_def
  by (induction ks arbitrary: m) (auto simp: wf_rem get_rem restrict_map_def fun_eq_iff)

end

interpretation bt: ordered_map bt_get bt_insert bt_remove bt_wf
  by unfold_locales (auto simp: bt_get_insert bt_get_remove)

lemma bt_insert_all_eq: "bt_insert_all = bt.ins_all"
  by (intro ext) (simp add: bt_insert_all_def bt.ins_all_def)

lemma bt_remove_all_eq: "bt_remove_all = bt.rem_all"
  by (intro ext) (simp add: bt_remove_all_def bt.rem_all_def)

lemmas bt_wf_insert_all [simp, intro] = bt.wf_ins_all [folded bt_insert_all_eq]
lemmas bt_wf_remove_all [simp, intro] = bt.wf_rem_all [folded bt_remove_all_eq]
lemmas bt_get_insert_all = bt.get_ins_all [folded bt_insert_all_eq]
lemmas bt_get_remove_all = bt.get_rem_all [folded bt_remove_all_eq]

text \<open>A \<open>BTreeSet\<close> is a map to the unit value.\<close>

type_synonym 'k btset = "('k, unit) btree"

end
