(* ===== verification/Efs_Crc32.thy ===== *)
theory Efs_Crc32
  imports Edos_Prelude
begin

text \<open>
  The checksum of \<open>libs/efs-common/src/crc32.rs\<close>: the compile-time lookup table, the
  byte-at-a-time update and the final complement.  The table-driven routine is shown
  equal to the textbook bit-serial division, and to separate any two messages of one
  length that differ in a single byte.
\<close>

section \<open>The routine\<close>

definition crc_bit_step :: "u32 \<Rightarrow> u32" where
  "crc_bit_step c = (if c AND 1 \<noteq> 0 then 0xEDB88320 XOR drop_bit 1 c else drop_bit 1 c)"

definition make_crc32_table :: "u32 list" where
  "make_crc32_table = map (\<lambda>i. (crc_bit_step ^^ 8) (word_of_nat i)) [0..<256]"

definition crc32_update :: "u32 \<Rightarrow> byte \<Rightarrow> u32" where
  "crc32_update crc b =
     (let index = unat ((crc XOR ucast b) AND 0xFF)
      in make_crc32_table ! index XOR drop_bit 8 crc)"

definition crc32 :: "bytes \<Rightarrow> u32" where
  "crc32 data = NOT (foldl crc32_update 0xFFFFFFFF data)"

text \<open>The reference: shift the message through the register one bit at a time.\<close>

definition crc32_bitwise :: "bytes \<Rightarrow> u32" where
  "crc32_bitwise data =
     NOT (foldl (\<lambda>crc b. (crc_bit_step ^^ 8) (crc XOR ucast b)) 0xFFFFFFFF data)"

section \<open>The bit step is linear and injective\<close>

lemma crc_bit_step_alt: "crc_bit_step c = drop_bit 1 c XOR (if odd c then 0xEDB88320 else 0)"
  by (simp add: crc_bit_step_def and_one_eq mod2_eq_if xor.commute)

lemma odd_xor_word: "odd (x XOR y) \<longleftrightarrow> odd x \<noteq> odd (y :: 'a::len word)"
  by (simp add: even_xor_iff)

lemma crc_bit_step_xor: "crc_bit_step (x XOR y) = crc_bit_step x XOR crc_bit_step y"
proof -
  have split: "(if odd (x XOR y) then 0xEDB88320 else 0)
    = (if odd x then 0xEDB88320 else 0) XOR (if odd y then 0xEDB88320 else (0 :: u32))"
    by (simp add: odd_xor_word)
  show ?thesis
    unfolding crc_bit_step_alt split drop_bit_xor by (simp only: ac_simps)
qed

lemma crc_bit_steps_xor:
  "(crc_bit_step ^^ n) (x XOR y) = (crc_bit_step ^^ n) x XOR (crc_bit_step ^^ n) y"
  by (induction n) (simp_all add: crc_bit_step_xor)

lemma crc_bit_steps_low_zero:
  "(\<And>i. i < n \<Longrightarrow> \<not> bit x i) \<Longrightarrow> (crc_bit_step ^^ n) x = drop_bit n x"
proof (induction n)
  case 0
  then show ?case by simp
next
  case (Suc n)
  then have "(crc_bit_step ^^ n) x = drop_bit n x" by simp
  moreover have "even (drop_bit n x)"
    using Suc.prems [of n] by (simp add: bit_iff_odd_drop_bit)
  ultimately show ?case by (simp add: crc_bit_step_alt [of "drop_bit n x"])
qed

lemma crc_bit_step_top: "bit (crc_bit_step c) 31 \<longleftrightarrow> odd c"
  by (simp add: crc_bit_step_alt bit_xor_iff bit_drop_bit_eq bit_0 bit_imp_le_length)
    (auto dest: bit_imp_le_length)

lemma inj_crc_bit_step: "inj crc_bit_step"
proof (rule injI)
  fix c d :: u32
  assume eq: "crc_bit_step c = crc_bit_step d"
  then have par: "odd c \<longleftrightarrow> odd d"
    using crc_bit_step_top by metis
  with eq have "drop_bit 1 c = drop_bit 1 d"
    by (auto simp add: crc_bit_step_alt split: if_splits)
  with par show "c = d"
    by (metis drop_bit_eq_div power_one_right even_iff_mod_2_eq_zero odd_iff_mod_2_eq_one
        div_mult_mod_eq)
qed

lemma inj_crc_bit_steps: "inj (crc_bit_step ^^ n)"
  using inj_crc_bit_step by (rule inj_fn)

section \<open>Table lookup is eight bit steps\<close>

lemma crc_table_nth: "i < 256 \<Longrightarrow> make_crc32_table ! i = (crc_bit_step ^^ 8) (word_of_nat i)"
  by (simp add: make_crc32_table_def del: funpow.simps)

lemma word_and_ff: "(w :: u32) AND 0xFF = take_bit 8 w"
  by (simp add: take_bit_eq_mask mask_eq_exp_minus_1)

lemma crc32_update_bits: "crc32_update crc b = (crc_bit_step ^^ 8) (crc XOR ucast b)"
proof -
  define c where "c = crc XOR ucast b"
  have idx: "unat (c AND 0xFF) < 256"
    using take_bit_nat_less_exp [of 8 "unat c"]
    by (simp add: word_and_ff unsigned_take_bit_eq)
  have split: "c = take_bit 8 c XOR (c AND NOT (mask 8))"
    by (rule bit_word_eqI) (auto simp add: bit_simps)
  have "(crc_bit_step ^^ 8) (c AND NOT (mask 8)) = drop_bit 8 (c AND NOT (mask 8))"
    by (rule crc_bit_steps_low_zero) (simp add: bit_simps)
  also have "\<dots> = drop_bit 8 crc"
    unfolding c_def by (rule bit_word_eqI) (auto simp add: bit_simps dest: bit_imp_le_length)
  finally have "(crc_bit_step ^^ 8) c = (crc_bit_step ^^ 8) (take_bit 8 c) XOR drop_bit 8 crc"
    by (subst split) (simp only: crc_bit_steps_xor)
  moreover have "crc32_update crc b = (crc_bit_step ^^ 8) (take_bit 8 c) XOR drop_bit 8 crc"
    using idx by (simp only: crc32_update_def Let_def c_def [symmetric] crc_table_nth
        word_of_nat_unat word_and_ff)
  ultimately show ?thesis by (simp only: c_def)
qed

lemma inj_crc32_update_state: "crc32_update c b = crc32_update d b \<Longrightarrow> c = d"
proof -
  assume "crc32_update c b = crc32_update d b"
  then have "c XOR ucast b = d XOR ucast b"
    using inj_crc_bit_steps [of 8] by (simp only: crc32_update_bits inj_eq)
  then show "c = d" by simp
qed

lemma unat_byte_less: "unat (b :: byte) < 2 ^ 32"
  using unat_less2p [of b] by simp

lemma inj_crc32_update_byte: "crc32_update c a = crc32_update c b \<Longrightarrow> a = b"
proof -
  assume "crc32_update c a = crc32_update c b"
  then have "c XOR ucast a = c XOR ucast b"
    using inj_crc_bit_steps [of 8] by (simp only: crc32_update_bits inj_eq)
  then have "(ucast a :: u32) = ucast b" by simp
  then have "unat (ucast a :: u32) = unat (ucast b :: u32)" by simp
  then have "take_bit 32 (unat a) = take_bit 32 (unat b)" by (simp add: unsigned_ucast_eq)
  then have "unat a = unat b" using unat_byte_less by (simp only: take_bit_nat_eq_self)
  then show "a = b" by (rule unsigned_word_eqI)
qed

lemma inj_crc32_foldl: "foldl crc32_update c bs = foldl crc32_update d bs \<Longrightarrow> c = d"
  by (induction bs arbitrary: c d) (auto dest: inj_crc32_update_state)

section \<open>Properties\<close>

text \<open>C38. The table-driven checksum used for every EFS structure is the bit-serial CRC of
  the reflected polynomial \<open>0xEDB88320\<close>, on every message.\<close>

theorem crc32_eq_bitwise: "crc32 data = crc32_bitwise data"
proof -
  have "foldl crc32_update c data = foldl (\<lambda>crc b. (crc_bit_step ^^ 8) (crc XOR ucast b)) c data"
    for c
    by (induction data arbitrary: c) (simp_all only: foldl.simps crc32_update_bits)
  then show ?thesis by (simp only: crc32_def crc32_bitwise_def)
qed

text \<open>C37. A single corrupted byte never goes unnoticed: two messages that differ in exactly
  one byte have different checksums.\<close>

theorem crc32_detects_byte:
  assumes "a \<noteq> b"
  shows "crc32 (pre @ a # post) \<noteq> crc32 (pre @ b # post)"
proof
  assume "crc32 (pre @ a # post) = crc32 (pre @ b # post)"
  then have "foldl crc32_update (crc32_update (foldl crc32_update 0xFFFFFFFF pre) a) post
    = foldl crc32_update (crc32_update (foldl crc32_update 0xFFFFFFFF pre) b) post"
    by (simp add: crc32_def)
  then have "a = b" by (blast dest: inj_crc32_foldl inj_crc32_update_byte)
  with assms show False ..
qed

theorem crc32_detects_byte_witness:
  "crc32 ([1, 2] @ 0 # [4]) \<noteq> crc32 ([1, 2] @ 3 # [4])"
  by (rule crc32_detects_byte) simp

end
