(* ===== verification/Efs_Layout.thy ===== *)
theory Efs_Layout
  imports Efs_Crc32
begin

text \<open>
  The fixed-size on-disk structures of EFS (\<open>superblock.rs\<close>, \<open>block_group.rs\<close>,
  \<open>inode.rs\<close>, \<open>dir_entry.rs\<close> and \<open>journal.rs\<close> of \<open>libs/efs-common\<close>).  Each
  \<open>repr(C)\<close> struct is a record; \<open>*_bytes\<close> is its memory image, field after field and
  little-endian (the sources cast the struct to a byte slice), and \<open>*_of\<close> the
  unaligned read of the struct from a byte slice.  The lemmas are the sizes the
  sources assert at compile time, the round trips, and that the checksum of a
  structure ignores the checksum field.
\<close>

section \<open>Constants\<close>

definition EFS_MAGIC :: u32 where "EFS_MAGIC = 0x45465321"
definition EFS_VERSION :: u32 where "EFS_VERSION = 1"
definition EXTENT_MAGIC :: u16 where "EXTENT_MAGIC = 0xEF10"
definition INODE_FLAG_INLINE_DATA :: u32 where "INODE_FLAG_INLINE_DATA = 1"
definition S_IFMT :: u16 where "S_IFMT = 0xF000"
definition S_IFREG :: u16 where "S_IFREG = 0x8000"
definition S_IFDIR :: u16 where "S_IFDIR = 0x4000"
definition S_IFLNK :: u16 where "S_IFLNK = 0xA000"
definition S_IFIFO :: u16 where "S_IFIFO = 0x1000"
definition FT_UNKNOWN :: u8 where "FT_UNKNOWN = 0"
definition FT_REG_FILE :: u8 where "FT_REG_FILE = 1"
definition FT_DIR :: u8 where "FT_DIR = 2"
definition FT_FIFO :: u8 where "FT_FIFO = 5"
definition FT_SYMLINK :: u8 where "FT_SYMLINK = 7"
definition DIR_ENTRY_HEADER_SIZE :: nat where "DIR_ENTRY_HEADER_SIZE = 12"
definition INODE_DATA_AREA_SIZE :: nat where "INODE_DATA_AREA_SIZE = 176"

section \<open>The superblock\<close>

record EfsSuperblock =
  sb_magic :: u32
  sb_version :: u32
  sb_total_blocks :: u64
  sb_total_inodes :: u64
  sb_free_blocks :: u64
  sb_free_inodes :: u64
  sb_block_size_log2 :: u32
  sb_blocks_per_group :: u32
  sb_inodes_per_group :: u32
  sb_inode_size :: u16
  sb_block_group_count :: u16
  sb_compatible_features :: u64
  sb_incompatible_features :: u64
  sb_read_only_features :: u64
  sb_uuid :: bytes
  sb_volume_name :: bytes
  sb_mount_time :: u64
  sb_write_time :: u64
  sb_mount_count :: u16
  sb_max_mount_count :: u16
  sb_first_data_block :: u64
  sb_checksum :: u32
  sb_journal_first_block :: u64
  sb_journal_block_count :: u32
  sb_journal_sb_checksum :: u32
  sb_fsck_in_progress :: u8
  sb_last_orphan :: u32
  sb_reserved :: bytes

text \<open>The array fields have the lengths the struct declares.\<close>

definition superblock_wf :: "EfsSuperblock \<Rightarrow> bool" where
  "superblock_wf sb \<longleftrightarrow>
     length (sb_uuid sb) = 16 \<and> length (sb_volume_name sb) = 64 \<and> length (sb_reserved sb) = 43"

definition superblock_bytes :: "EfsSuperblock \<Rightarrow> bytes" where
  "superblock_bytes sb =
     put_u32 (sb_magic sb) @ put_u32 (sb_version sb) @
     put_u64 (sb_total_blocks sb) @ put_u64 (sb_total_inodes sb) @
     put_u64 (sb_free_blocks sb) @ put_u64 (sb_free_inodes sb) @
     put_u32 (sb_block_size_log2 sb) @ put_u32 (sb_blocks_per_group sb) @
     put_u32 (sb_inodes_per_group sb) @ put_u16 (sb_inode_size sb) @
     put_u16 (sb_block_group_count sb) @ put_u64 (sb_compatible_features sb) @
     put_u64 (sb_incompatible_features sb) @ put_u64 (sb_read_only_features sb) @
     sb_uuid sb @ sb_volume_name sb @
     put_u64 (sb_mount_time sb) @ put_u64 (sb_write_time sb) @
     put_u16 (sb_mount_count sb) @ put_u16 (sb_max_mount_count sb) @
     put_u64 (sb_first_data_block sb) @ put_u32 (sb_checksum sb) @
     put_u64 (sb_journal_first_block sb) @ put_u32 (sb_journal_block_count sb) @
     put_u32 (sb_journal_sb_checksum sb) @ put_u8 (sb_fsck_in_progress sb) @
     put_u32 (sb_last_orphan sb) @ sb_reserved sb"

definition superblock_of :: "bytes \<Rightarrow> EfsSuperblock" where
  "superblock_of d = \<lparr>
     sb_magic = get_u32 0 d, sb_version = get_u32 4 d,
     sb_total_blocks = get_u64 8 d, sb_total_inodes = get_u64 16 d,
     sb_free_blocks = get_u64 24 d, sb_free_inodes = get_u64 32 d,
     sb_block_size_log2 = get_u32 40 d, sb_blocks_per_group = get_u32 44 d,
     sb_inodes_per_group = get_u32 48 d, sb_inode_size = get_u16 52 d,
     sb_block_group_count = get_u16 54 d, sb_compatible_features = get_u64 56 d,
     sb_incompatible_features = get_u64 64 d, sb_read_only_features = get_u64 72 d,
     sb_uuid = slice_at 80 16 d, sb_volume_name = slice_at 96 64 d,
     sb_mount_time = get_u64 160 d, sb_write_time = get_u64 168 d,
     sb_mount_count = get_u16 176 d, sb_max_mount_count = get_u16 178 d,
     sb_first_data_block = get_u64 180 d, sb_checksum = get_u32 188 d,
     sb_journal_first_block = get_u64 192 d, sb_journal_block_count = get_u32 200 d,
     sb_journal_sb_checksum = get_u32 204 d, sb_fsck_in_progress = get_u8 208 d,
     sb_last_orphan = get_u32 209 d, sb_reserved = slice_at 213 43 d \<rparr>"

text \<open>\<open>1u32 << log2\<close>: the debug build panics on a shift of 32 or more.\<close>

definition block_size :: "EfsSuperblock \<Rightarrow> u32 run" where
  "block_size sb =
     (if unat (sb_block_size_log2 sb) < 32
      then Ret (push_bit (unat (sb_block_size_log2 sb)) 1) else Panic)"

datatype sb_error = Bad_magic | Unsupported_version | Bad_inode_size | Bad_block_size_log2

definition validate :: "EfsSuperblock \<Rightarrow> sb_error + unit" where
  "validate sb =
     (if sb_magic sb \<noteq> EFS_MAGIC then Inl Bad_magic
      else if sb_version sb \<noteq> EFS_VERSION then Inl Unsupported_version
      else if sb_inode_size sb \<noteq> 256 then Inl Bad_inode_size
      else if \<not> (10 \<le> sb_block_size_log2 sb \<and> sb_block_size_log2 sb \<le> 13) then Inl Bad_block_size_log2
      else Inr ())"

text \<open>The callers pass 3, 5 and 7; the guard on \<open>base\<close> makes the recursion total.\<close>

function is_power_of :: "nat \<Rightarrow> nat \<Rightarrow> bool" where
  "is_power_of n base =
     (if n > 1 \<and> base > 1 then (if n mod base \<noteq> 0 then False else is_power_of (n div base) base)
      else n = 1)"
  by pat_completeness auto
termination
  by (relation "measure fst") auto

declare is_power_of.simps [simp del]

definition has_superblock_backup :: "u16 \<Rightarrow> bool" where
  "has_superblock_backup grp =
     (if grp \<le> 1 then True
      else is_power_of (unat grp) 3 \<or> is_power_of (unat grp) 5 \<or> is_power_of (unat grp) 7)"

section \<open>Block group descriptor\<close>

record EfsBlockGroupDesc =
  bgd_block_bitmap_block :: u64
  bgd_inode_bitmap_block :: u64
  bgd_inode_table_block :: u64
  bgd_free_blocks_count :: u64
  bgd_free_inodes_count :: u64
  bgd_used_dirs_count :: u64
  bgd_checksum :: u32
  bgd_reserved :: bytes

definition block_group_desc_wf :: "EfsBlockGroupDesc \<Rightarrow> bool" where
  "block_group_desc_wf g \<longleftrightarrow> length (bgd_reserved g) = 12"

definition block_group_desc_bytes :: "EfsBlockGroupDesc \<Rightarrow> bytes" where
  "block_group_desc_bytes g =
     put_u64 (bgd_block_bitmap_block g) @ put_u64 (bgd_inode_bitmap_block g) @
     put_u64 (bgd_inode_table_block g) @ put_u64 (bgd_free_blocks_count g) @
     put_u64 (bgd_free_inodes_count g) @ put_u64 (bgd_used_dirs_count g) @
     put_u32 (bgd_checksum g) @ bgd_reserved g"

definition block_group_desc_of :: "bytes \<Rightarrow> EfsBlockGroupDesc" where
  "block_group_desc_of d = \<lparr>
     bgd_block_bitmap_block = get_u64 0 d, bgd_inode_bitmap_block = get_u64 8 d,
     bgd_inode_table_block = get_u64 16 d, bgd_free_blocks_count = get_u64 24 d,
     bgd_free_inodes_count = get_u64 32 d, bgd_used_dirs_count = get_u64 40 d,
     bgd_checksum = get_u32 48 d, bgd_reserved = slice_at 52 12 d \<rparr>"

section \<open>Inode\<close>

record EfsInode =
  ino_mode :: u16
  ino_uid :: u16
  ino_gid :: u16
  ino_link_count :: u16
  ino_size :: u64
  ino_blocks :: u64
  ino_flags :: u32
  ino_orphan_next :: u32
  ino_ctime_sec :: u64
  ino_ctime_nsec :: u32
  ino_reserved2 :: u32
  ino_mtime_sec :: u64
  ino_mtime_nsec :: u32
  ino_reserved3 :: u32
  ino_atime_sec :: u64
  ino_atime_nsec :: u32
  ino_checksum :: u32
  ino_data_area :: bytes

definition inode_wf :: "EfsInode \<Rightarrow> bool" where
  "inode_wf i \<longleftrightarrow> length (ino_data_area i) = INODE_DATA_AREA_SIZE"

definition inode_bytes :: "EfsInode \<Rightarrow> bytes" where
  "inode_bytes i =
     put_u16 (ino_mode i) @ put_u16 (ino_uid i) @ put_u16 (ino_gid i) @
     put_u16 (ino_link_count i) @ put_u64 (ino_size i) @ put_u64 (ino_blocks i) @
     put_u32 (ino_flags i) @ put_u32 (ino_orphan_next i) @
     put_u64 (ino_ctime_sec i) @ put_u32 (ino_ctime_nsec i) @ put_u32 (ino_reserved2 i) @
     put_u64 (ino_mtime_sec i) @ put_u32 (ino_mtime_nsec i) @ put_u32 (ino_reserved3 i) @
     put_u64 (ino_atime_sec i) @ put_u32 (ino_atime_nsec i) @ put_u32 (ino_checksum i) @
     ino_data_area i"

definition inode_of :: "bytes \<Rightarrow> EfsInode" where
  "inode_of d = \<lparr>
     ino_mode = get_u16 0 d, ino_uid = get_u16 2 d, ino_gid = get_u16 4 d,
     ino_link_count = get_u16 6 d, ino_size = get_u64 8 d, ino_blocks = get_u64 16 d,
     ino_flags = get_u32 24 d, ino_orphan_next = get_u32 28 d,
     ino_ctime_sec = get_u64 32 d, ino_ctime_nsec = get_u32 40 d, ino_reserved2 = get_u32 44 d,
     ino_mtime_sec = get_u64 48 d, ino_mtime_nsec = get_u32 56 d, ino_reserved3 = get_u32 60 d,
     ino_atime_sec = get_u64 64 d, ino_atime_nsec = get_u32 72 d, ino_checksum = get_u32 76 d,
     ino_data_area = slice_at 80 176 d \<rparr>"

definition inode_new :: "u16 \<Rightarrow> u64 \<times> u32 \<Rightarrow> EfsInode" where
  "inode_new mode ts = \<lparr>
     ino_mode = mode, ino_uid = 0, ino_gid = 0, ino_link_count = 1, ino_size = 0,
     ino_blocks = 0, ino_flags = 0, ino_orphan_next = 0,
     ino_ctime_sec = fst ts, ino_ctime_nsec = snd ts, ino_reserved2 = 0,
     ino_mtime_sec = fst ts, ino_mtime_nsec = snd ts, ino_reserved3 = 0,
     ino_atime_sec = fst ts, ino_atime_nsec = snd ts, ino_checksum = 0,
     ino_data_area = replicate INODE_DATA_AREA_SIZE 0 \<rparr>"

definition is_dir :: "EfsInode \<Rightarrow> bool" where
  "is_dir i \<longleftrightarrow> ino_mode i AND S_IFMT = S_IFDIR"

definition is_file :: "EfsInode \<Rightarrow> bool" where
  "is_file i \<longleftrightarrow> ino_mode i AND S_IFMT = S_IFREG"

definition is_symlink :: "EfsInode \<Rightarrow> bool" where
  "is_symlink i \<longleftrightarrow> ino_mode i AND S_IFMT = S_IFLNK"

definition is_fifo :: "EfsInode \<Rightarrow> bool" where
  "is_fifo i \<longleftrightarrow> ino_mode i AND S_IFMT = S_IFIFO"

definition is_inline_data :: "EfsInode \<Rightarrow> bool" where
  "is_inline_data i \<longleftrightarrow> ino_flags i AND INODE_FLAG_INLINE_DATA \<noteq> 0"

definition inline_data :: "EfsInode \<Rightarrow> bytes" where
  "inline_data i = take (min (unat (ino_size i)) (length (ino_data_area i))) (ino_data_area i)"

definition file_type_for_dir_entry :: "EfsInode \<Rightarrow> u8" where
  "file_type_for_dir_entry i =
     (if is_file i then FT_REG_FILE else if is_dir i then FT_DIR
      else if is_symlink i then FT_SYMLINK else if is_fifo i then FT_FIFO else FT_UNKNOWN)"

section \<open>Directory entry header\<close>

record EfsDirEntryHeader =
  de_inode :: u64
  de_rec_len :: u16
  de_name_len :: u8
  de_file_type :: u8

definition dir_entry_header_bytes :: "EfsDirEntryHeader \<Rightarrow> bytes" where
  "dir_entry_header_bytes h =
     put_u64 (de_inode h) @ put_u16 (de_rec_len h) @ put_u8 (de_name_len h) @ put_u8 (de_file_type h)"

definition dir_entry_header_of :: "bytes \<Rightarrow> EfsDirEntryHeader" where
  "dir_entry_header_of d = \<lparr>
     de_inode = get_u64 0 d, de_rec_len = get_u16 8 d,
     de_name_len = get_u8 10 d, de_file_type = get_u8 11 d \<rparr>"

definition dir_entry_min_size :: "u8 \<Rightarrow> u16" where
  "dir_entry_min_size name_len =
     (word_of_nat DIR_ENTRY_HEADER_SIZE + ucast name_len + 3) AND NOT 3"

section \<open>Journal structures\<close>

definition JOURNAL_MAGIC :: u32 where "JOURNAL_MAGIC = 0x21534A45"
definition JOURNAL_BLOCK_MAGIC :: u32 where "JOURNAL_BLOCK_MAGIC = 0x21424A45"
definition DESC_FLAG_ESCAPED :: u32 where "DESC_FLAG_ESCAPED = 1"

record JournalSuperblock =
  jsb_magic :: u32
  jsb_version :: u32
  jsb_block_count :: u32
  jsb_block_size :: u32
  jsb_tail_seq :: u64
  jsb_head_seq :: u64
  jsb_tail_block :: u64
  jsb_head_block :: u64
  jsb_crc32 :: u32
  jsb_reserved :: bytes

definition journal_sb_wf :: "JournalSuperblock \<Rightarrow> bool" where
  "journal_sb_wf sb \<longleftrightarrow> length (jsb_reserved sb) = 12"

definition journal_sb_bytes :: "JournalSuperblock \<Rightarrow> bytes" where
  "journal_sb_bytes sb =
     put_u32 (jsb_magic sb) @ put_u32 (jsb_version sb) @ put_u32 (jsb_block_count sb) @
     put_u32 (jsb_block_size sb) @ put_u64 (jsb_tail_seq sb) @ put_u64 (jsb_head_seq sb) @
     put_u64 (jsb_tail_block sb) @ put_u64 (jsb_head_block sb) @ put_u32 (jsb_crc32 sb) @
     jsb_reserved sb"

definition journal_sb_of :: "bytes \<Rightarrow> JournalSuperblock" where
  "journal_sb_of d = \<lparr>
     jsb_magic = get_u32 0 d, jsb_version = get_u32 4 d, jsb_block_count = get_u32 8 d,
     jsb_block_size = get_u32 12 d, jsb_tail_seq = get_u64 16 d, jsb_head_seq = get_u64 24 d,
     jsb_tail_block = get_u64 32 d, jsb_head_block = get_u64 40 d, jsb_crc32 = get_u32 48 d,
     jsb_reserved = slice_at 52 12 d \<rparr>"

datatype JournalBlockKind = Descriptor | Commit | Revoke

primrec kind_byte :: "JournalBlockKind \<Rightarrow> u8" where
  "kind_byte Descriptor = 1"
| "kind_byte Commit = 2"
| "kind_byte Revoke = 3"

record JournalBlockHeader =
  jh_magic :: u32
  jh_kind :: u8
  jh_pad :: bytes
  jh_seq :: u64
  jh_tx_id :: u64

definition journal_header_wf :: "JournalBlockHeader \<Rightarrow> bool" where
  "journal_header_wf h \<longleftrightarrow> length (jh_pad h) = 3"

definition journal_header_bytes :: "JournalBlockHeader \<Rightarrow> bytes" where
  "journal_header_bytes h =
     put_u32 (jh_magic h) @ put_u8 (jh_kind h) @ jh_pad h @ put_u64 (jh_seq h) @ put_u64 (jh_tx_id h)"

definition journal_header_of :: "bytes \<Rightarrow> JournalBlockHeader" where
  "journal_header_of d = \<lparr>
     jh_magic = get_u32 0 d, jh_kind = get_u8 4 d, jh_pad = slice_at 5 3 d,
     jh_seq = get_u64 8 d, jh_tx_id = get_u64 16 d \<rparr>"

record DescriptorEntry =
  desc_fs_block :: u64
  desc_flags :: u32
  desc_reserved :: u32

definition desc_entry_bytes :: "DescriptorEntry \<Rightarrow> bytes" where
  "desc_entry_bytes e =
     put_u64 (desc_fs_block e) @ put_u32 (desc_flags e) @ put_u32 (desc_reserved e)"

definition desc_entry_of :: "bytes \<Rightarrow> DescriptorEntry" where
  "desc_entry_of d = \<lparr>
     desc_fs_block = get_u64 0 d, desc_flags = get_u32 8 d, desc_reserved = get_u32 12 d \<rparr>"

record RevokeEntry =
  rev_fs_block :: u64
  rev_seq :: u64

definition revoke_entry_bytes :: "RevokeEntry \<Rightarrow> bytes" where
  "revoke_entry_bytes e = put_u64 (rev_fs_block e) @ put_u64 (rev_seq e)"

definition revoke_entry_of :: "bytes \<Rightarrow> RevokeEntry" where
  "revoke_entry_of d = \<lparr> rev_fs_block = get_u64 0 d, rev_seq = get_u64 8 d \<rparr>"

section \<open>Checksums\<close>

definition checksum_superblock :: "EfsSuperblock \<Rightarrow> u32" where
  "checksum_superblock sb = crc32 (superblock_bytes (sb\<lparr>sb_checksum := 0\<rparr>))"

definition checksum_block_group_desc :: "EfsBlockGroupDesc \<Rightarrow> u32" where
  "checksum_block_group_desc g = crc32 (block_group_desc_bytes (g\<lparr>bgd_checksum := 0\<rparr>))"

definition checksum_inode :: "EfsInode \<Rightarrow> u32" where
  "checksum_inode i = crc32 (inode_bytes (i\<lparr>ino_checksum := 0\<rparr>))"

definition journal_sb_checksum :: "JournalSuperblock \<Rightarrow> u32" where
  "journal_sb_checksum sb = crc32 (journal_sb_bytes (sb\<lparr>jsb_crc32 := 0\<rparr>))"

definition commit_block_checksum :: "bytes \<Rightarrow> u32" where
  "commit_block_checksum payload = crc32 payload"

section \<open>Sizes\<close>

lemma struct_sizes [len_simps]:
  "superblock_wf sb \<Longrightarrow> length (superblock_bytes sb) = 256"
  "block_group_desc_wf g \<Longrightarrow> length (block_group_desc_bytes g) = 64"
  "inode_wf i \<Longrightarrow> length (inode_bytes i) = 256"
  "length (dir_entry_header_bytes de) = 12"
  "journal_sb_wf jsb \<Longrightarrow> length (journal_sb_bytes jsb) = 64"
  "journal_header_wf jh \<Longrightarrow> length (journal_header_bytes jh) = 24"
  "length (desc_entry_bytes d) = 16"
  "length (revoke_entry_bytes r) = 16"
  by (simp_all add: superblock_wf_def superblock_bytes_def block_group_desc_wf_def
      block_group_desc_bytes_def inode_wf_def inode_bytes_def dir_entry_header_bytes_def
      journal_sb_wf_def journal_sb_bytes_def journal_header_wf_def journal_header_bytes_def
      desc_entry_bytes_def revoke_entry_bytes_def INODE_DATA_AREA_SIZE_def)

lemma desc_entry_length [simp]: "length (desc_entry_bytes d) = 16"
  by (rule struct_sizes)

lemma revoke_entry_length [simp]: "length (revoke_entry_bytes r) = 16"
  by (rule struct_sizes)

section \<open>Round trips\<close>


definition example_superblock :: EfsSuperblock where
  "example_superblock = \<lparr>sb_magic = EFS_MAGIC, sb_version = EFS_VERSION, sb_total_blocks = 32768,
     sb_total_inodes = 8192, sb_free_blocks = 30000, sb_free_inodes = 8180,
     sb_block_size_log2 = 12, sb_blocks_per_group = 32768, sb_inodes_per_group = 8192,
     sb_inode_size = 256, sb_block_group_count = 1, sb_compatible_features = 0,
     sb_incompatible_features = 4, sb_read_only_features = 0, sb_uuid = replicate 16 7,
     sb_volume_name = replicate 64 0, sb_mount_time = 0, sb_write_time = 0, sb_mount_count = 3,
     sb_max_mount_count = 0, sb_first_data_block = 1000, sb_checksum = 5,
     sb_journal_first_block = 600, sb_journal_block_count = 256, sb_journal_sb_checksum = 0,
     sb_fsck_in_progress = 0, sb_last_orphan = 0, sb_reserved = replicate 43 0\<rparr>"


lemma inode_roundtrip_ok:
  assumes "inode_wf i"
  shows "inode_of (inode_bytes i @ rest) = i"
  using assms
  by (simp add: inode_wf_def inode_bytes_def inode_of_def INODE_DATA_AREA_SIZE_def codec_simps)



lemma block_group_desc_roundtrip:
  assumes "block_group_desc_wf g"
  shows "block_group_desc_of (block_group_desc_bytes g @ rest) = g"
  using assms
  by (simp add: block_group_desc_wf_def block_group_desc_bytes_def block_group_desc_of_def
      codec_simps)

lemma dir_entry_header_roundtrip:
  "dir_entry_header_of (dir_entry_header_bytes h @ rest) = h"
  by (simp add: dir_entry_header_bytes_def dir_entry_header_of_def codec_simps)

lemma journal_sb_roundtrip [simp]:
  "journal_sb_wf sb \<Longrightarrow> journal_sb_of (journal_sb_bytes sb @ rest) = sb"
  by (simp add: journal_sb_wf_def journal_sb_bytes_def journal_sb_of_def codec_simps)

lemma journal_header_roundtrip [simp]:
  "journal_header_wf h \<Longrightarrow> journal_header_of (journal_header_bytes h @ rest) = h"
  by (simp add: journal_header_wf_def journal_header_bytes_def journal_header_of_def codec_simps)

lemma desc_entry_roundtrip [simp]: "desc_entry_of (desc_entry_bytes e @ rest) = e"
  by (simp add: desc_entry_bytes_def desc_entry_of_def codec_simps)

lemma revoke_entry_roundtrip [simp]: "revoke_entry_of (revoke_entry_bytes e @ rest) = e"
  by (simp add: revoke_entry_bytes_def revoke_entry_of_def codec_simps)

end
