(* ===== verification/Journal_Format.thy ===== *)
theory Journal_Format
  imports Efs_Layout
begin

text \<open>
  The blocks of the journal ring: the writers of \<open>journal_build.rs\<close> and the readers of
  \<open>journal_parse.rs\<close>.  A writer panics when the block cannot hold its fixed part (a slice
  index out of range); on larger blocks it is the image function of the same name.  The
  round trips are stated for every number of entries, including more than fit in a block:
  the writers drop the excess without a trace.
\<close>

section \<open>Writers\<close>

definition header_image :: "nat \<Rightarrow> JournalBlockKind \<Rightarrow> u64 \<Rightarrow> u64 \<Rightarrow> bytes" where
  "header_image bs kind seq tx_id =
     splice_at 0 (journal_header_bytes \<lparr>jh_magic = JOURNAL_BLOCK_MAGIC, jh_kind = kind_byte kind,
       jh_pad = replicate 3 0, jh_seq = seq, jh_tx_id = tx_id\<rparr>) (replicate bs 0)"

definition header_block :: "nat \<Rightarrow> JournalBlockKind \<Rightarrow> u64 \<Rightarrow> u64 \<Rightarrow> bytes run" where
  "header_block bs kind seq tx_id =
     (if bs < 24 then Panic else Ret (header_image bs kind seq tx_id))"

text \<open>The copy loop both entry writers share: stop at the first entry past the block.\<close>

fun write_entries :: "nat \<Rightarrow> nat \<Rightarrow> bytes list \<Rightarrow> bytes \<Rightarrow> bytes" where
  "write_entries bs off [] buf = buf"
| "write_entries bs off (e # es) buf =
     (if off + 16 > bs then buf else write_entries bs (off + 16) es (splice_at off e buf))"

definition descriptor_image :: "nat \<Rightarrow> u64 \<Rightarrow> u64 \<Rightarrow> DescriptorEntry list \<Rightarrow> bytes" where
  "descriptor_image bs seq tx_id entries =
     write_entries bs 28 (map desc_entry_bytes entries)
       (splice_at 24 (put_u32 (word_of_nat (length entries))) (header_image bs Descriptor seq tx_id))"

definition build_descriptor_block ::
  "nat \<Rightarrow> u64 \<Rightarrow> u64 \<Rightarrow> DescriptorEntry list \<Rightarrow> bytes run" where
  "build_descriptor_block bs seq tx_id entries =
     (if bs < 28 then Panic else Ret (descriptor_image bs seq tx_id entries))"

definition revoke_image :: "nat \<Rightarrow> u64 \<Rightarrow> u64 \<Rightarrow> RevokeEntry list \<Rightarrow> bytes" where
  "revoke_image bs seq tx_id entries =
     write_entries bs 24 (map revoke_entry_bytes entries) (header_image bs Revoke seq tx_id)"

definition build_revoke_block :: "nat \<Rightarrow> u64 \<Rightarrow> u64 \<Rightarrow> RevokeEntry list \<Rightarrow> bytes run" where
  "build_revoke_block bs seq tx_id entries =
     (if bs < 24 then Panic else Ret (revoke_image bs seq tx_id entries))"

definition commit_image :: "nat \<Rightarrow> u64 \<Rightarrow> u64 \<Rightarrow> u32 \<Rightarrow> bytes" where
  "commit_image bs seq tx_id payload_crc =
     splice_at 24 (put_u32 payload_crc) (header_image bs Commit seq tx_id)"

definition build_commit_block :: "nat \<Rightarrow> u64 \<Rightarrow> u64 \<Rightarrow> u32 \<Rightarrow> bytes run" where
  "build_commit_block bs seq tx_id payload_crc =
     (if bs < 28 then Panic else Ret (commit_image bs seq tx_id payload_crc))"

section \<open>Readers\<close>

definition parse_header :: "bytes \<Rightarrow> JournalBlockHeader option" where
  "parse_header block =
     (if length block < 24 then None
      else let hdr = journal_header_of block
           in if jh_magic hdr \<noteq> JOURNAL_BLOCK_MAGIC then None else Some hdr)"

fun read_desc_entries :: "bytes \<Rightarrow> nat \<Rightarrow> nat \<Rightarrow> nat \<Rightarrow> DescriptorEntry list" where
  "read_desc_entries block bs off 0 = []"
| "read_desc_entries block bs off (Suc n) =
     (if off + 16 > bs then []
      else if off + 16 > length block then []
      else desc_entry_of (drop off block) # read_desc_entries block bs (off + 16) n)"

definition parse_descriptor_entries :: "bytes \<Rightarrow> nat \<Rightarrow> DescriptorEntry list" where
  "parse_descriptor_entries block bs =
     (if length block < 28 then []
      else read_desc_entries block bs 28 (unat (get_u32 24 block)))"

function read_revoke_entries :: "bytes \<Rightarrow> nat \<Rightarrow> nat \<Rightarrow> RevokeEntry list" where
  "read_revoke_entries block bs off =
     (if off + 16 \<le> bs \<and> off + 16 \<le> length block
      then let entry = revoke_entry_of (drop off block)
           in if rev_fs_block entry = 0 \<and> rev_seq entry = 0 then []
              else entry # read_revoke_entries block bs (off + 16)
      else [])"
  by pat_completeness auto
termination
  by (relation "measure (\<lambda>(block, bs, off). bs - off)") auto

declare read_revoke_entries.simps [simp del]

definition parse_revoke_entries :: "bytes \<Rightarrow> nat \<Rightarrow> RevokeEntry list" where
  "parse_revoke_entries block bs = read_revoke_entries block bs 24"

definition commit_payload_crc :: "bytes \<Rightarrow> u32" where
  "commit_payload_crc block = (if length block < 28 then 0 else get_u32 24 block)"

section \<open>Shape of the written blocks\<close>

definition entries_fit :: "nat \<Rightarrow> nat" where
  "entries_fit bs = (bs - 28) div 16"

lemma header_image_split:
  "24 \<le> bs \<Longrightarrow> header_image bs kind seq tx_id =
     journal_header_bytes \<lparr>jh_magic = JOURNAL_BLOCK_MAGIC, jh_kind = kind_byte kind,
       jh_pad = replicate 3 0, jh_seq = seq, jh_tx_id = tx_id\<rparr> @ replicate (bs - 24) 0"
  by (simp add: header_image_def splice_at_def struct_sizes journal_header_wf_def)

lemma write_entries_short: "16 * length es \<le> bs - off \<Longrightarrow> length buf = bs \<Longrightarrow> off \<le> bs \<Longrightarrow>
    \<forall>e \<in> set es. length e = 16 \<Longrightarrow> write_entries bs off es buf = splice_at off (concat es) buf"
proof (induction es arbitrary: off buf)
  case Nil
  then show ?case by (simp add: splice_at_def)
next
  case (Cons e es)
  have "\<not> off + 16 > bs" using Cons.prems by auto
  then have "write_entries bs off (e # es) buf = write_entries bs (off + 16) es (splice_at off e buf)"
    by simp
  also have "\<dots> = splice_at (off + 16) (concat es) (splice_at off e buf)"
    using Cons.prems by (intro Cons.IH) auto
  also have "\<dots> = splice_at off (concat (e # es)) buf"
    using Cons.prems by (auto simp add: splice_at_def min_def add.commute add.left_commute)
  finally show ?case .
qed

lemma write_entries_take: "length buf = bs \<Longrightarrow> off \<le> bs \<Longrightarrow> \<forall>e \<in> set es. length e = 16 \<Longrightarrow>
    write_entries bs off es buf = write_entries bs off (take ((bs - off) div 16) es) buf"
proof (induction es arbitrary: off buf)
  case Nil
  then show ?case by simp
next
  case (Cons e es)
  show ?case
  proof (cases "off + 16 > bs")
    case True
    then have "(bs - off) div 16 = 0" by (simp add: div_eq_0_iff)
    with True show ?thesis by simp
  next
    case False
    then have "(bs - off) div 16 = Suc ((bs - (off + 16)) div 16)"
      by (simp add: le_div_geq)
    with False Cons show ?thesis by simp
  qed
qed

lemma write_entries_eq:
  assumes "length buf = bs" "off \<le> bs" "\<forall>e \<in> set es. length e = 16"
  shows "write_entries bs off es buf = splice_at off (concat (take ((bs - off) div 16) es)) buf"
proof -
  have "16 * length (take ((bs - off) div 16) es) \<le> bs - off"
    using div_times_less_eq_dividend [of "bs - off" 16] by (auto simp: min_def)
  then show ?thesis
    using assms by (subst write_entries_take, simp_all, subst write_entries_short)
      (auto dest: in_set_takeD)
qed

lemma concat_entry_length:
  "\<forall>e \<in> set es. length e = n \<Longrightarrow> length (concat es) = n * length es"
  by (induction es) auto

lemma descriptor_image_split:
  assumes "28 \<le> bs"
  shows "descriptor_image bs seq tx_id entries =
    journal_header_bytes \<lparr>jh_magic = JOURNAL_BLOCK_MAGIC, jh_kind = kind_byte Descriptor,
       jh_pad = replicate 3 0, jh_seq = seq, jh_tx_id = tx_id\<rparr> @
    put_u32 (word_of_nat (length entries)) @
    concat (map desc_entry_bytes (take (entries_fit bs) entries)) @
    replicate (bs - 28 - 16 * min (entries_fit bs) (length entries)) 0"
  using assms
  by (simp add: descriptor_image_def header_image_split write_entries_eq entries_fit_def
      splice_at_def struct_sizes journal_header_wf_def take_map concat_entry_length [of _ 16] min_def)

lemma revoke_image_split:
  assumes "24 \<le> bs"
  shows "revoke_image bs seq tx_id entries =
    journal_header_bytes \<lparr>jh_magic = JOURNAL_BLOCK_MAGIC, jh_kind = kind_byte Revoke,
       jh_pad = replicate 3 0, jh_seq = seq, jh_tx_id = tx_id\<rparr> @
    concat (map revoke_entry_bytes (take ((bs - 24) div 16) entries)) @
    replicate (bs - 24 - 16 * min ((bs - 24) div 16) (length entries)) 0"
  using assms
  by (simp add: revoke_image_def header_image_split write_entries_eq
      splice_at_def struct_sizes journal_header_wf_def take_map concat_entry_length [of _ 16] min_def)

lemma commit_image_split:
  assumes "28 \<le> bs"
  shows "commit_image bs seq tx_id crc =
    journal_header_bytes \<lparr>jh_magic = JOURNAL_BLOCK_MAGIC, jh_kind = kind_byte Commit,
       jh_pad = replicate 3 0, jh_seq = seq, jh_tx_id = tx_id\<rparr> @
    put_u32 crc @ replicate (bs - 28) 0"
  using assms
  by (simp add: commit_image_def header_image_split splice_at_def struct_sizes journal_header_wf_def)

lemma image_length [simp]:
  "28 \<le> bs \<Longrightarrow> length (descriptor_image bs seq tx_id es) = bs"
  "24 \<le> bs \<Longrightarrow> length (revoke_image bs seq tx_id rs) = bs"
  "28 \<le> bs \<Longrightarrow> length (commit_image bs seq tx_id crc) = bs"
proof -
  show "length (descriptor_image bs seq tx_id es) = bs" if "28 \<le> bs"
    using that div_times_less_eq_dividend [of "bs - 28" 16]
    by (auto simp add: descriptor_image_split struct_sizes journal_header_wf_def
        concat_entry_length [of _ 16] entries_fit_def min_def)
  show "length (revoke_image bs seq tx_id rs) = bs" if "24 \<le> bs"
    using that div_times_less_eq_dividend [of "bs - 24" 16]
    by (auto simp add: revoke_image_split struct_sizes journal_header_wf_def
        concat_entry_length [of _ 16] min_def)
  show "length (commit_image bs seq tx_id crc) = bs" if "28 \<le> bs"
    using that by (simp add: commit_image_split struct_sizes journal_header_wf_def)
qed

section \<open>Reading a written block back\<close>

lemma parse_header_written [simp]:
  "28 \<le> bs \<Longrightarrow> parse_header (descriptor_image bs seq tx_id es) =
     Some \<lparr>jh_magic = JOURNAL_BLOCK_MAGIC, jh_kind = kind_byte Descriptor,
       jh_pad = replicate 3 0, jh_seq = seq, jh_tx_id = tx_id\<rparr>"
  "24 \<le> bs \<Longrightarrow> parse_header (revoke_image bs seq tx_id rs) =
     Some \<lparr>jh_magic = JOURNAL_BLOCK_MAGIC, jh_kind = kind_byte Revoke,
       jh_pad = replicate 3 0, jh_seq = seq, jh_tx_id = tx_id\<rparr>"
  "28 \<le> bs \<Longrightarrow> parse_header (commit_image bs seq tx_id crc) =
     Some \<lparr>jh_magic = JOURNAL_BLOCK_MAGIC, jh_kind = kind_byte Commit,
       jh_pad = replicate 3 0, jh_seq = seq, jh_tx_id = tx_id\<rparr>"
  by (simp_all add: parse_header_def)
    (simp_all add: descriptor_image_split revoke_image_split commit_image_split
      journal_header_wf_def)

lemma commit_payload_crc_written [simp]:
  "28 \<le> bs \<Longrightarrow> commit_payload_crc (commit_image bs seq tx_id crc) = crc"
  by (simp add: commit_payload_crc_def)
    (simp add: commit_image_split codec_simps struct_sizes journal_header_wf_def)

lemma read_desc_entries_written:
  assumes "length pre = off" "length block = bs"
    "block = pre @ concat (map desc_entry_bytes es) @ rest"
    "length es \<le> n" "n = length es \<or> length rest < 16"
  shows "read_desc_entries block bs off n = es"
  using assms
proof (induction es arbitrary: pre off n)
  case Nil
  then show ?case by (cases n) auto
next
  case (Cons e es)
  then obtain m where n: "n = Suc m" by (cases n) auto
  have "read_desc_entries block bs (off + 16) m = es"
    using Cons.prems n
    by (intro Cons.IH [of "pre @ desc_entry_bytes e"]) auto
  moreover have "drop off block = desc_entry_bytes e @ concat (map desc_entry_bytes es) @ rest"
    using Cons.prems by simp
  moreover have "off + 16 \<le> bs" using Cons.prems by auto
  ultimately show ?case using Cons.prems n by simp
qed

lemma rest_below_entry: "x - 16 * (x div 16) < (16 :: nat)"
  by (simp add: minus_mult_div_eq_mod)

lemma parse_descriptor_written:
  assumes "28 \<le> bs" "length entries < 2 ^ 32"
  shows "parse_descriptor_entries (descriptor_image bs seq tx_id entries) bs
    = take (entries_fit bs) entries"
proof -
  let ?hdr = "journal_header_bytes \<lparr>jh_magic = JOURNAL_BLOCK_MAGIC,
    jh_kind = kind_byte Descriptor, jh_pad = replicate 3 0, jh_seq = seq, jh_tx_id = tx_id\<rparr>
    @ put_u32 (word_of_nat (length entries))"
  let ?rest = "replicate (bs - 28 - 16 * min (entries_fit bs) (length entries)) (0 :: byte)"
  let ?img = "descriptor_image bs seq tx_id entries"
  have img: "?img = ?hdr @ concat (map desc_entry_bytes (take (entries_fit bs) entries)) @ ?rest"
    using assms(1) by (simp add: descriptor_image_split)
  have count: "unat (get_u32 24 ?img) = length entries"
    using assms by (simp add: img codec_simps struct_sizes journal_header_wf_def unat_of_nat)
  have "read_desc_entries ?img bs 28 (length entries) = take (entries_fit bs) entries"
    using assms(1) rest_below_entry [of "bs - 28"]
    by (intro read_desc_entries_written [OF _ _ img])
      (auto simp: struct_sizes journal_header_wf_def entries_fit_def min_def)
  then show ?thesis
    using assms(1) by (simp add: parse_descriptor_entries_def count)
qed



definition live_revoke :: "RevokeEntry \<Rightarrow> bool" where
  "live_revoke r \<longleftrightarrow> \<not> (rev_fs_block r = 0 \<and> rev_seq r = 0)"

lemma get_u64_zeros: "get_u64 off (replicate n 0) = 0"
proof -
  have zero: "of_le (replicate m 0) = 0" for m by (induction m) simp_all
  show ?thesis by (simp add: get_u64_def get_le_def slice_at_def zero)
qed

lemma read_revoke_entries_written:
  assumes "length pre = off" "length block = bs"
    "block = pre @ concat (map revoke_entry_bytes rs) @ replicate k 0"
  shows "read_revoke_entries block bs off = takeWhile live_revoke rs"
  using assms
proof (induction rs arbitrary: pre off)
  case Nil
  then show ?case
    by (subst read_revoke_entries.simps)
      (simp add: revoke_entry_of_def get_u64_zeros Let_def)
next
  case (Cons r rs)
  have "read_revoke_entries block bs (off + 16) = takeWhile live_revoke rs"
    using Cons.prems by (intro Cons.IH [of "pre @ revoke_entry_bytes r"]) auto
  moreover have "drop off block = revoke_entry_bytes r @ concat (map revoke_entry_bytes rs) @ replicate k 0"
    using Cons.prems by simp
  moreover have "off + 16 \<le> bs" using Cons.prems by auto
  ultimately show ?case
    using Cons.prems by (subst read_revoke_entries.simps) (simp add: live_revoke_def Let_def)
qed

lemma parse_revoke_written:
  assumes "24 \<le> bs"
  shows "parse_revoke_entries (revoke_image bs seq tx_id rs) bs
    = takeWhile live_revoke (take ((bs - 24) div 16) rs)"
  unfolding parse_revoke_entries_def
  by (rule read_revoke_entries_written [OF _ _ revoke_image_split [OF assms]])
    (use assms in \<open>simp_all add: struct_sizes journal_header_wf_def\<close>)



end
