(* ===== verification/Journal_State.thy ===== *)
theory Journal_State
  imports Btree_Map Journal_Format
begin

text \<open>
  The in-memory side of the kernel journal (\<open>kernel/src/fs/journal/mod.rs\<close> and \<open>tx.rs\<close>):
  transactions, the journal state, the handle that enrols blocks, sealing, the checkpoint
  tracker and the cursor part of \<open>advance_tail\<close>.  Each operation is the critical section the
  source runs under the state or tracker lock.  A page is a reference (\<open>Arc\<close>) into a heap of
  cached pages, so a transaction commits what the page holds at commit time.

  Sequence numbers and ring cursors are natural numbers; they meet their 64-bit fields where
  blocks are encoded.
\<close>

section \<open>Transactions and the journal\<close>

type_synonym key = "nat \<times> nat"
type_synonym page_ref = nat

record Transaction =
  tx_seq :: nat
  tx_id :: nat
  enrolled_blocks :: "(key, page_ref) btree"
  tx_revokes :: "key btset"

definition tx_new :: "nat \<Rightarrow> nat \<Rightarrow> Transaction" where
  "tx_new seq tid = \<lparr>tx_seq = seq, tx_id = tid, enrolled_blocks = [], tx_revokes = []\<rparr>"

definition tx_is_empty :: "Transaction \<Rightarrow> bool" where
  "tx_is_empty tx \<longleftrightarrow> enrolled_blocks tx = [] \<and> tx_revokes tx = []"

record JournalState =
  head_seq :: nat
  tail_seq :: nat
  head_block :: nat
  tail_block :: nat
  active :: Transaction
  sealed :: "Transaction list"
  committed_pending :: "(nat \<times> nat) list"
  committed_seq :: nat

record Journal =
  j_device_id :: nat
  j_first_block :: nat
  j_partition_start_lba :: nat
  j_block_count :: nat
  j_state :: JournalState
  j_committed_seq_pub :: nat
  checkpoint_tracker :: "(key, nat) btree"
  tx_id_counter :: nat

definition journal_new :: "nat \<Rightarrow> nat \<Rightarrow> nat \<Rightarrow> nat \<Rightarrow> nat \<Rightarrow> nat \<Rightarrow> nat \<Rightarrow> Journal" where
  "journal_new dev start_lba first count hseq tseq initial_head = \<lparr>
     j_device_id = dev, j_first_block = first, j_partition_start_lba = start_lba,
     j_block_count = count,
     j_state = \<lparr>head_seq = hseq, tail_seq = tseq, head_block = initial_head,
       tail_block = initial_head, active = tx_new hseq hseq, sealed = [],
       committed_pending = [], committed_seq = hseq - 1\<rparr>,
     j_committed_seq_pub = hseq - 1, checkpoint_tracker = [], tx_id_counter = hseq\<rparr>"

definition ring_size :: "Journal \<Rightarrow> nat" where
  "ring_size j = j_block_count j - 1"

definition SECTORS_PER_BLOCK :: nat where "SECTORS_PER_BLOCK = 8"
definition BLOCK_SIZE :: nat where "BLOCK_SIZE = 4096"
definition MAX_RUN_BLOCKS :: nat where "MAX_RUN_BLOCKS = 248"
definition CHECKPOINT_ATTEMPTS :: nat where "CHECKPOINT_ATTEMPTS = 3"

definition journal_block_lba :: "Journal \<Rightarrow> nat \<Rightarrow> nat" where
  "journal_block_lba j idx =
     (let ring_idx = idx mod ring_size j + 1
      in j_partition_start_lba j + (j_first_block j + ring_idx) * SECTORS_PER_BLOCK)"

definition next_tx_id :: "Journal \<Rightarrow> nat \<times> Journal" where
  "next_tx_id j = (tx_id_counter j + 1, j\<lparr>tx_id_counter := tx_id_counter j + 1\<rparr>)"

definition set_committed_seq :: "nat \<Rightarrow> Journal \<Rightarrow> Journal" where
  "set_committed_seq seq j =
     j\<lparr>j_state := (j_state j)\<lparr>committed_seq := seq\<rparr>, j_committed_seq_pub := seq\<rparr>"

definition has_pending_work :: "Journal \<Rightarrow> bool" where
  "has_pending_work j \<longleftrightarrow> \<not> tx_is_empty (active (j_state j)) \<or> sealed (j_state j) \<noteq> []"

definition needs_sync_round :: "Journal \<Rightarrow> bool" where
  "needs_sync_round j \<longleftrightarrow> \<not> tx_is_empty (active (j_state j)) \<or> sealed (j_state j) \<noteq> [] \<or>
     committed_pending (j_state j) \<noteq> []"

definition depths :: "Journal \<Rightarrow> nat \<times> nat \<times> nat \<times> nat" where
  "depths j =
     (length (enrolled_blocks (active (j_state j))) + length (tx_revokes (active (j_state j))),
      length (sealed (j_state j)), length (committed_pending (j_state j)),
      length (checkpoint_tracker j))"

definition cursors :: "Journal \<Rightarrow> nat \<times> nat \<times> nat \<times> nat \<times> nat" where
  "cursors j = (head_seq (j_state j), tail_seq (j_state j), head_block (j_state j),
     tail_block (j_state j), ring_size j)"

section \<open>The checkpoint tracker\<close>

definition enrolled_seq :: "Journal \<Rightarrow> key \<Rightarrow> nat option" where
  "enrolled_seq j k = bt_get (checkpoint_tracker j) k"

definition note_checkpointed :: "key \<Rightarrow> nat \<Rightarrow> Journal \<Rightarrow> Journal" where
  "note_checkpointed k expected j =
     (if bt_get (checkpoint_tracker j) k = Some expected
      then j\<lparr>checkpoint_tracker := bt_remove k (checkpoint_tracker j)\<rparr> else j)"

text \<open>\<open>is_dirty\<close> is the block cache's answer for a key.\<close>

definition prune_checkpointed :: "(key \<Rightarrow> bool) \<Rightarrow> Journal \<Rightarrow> Journal" where
  "prune_checkpointed is_dirty j =
     (let at_home = filter (\<lambda>k. \<not> is_dirty k) (bt_keys (checkpoint_tracker j))
      in j\<lparr>checkpoint_tracker := bt_remove_all at_home (checkpoint_tracker j)\<rparr>)"

section \<open>Sealing\<close>

definition max_tx_blocks :: "Journal \<Rightarrow> nat" where
  "max_tx_blocks j = (j_block_count j - 1) div 4"

definition seal_active :: "Journal \<Rightarrow> bool \<times> Journal" where
  "seal_active j =
     (let s = j_state j in
      if tx_is_empty (active s) then (False, j)
      else let next_seq = head_seq s + 1;
               (next_tid, j') = next_tx_id j
           in (True, j'\<lparr>j_state := s\<lparr>active := tx_new next_seq next_tid,
                  sealed := sealed s @ [active s], head_seq := next_seq\<rparr>\<rparr>))"

definition seal_if_full :: "Journal \<Rightarrow> bool \<times> Journal" where
  "seal_if_full j =
     (if length (enrolled_blocks (active (j_state j))) < max_tx_blocks j then (False, j)
      else seal_active j)"

section \<open>The transaction handle\<close>

record TxHandle =
  staged_blocks :: "(key, page_ref) btree"
  staged_revokes :: "key btset"
  aborted :: bool

definition begin_tx :: TxHandle where
  "begin_tx = \<lparr>staged_blocks = [], staged_revokes = [], aborted = False\<rparr>"

definition enroll_block :: "key \<Rightarrow> page_ref \<Rightarrow> TxHandle \<Rightarrow> TxHandle" where
  "enroll_block k page h = h\<lparr>staged_blocks := bt_insert k page (staged_blocks h)\<rparr>"

definition enroll_revoke :: "key \<Rightarrow> TxHandle \<Rightarrow> TxHandle" where
  "enroll_revoke k h = h\<lparr>staged_revokes := bt_insert k () (staged_revokes h)\<rparr>"

definition tx_abort :: "TxHandle \<Rightarrow> TxHandle" where
  "tx_abort h = h\<lparr>aborted := True\<rparr>"

definition merge_staged :: "TxHandle \<Rightarrow> Transaction \<Rightarrow> Transaction" where
  "merge_staged h tx = tx\<lparr>
     enrolled_blocks := bt_insert_all (staged_blocks h) (enrolled_blocks tx),
     tx_revokes := bt_insert_all (staged_revokes h) (tx_revokes tx)\<rparr>"

text \<open>\<open>Drop\<close> of the handle: merge, track the dirty pages, seal when the transaction is full.
  \<open>page_dirty\<close> is the dirty flag of a page.\<close>

definition tx_drop :: "(page_ref \<Rightarrow> bool) \<Rightarrow> TxHandle \<Rightarrow> Journal \<Rightarrow> Journal" where
  "tx_drop page_dirty h j =
     (if aborted h then j
      else if staged_blocks h = [] \<and> staged_revokes h = [] then j
      else
        let s = j_state j;
            active_seq = tx_seq (active s);
            j1 = j\<lparr>j_state := s\<lparr>active := merge_staged h (active s)\<rparr>\<rparr>;
            dirty = filter (\<lambda>(k, page). page_dirty page) (staged_blocks h);
            j2 = j1\<lparr>checkpoint_tracker :=
                   bt_insert_all (map (\<lambda>(k, page). (k, active_seq)) dirty) (checkpoint_tracker j1)\<rparr>
        in snd (seal_if_full j2))"

section \<open>Advancing the tail\<close>

definition min_journaled_seq :: "Journal \<Rightarrow> nat" where
  "min_journaled_seq j =
     (case map snd (checkpoint_tracker j) of
        [] \<Rightarrow> j_committed_seq_pub j + 1
      | v # vs \<Rightarrow> foldl min v vs)"

fun retire_pending :: "nat \<Rightarrow> (nat \<times> nat) list \<Rightarrow> JournalState \<Rightarrow> bool \<Rightarrow> JournalState \<times> bool" where
  "retire_pending bound [] s changed = (s\<lparr>committed_pending := []\<rparr>, changed)"
| "retire_pending bound ((seq, blocks) # rest) s changed =
     (if seq \<ge> bound then (s\<lparr>committed_pending := (seq, blocks) # rest\<rparr>, changed)
      else retire_pending bound rest
             (s\<lparr>tail_block := tail_block s + blocks, tail_seq := seq + 1\<rparr>) True)"

definition catch_up_tail :: "JournalState \<times> bool \<Rightarrow> JournalState \<times> bool" where
  "catch_up_tail sc = (case sc of (s, changed) \<Rightarrow>
     if committed_pending s = [] \<and> sealed s = [] \<and> tail_seq s < head_seq s
     then (s\<lparr>tail_seq := head_seq s, tail_block := head_block s\<rparr>, True) else (s, changed))"

text \<open>The critical section of \<open>advance_tail\<close>; the flag says that the journal superblock has
  to be written.\<close>

definition advance_cursors :: "Journal \<Rightarrow> bool \<times> Journal" where
  "advance_cursors j =
     (let s = j_state j;
          (s', changed) =
            catch_up_tail (retire_pending (min_journaled_seq j) (committed_pending s) s False)
      in (changed, j\<lparr>j_state := s'\<rparr>))"

end
