(* ===== verification/Block_Device.thy ===== *)
theory Block_Device
  imports Edos_Prelude
begin

text \<open>
  The block device under the journal, as \<open>drivers/block_io.rs\<close> presents it: sectors of 512
  bytes, writes that complete into a volatile write cache, writes with Force Unit Access
  that reach the platter, and a cache flush.  What the hardware answers is the parameter
  \<open>beh\<close>: for the command with a given number, an error at submission or at the wait, or
  success; whether a command that reported an error at the wait took effect nevertheless,
  as one does that a controller reset abandoned; and how many attempts the retry window of
  the block layer leaves room for.  Commands take effect in the order of their submission
  and a command with Force Unit Access takes effect as a whole.

  \<open>crashed bd p\<close> says that the sectors \<open>p\<close> are a possible content of the platter after a
  power cut: every sector is what the platter held or some cached write of it, with no
  order among cached writes.
\<close>

section \<open>Sectors\<close>

type_synonym sectors = "nat \<Rightarrow> bytes"

definition sector_writes :: "nat \<Rightarrow> bytes \<Rightarrow> (nat \<times> bytes) list" where
  "sector_writes lba data =
     map (\<lambda>i. (lba + i, slice_at (512 * i) 512 data)) [0..<length data div 512]"

definition apply_sectors :: "(nat \<times> bytes) list \<Rightarrow> sectors \<Rightarrow> sectors" where
  "apply_sectors ws d s = (case map_of (rev ws) s of None \<Rightarrow> d s | Some x \<Rightarrow> x)"

definition get_sectors :: "nat \<Rightarrow> nat \<Rightarrow> sectors \<Rightarrow> bytes" where
  "get_sectors lba n d = concat (map d [lba..<lba + n])"

section \<open>The device\<close>

datatype BlockError = Io | Timeout | Cancelled | InvalidArg | DeviceGone | NoMemory

text \<open>The errors of the filesystem layer, one of which carries an error of the block layer.\<close>

datatype Error =
    FileNotFound | NotAFile | NotADir | IoError | MissingCriticalSectors | Block BlockError
  | InvalidFs | Corrupted | Unsupported | Busy | InvalidArgument | TooManyLinks | LinkEscape
  | AlreadyExists | NoSpace | NoMem | NotEmpty | BadAddress | ProtocolMismatch

datatype WriteFlags = NONE | FUA

record dev_behaviour =
  submit_err :: "nat \<Rightarrow> BlockError option"
  wait_err :: "nat \<Rightarrow> BlockError option"
  landed :: "nat \<Rightarrow> bool"
  retry_window :: "nat \<Rightarrow> nat"

record blockdev =
  bd_platter :: sectors
  bd_cache :: "(nat \<times> bytes) list"
  bd_cmds :: nat

definition bd_view :: "blockdev \<Rightarrow> sectors" where
  "bd_view bd = apply_sectors (bd_cache bd) (bd_platter bd)"

definition apply_write :: "WriteFlags \<Rightarrow> nat \<Rightarrow> bytes \<Rightarrow> blockdev \<Rightarrow> blockdev" where
  "apply_write flags lba data bd = (case flags of
       NONE \<Rightarrow> bd\<lparr>bd_cache := bd_cache bd @ sector_writes lba data\<rparr>
     | FUA \<Rightarrow> bd\<lparr>bd_platter := apply_sectors (sector_writes lba data) (bd_platter bd),
                bd_cache := filter (\<lambda>(s, _). s \<notin> fst ` set (sector_writes lba data)) (bd_cache bd)\<rparr>)"

definition apply_flush :: "blockdev \<Rightarrow> blockdev" where
  "apply_flush bd = bd\<lparr>bd_platter := bd_view bd, bd_cache := []\<rparr>"

definition next_cmd :: "blockdev \<Rightarrow> blockdev" where
  "next_cmd bd = bd\<lparr>bd_cmds := bd_cmds bd + 1\<rparr>"

text \<open>Submit a command with the effect \<open>act\<close>: an error at submission, or the outcome that
  waiting for its handle will report.\<close>

definition issue :: "dev_behaviour \<Rightarrow> (blockdev \<Rightarrow> blockdev) \<Rightarrow> blockdev
    \<Rightarrow> (BlockError + BlockError option) \<times> blockdev" where
  "issue beh act bd =
     (let k = bd_cmds bd in
      case submit_err beh k of
        Some e \<Rightarrow> (Inl e, next_cmd bd)
      | None \<Rightarrow> (Inr (wait_err beh k),
                 next_cmd (if wait_err beh k = None \<or> landed beh k then act bd else bd)))"

definition worth_retrying :: "BlockError \<Rightarrow> bool" where
  "worth_retrying e \<longleftrightarrow> e = Io \<or> e = Timeout"

definition attempt :: "dev_behaviour \<Rightarrow> (blockdev \<Rightarrow> blockdev) \<Rightarrow> blockdev
    \<Rightarrow> BlockError option \<times> blockdev" where
  "attempt beh act bd = (case issue beh act bd of
       (Inl e, bd') \<Rightarrow> (Some e, bd') | (Inr outcome, bd') \<Rightarrow> (outcome, bd'))"

text \<open>The loop of the blocking helpers, with the number of attempts the retry window leaves.\<close>

fun retry_loop :: "dev_behaviour \<Rightarrow> nat \<Rightarrow> (blockdev \<Rightarrow> blockdev) \<Rightarrow> blockdev
    \<Rightarrow> (BlockError + unit) \<times> blockdev" where
  "retry_loop beh 0 act bd = (case attempt beh act bd of
       (None, bd') \<Rightarrow> (Inr (), bd') | (Some e, bd') \<Rightarrow> (Inl e, bd'))"
| "retry_loop beh (Suc n) act bd = (case attempt beh act bd of
       (None, bd') \<Rightarrow> (Inr (), bd')
     | (Some e, bd') \<Rightarrow> if worth_retrying e then retry_loop beh n act bd' else (Inl e, bd'))"

definition write_blocking ::
  "dev_behaviour \<Rightarrow> nat \<Rightarrow> bytes \<Rightarrow> WriteFlags \<Rightarrow> blockdev \<Rightarrow> (BlockError + unit) \<times> blockdev" where
  "write_blocking beh lba buf flags bd =
     retry_loop beh (retry_window beh (bd_cmds bd)) (apply_write flags lba buf) bd"

definition flush_blocking :: "dev_behaviour \<Rightarrow> blockdev \<Rightarrow> (BlockError + unit) \<times> blockdev" where
  "flush_blocking beh bd = retry_loop beh (retry_window beh (bd_cmds bd)) apply_flush bd"

definition read_blocking :: "dev_behaviour \<Rightarrow> nat \<Rightarrow> nat \<Rightarrow> blockdev
    \<Rightarrow> (BlockError + bytes) \<times> blockdev" where
  "read_blocking beh lba count bd =
     (case retry_loop beh (retry_window beh (bd_cmds bd)) id bd of
        (Inl e, bd') \<Rightarrow> (Inl e, bd')
      | (Inr _, bd') \<Rightarrow> (Inr (get_sectors lba count (bd_view bd')), bd'))"

text \<open>A write that has been submitted and not waited for, with what it takes to issue it again:
  \<open>RingCommand\<close> of the journal and \<open>InflightReplay\<close> of the replay.\<close>

record InflightWrite =
  iw_lba :: nat
  iw_data :: bytes
  iw_outcome :: "BlockError option"

fun reap_loop :: "dev_behaviour \<Rightarrow> nat \<Rightarrow> InflightWrite \<Rightarrow> blockdev
    \<Rightarrow> (BlockError + unit) \<times> blockdev" where
  "reap_loop beh 0 c bd = (case iw_outcome c of None \<Rightarrow> (Inr (), bd) | Some e \<Rightarrow> (Inl e, bd))"
| "reap_loop beh (Suc n) c bd = (case iw_outcome c of
       None \<Rightarrow> (Inr (), bd)
     | Some e \<Rightarrow>
         if worth_retrying e
         then (case issue beh (apply_write NONE (iw_lba c) (iw_data c)) bd of
                 (Inl e', bd') \<Rightarrow> (Inl e', bd')
               | (Inr outcome, bd') \<Rightarrow> reap_loop beh n (c\<lparr>iw_outcome := outcome\<rparr>) bd')
         else (Inl e, bd))"

definition reap_write :: "dev_behaviour \<Rightarrow> InflightWrite \<Rightarrow> blockdev
    \<Rightarrow> (BlockError + unit) \<times> blockdev" where
  "reap_write beh c bd = reap_loop beh (retry_window beh (bd_cmds bd)) c bd"

definition crashed :: "blockdev \<Rightarrow> sectors \<Rightarrow> bool" where
  "crashed bd p \<longleftrightarrow> (\<forall>s. p s = bd_platter bd s \<or> (s, p s) \<in> set (bd_cache bd))"

section \<open>Commands that may be repeated\<close>

text \<open>A re-issued command may have taken effect before.  What the blocking helpers rely on
  is that the effect does not depend on the command number and that repeating it changes
  nothing.\<close>

locale repeatable =
  fixes act :: "blockdev \<Rightarrow> blockdev"
  assumes act_cmds: "act (bd\<lparr>bd_cmds := k\<rparr>) = (act bd)\<lparr>bd_cmds := k\<rparr>"
    and act_again: "act (act bd) = act bd"
begin

lemma attempt_effect:
  assumes "attempt beh act bd = (e, bd')"
  shows "(e \<noteq> None \<and> bd' = next_cmd bd) \<or> bd' = next_cmd (act bd)"
proof (cases "submit_err beh (bd_cmds bd)")
  case None
  then show ?thesis using assms by (auto simp: attempt_def issue_def Let_def split: if_splits)
next
  case (Some x)
  then have "attempt beh act bd = (Some x, next_cmd bd)" by (simp add: attempt_def issue_def)
  with assms show ?thesis by auto
qed

lemma retry_effect:
  "retry_loop beh n act bd = (r, bd') \<Longrightarrow>
     \<exists>k. (bd' = bd\<lparr>bd_cmds := k\<rparr> \<and> r \<noteq> Inr ()) \<or> bd' = (act bd)\<lparr>bd_cmds := k\<rparr>"
proof (induction n arbitrary: bd)
  case 0
  then show ?case
    using attempt_effect [of beh bd]
    by (auto simp: next_cmd_def split: prod.splits option.splits)
next
  case (Suc n)
  obtain e bd1 where a: "attempt beh act bd = (e, bd1)" by fastforce
  from attempt_effect [OF a] obtain k where bd1: "(e \<noteq> None \<and> bd1 = bd\<lparr>bd_cmds := k\<rparr>) \<or>
      bd1 = (act bd)\<lparr>bd_cmds := k\<rparr>"
    by (auto simp: next_cmd_def)
  show ?case
  proof (cases "\<exists>x. e = Some x \<and> worth_retrying x")
    case True
    then have "retry_loop beh n act bd1 = (r, bd')" using Suc.prems a by auto
    from Suc.IH [OF this] bd1 show ?thesis by (auto simp: act_cmds act_again)
  next
    case False
    then show ?thesis using Suc.prems a bd1 by (auto split: option.splits)
  qed
qed

end

section \<open>Sector arithmetic\<close>

lemma map_of_sector_writes:
  "map_of (sector_writes lba data) s =
     (if lba \<le> s \<and> s < lba + length data div 512 then Some (slice_at (512 * (s - lba)) 512 data)
      else None)"
proof -
  have "map_of (map (\<lambda>i. (lba + i, f i)) [0..<n]) s =
      (if lba \<le> s \<and> s < lba + n then Some (f (s - lba)) else None)" for f :: "nat \<Rightarrow> bytes" and n
    by (induction n) (auto simp: map_add_def less_Suc_eq split: option.splits)
  then show ?thesis by (simp add: sector_writes_def)
qed

lemma distinct_sector_writes: "distinct (map fst (sector_writes lba data))"
  by (simp add: sector_writes_def comp_def distinct_map)

lemma map_of_rev_sector_writes:
  "map_of (rev (sector_writes lba data)) = map_of (sector_writes lba data)"
  using distinct_sector_writes [of lba data]
  by (subst map_of_inject_set) (simp_all add: rev_map [symmetric])

lemma fst_sector_writes:
  "fst ` set (sector_writes lba data) = {lba..<lba + length data div 512}"
  by (simp add: sector_writes_def image_image add.commute)

lemma apply_sectors_Nil [simp]: "apply_sectors [] d = d"
  by (simp add: apply_sectors_def fun_eq_iff)

lemma apply_sectors_append:
  "apply_sectors (xs @ ys) d = apply_sectors ys (apply_sectors xs d)"
  by (auto simp: apply_sectors_def map_add_def fun_eq_iff split: option.splits)

lemma apply_sector_writes:
  "apply_sectors (sector_writes lba data) d s =
     (if lba \<le> s \<and> s < lba + length data div 512 then slice_at (512 * (s - lba)) 512 data else d s)"
  by (simp add: apply_sectors_def map_of_rev_sector_writes map_of_sector_writes)

lemma concat_slices:
  "concat (map (\<lambda>i. slice_at (k * i) k data) [0..<n]) = take (k * n) data"
proof (induction n)
  case 0
  then show ?case by simp
next
  case (Suc n)
  then show ?case by (simp add: slice_at_def take_add [symmetric] add.commute)
qed

lemma get_sectors_cong:
  "(\<And>s. lba \<le> s \<Longrightarrow> s < lba + n \<Longrightarrow> d s = d' s) \<Longrightarrow> get_sectors lba n d = get_sectors lba n d'"
  unfolding get_sectors_def by (rule arg_cong [of _ _ concat], rule map_cong) auto

lemma get_sectors_shift: "get_sectors lba n d = concat (map (\<lambda>i. d (lba + i)) [0..<n])"
  unfolding get_sectors_def by (induction n) simp_all

lemma get_sectors_part:
  assumes "i + n \<le> length data div 512"
  shows "get_sectors (lba + i) n (apply_sectors (sector_writes lba data) d)
    = slice_at (512 * i) (512 * n) data"
proof -
  have "get_sectors (lba + i) n (apply_sectors (sector_writes lba data) d)
    = concat (map (\<lambda>j. slice_at (512 * j) 512 (drop (512 * i) data)) [0..<n])"
    unfolding get_sectors_shift
    by (rule arg_cong [of _ _ concat], rule map_cong)
      (use assms in \<open>auto simp: apply_sector_writes slice_at_def algebra_simps\<close>)
  then show ?thesis by (simp add: concat_slices) (simp add: slice_at_def)
qed

lemma get_sectors_same:
  assumes "length data = 512 * n"
  shows "get_sectors lba n (apply_sectors (sector_writes lba data) d) = data"
  using get_sectors_part [of 0 n data lba d] assms by (simp add: slice_at_def)

lemma get_sectors_disjoint:
  assumes "a + n \<le> lba \<or> lba + length data div 512 \<le> a"
  shows "get_sectors a n (apply_sectors (sector_writes lba data) d) = get_sectors a n d"
  by (rule get_sectors_cong) (use assms in \<open>auto simp: apply_sector_writes\<close>)

lemma flush_again: "apply_flush (apply_flush bd) = apply_flush bd"
  by (simp add: apply_flush_def bd_view_def)

interpretation flush: repeatable apply_flush
  by unfold_locales (simp_all add: flush_again, simp add: apply_flush_def bd_view_def)

interpretation fua: repeatable "apply_write FUA lba data" for lba data
proof
  fix bd k
  show "apply_write FUA lba data (bd\<lparr>bd_cmds := k\<rparr>) = (apply_write FUA lba data bd)\<lparr>bd_cmds := k\<rparr>"
    by (simp add: apply_write_def)
  have "apply_sectors (sector_writes lba data) (apply_sectors (sector_writes lba data) d) =
      apply_sectors (sector_writes lba data) d" for d
    by (simp add: fun_eq_iff apply_sector_writes)
  then show "apply_write FUA lba data (apply_write FUA lba data bd) = apply_write FUA lba data bd"
    by (simp add: apply_write_def)
qed

section \<open>Blocks of eight sectors\<close>

definition get_block :: "nat \<Rightarrow> sectors \<Rightarrow> bytes" where
  "get_block b d = get_sectors (b * 8) 8 d"

definition put_block :: "nat \<Rightarrow> bytes \<Rightarrow> sectors \<Rightarrow> sectors" where
  "put_block b data d = apply_sectors (sector_writes (b * 8) data) d"

text \<open>What a store of blocks promises to its clients, and what a list of block writes
  then leaves behind.\<close>

locale block_store =
  fixes get :: "nat \<Rightarrow> 'd \<Rightarrow> bytes"
    and put :: "nat \<Rightarrow> bytes \<Rightarrow> 'd \<Rightarrow> 'd"
  assumes get_put_same: "length x = 4096 \<Longrightarrow> get b (put b x d) = x"
    and get_put_other: "length x = 4096 \<Longrightarrow> b \<noteq> c \<Longrightarrow> get b (put c x d) = get b d"
begin

definition put_all :: "(nat \<times> bytes) list \<Rightarrow> 'd \<Rightarrow> 'd" where
  "put_all ws d = foldl (\<lambda>d (b, x). put b x d) d ws"

lemma get_put_all:
  "\<forall>w \<in> set ws. length (snd w) = 4096 \<Longrightarrow>
   get b (put_all ws d) = (case map_of (rev ws) b of None \<Rightarrow> get b d | Some x \<Rightarrow> x)"
  unfolding put_all_def
  by (induction ws arbitrary: d)
    (auto simp: get_put_same get_put_other map_add_def split: option.splits)

lemma get_put_all_unwritten:
  "\<forall>w \<in> set ws. length (snd w) = 4096 \<Longrightarrow> b \<notin> fst ` set ws \<Longrightarrow> get b (put_all ws d) = get b d"
  by (simp add: get_put_all map_of_eq_None_iff [THEN iffD2])

end

interpretation home: block_store get_block put_block
proof
  fix x :: bytes and b c :: nat and d :: sectors
  assume len: "length x = 4096"
  show "get_block b (put_block b x d) = x"
    unfolding get_block_def put_block_def by (rule get_sectors_same) (simp add: len)
  assume "b \<noteq> c"
  then show "get_block b (put_block c x d) = get_block b d"
    unfolding get_block_def put_block_def
    by (intro get_sectors_disjoint) (use len in auto)
qed

section \<open>Crashes\<close>

lemma crashed_flush [simp]: "crashed (apply_flush bd) p \<longleftrightarrow> p = bd_view bd"
  by (auto simp: crashed_def apply_flush_def)

lemma crashed_next_cmd [simp]: "crashed (next_cmd bd) p \<longleftrightarrow> crashed bd p"
  by (simp add: crashed_def next_cmd_def)

lemma crashed_untouched:
  assumes "crashed bd p" "s \<notin> fst ` set (bd_cache bd)"
  shows "p s = bd_platter bd s"
  using assms by (force simp: crashed_def)

lemma bd_view_next_cmd [simp]: "bd_view (next_cmd bd) = bd_view bd"
  by (simp add: bd_view_def next_cmd_def)

lemma bd_view_write:
  "bd_view (apply_write flags lba data bd) = apply_sectors (sector_writes lba data) (bd_view bd)"
proof (cases flags)
  case NONE
  then show ?thesis by (simp add: bd_view_def apply_write_def apply_sectors_append)
next
  case FUA
  have filt: "map_of (filter (\<lambda>(s, _). P s) xs) s = (if P s then map_of xs s else None)"
    for P and xs :: "(nat \<times> bytes) list" and s
    by (induction xs) auto
  show ?thesis
    using FUA
    by (auto simp: fun_eq_iff bd_view_def apply_write_def apply_sectors_def rev_filter
        filt fst_sector_writes map_of_rev_sector_writes map_of_sector_writes
        split: option.splits)
qed

end
