(* ===== verification/Journal_Ring_Io.thy ===== *)
theory Journal_Ring_Io
  imports Journal_State Block_Device
begin

text \<open>
  Ring I/O of the kernel journal: the queue of outstanding ring commands (\<open>RingWrites\<close>), the
  submission of one block and of a run of blocks, and the journal superblock write.  The
  queue keeps what a command reported until it is reaped, and reaping re-issues a command
  that a controller reset abandoned.

  The main invariant is \<open>queue_inv\<close>: whatever the device answers, the write cache has gained
  only sectors that were submitted, and as long as no failure is recorded every one of
  them is there or belongs to a command that still has to be reaped.
\<close>

section \<open>The command queue\<close>

record RingWrites =
  rw_inflight :: "InflightWrite list"
  rw_failure :: "BlockError option"
  rw_commands :: nat

definition MAX_INFLIGHT :: nat where "MAX_INFLIGHT = 16"

definition rw_new :: RingWrites where
  "rw_new = \<lparr>rw_inflight = [], rw_failure = None, rw_commands = 0\<rparr>"

definition get_or_insert :: "'e option \<Rightarrow> 'e option \<Rightarrow> 'e option" where
  "get_or_insert failure outcome = (case failure of Some e \<Rightarrow> Some e | None \<Rightarrow> outcome)"

text \<open>Wait for the oldest command while at least \<open>bound\<close> are outstanding.\<close>

fun reap_while :: "dev_behaviour \<Rightarrow> nat \<Rightarrow> InflightWrite list \<Rightarrow> BlockError option \<Rightarrow> blockdev
    \<Rightarrow> InflightWrite list \<times> BlockError option \<times> blockdev" where
  "reap_while beh bound [] failure bd = ([], failure, bd)"
| "reap_while beh bound (c # cs) failure bd =
     (if length (c # cs) \<ge> bound
      then case reap_write beh c bd of
             (Inr _, bd') \<Rightarrow> reap_while beh bound cs failure bd'
           | (Inl e, bd') \<Rightarrow> reap_while beh bound cs (get_or_insert failure (Some e)) bd'
      else (c # cs, failure, bd))"

definition rw_submit :: "dev_behaviour \<Rightarrow> nat \<Rightarrow> bytes \<Rightarrow> RingWrites \<Rightarrow> blockdev
    \<Rightarrow> bool \<times> RingWrites \<times> blockdev" where
  "rw_submit beh lba data q bd =
     (let (infl, failure, bd1) = reap_while beh MAX_INFLIGHT (rw_inflight q) (rw_failure q) bd
      in case issue beh (apply_write NONE lba data) bd1 of
           (Inr outcome, bd2) \<Rightarrow>
             (failure = None,
              q\<lparr>rw_inflight := infl @ [\<lparr>iw_lba = lba, iw_data = data, iw_outcome = outcome\<rparr>],
                rw_failure := failure, rw_commands := rw_commands q + 1\<rparr>, bd2)
         | (Inl e, bd2) \<Rightarrow>
             (False, q\<lparr>rw_inflight := infl, rw_failure := get_or_insert failure (Some e)\<rparr>, bd2))"

definition rw_drain :: "dev_behaviour \<Rightarrow> RingWrites \<Rightarrow> blockdev
    \<Rightarrow> (BlockError + unit) \<times> RingWrites \<times> blockdev" where
  "rw_drain beh q bd =
     (let (infl, failure, bd') = reap_while beh 0 (rw_inflight q) (rw_failure q) bd
      in (case failure of Some e \<Rightarrow> Inl e | None \<Rightarrow> Inr (),
          q\<lparr>rw_inflight := infl, rw_failure := None\<rparr>, bd'))"

section \<open>Ring blocks\<close>

definition submit_journal_block :: "dev_behaviour \<Rightarrow> Journal \<Rightarrow> nat \<Rightarrow> bytes
    \<Rightarrow> RingWrites \<times> blockdev \<Rightarrow> RingWrites \<times> blockdev" where
  "submit_journal_block beh j idx owner qb =
     snd (rw_submit beh (journal_block_lba j idx) owner (fst qb) (snd qb))"

lemma run_progress:
  assumes "d < t" "0 < r"
  shows "0 < min (min (t - d) (r - x mod r)) MAX_RUN_BLOCKS"
    "t - (d + min (min (t - d) (r - x mod r)) MAX_RUN_BLOCKS) < t - d"
proof -
  have "x mod r < r" using assms(2) by simp
  then show pos: "0 < min (min (t - d) (r - x mod r)) MAX_RUN_BLOCKS"
    using assms by (simp add: MAX_RUN_BLOCKS_def)
  then show "t - (d + min (min (t - d) (r - x mod r)) MAX_RUN_BLOCKS) < t - d"
    using assms(1) by linarith
qed

text \<open>The loop of \<open>submit_journal_blocks\<close>, from \<open>done\<close> blocks on.  The source takes
  \<open>ring_size > 0\<close> for granted: it divides by it.\<close>

function submit_runs :: "dev_behaviour \<Rightarrow> Journal \<Rightarrow> nat \<Rightarrow> bytes \<Rightarrow> nat
    \<Rightarrow> RingWrites \<times> blockdev \<Rightarrow> RingWrites \<times> blockdev" where
  "submit_runs beh j start_idx owner done_blocks qb =
     (let total = length owner div BLOCK_SIZE in
      if done_blocks < total \<and> 0 < ring_size j then
        let idx = (start_idx + done_blocks) mod ring_size j;
            until_wrap = ring_size j - idx;
            run = min (min (total - done_blocks) until_wrap) MAX_RUN_BLOCKS;
            off = done_blocks * BLOCK_SIZE;
            len = run * BLOCK_SIZE;
            (ok, qb') = rw_submit beh (journal_block_lba j idx) (slice_at off len owner)
                          (fst qb) (snd qb)
        in if \<not> ok then qb' else submit_runs beh j start_idx owner (done_blocks + run) qb'
      else qb)"
  by pat_completeness auto
termination
  by (relation "measure (\<lambda>(beh, j, st, ow, dn, qb). length ow div BLOCK_SIZE - dn)")
    (simp, simp only: in_measure prod.case run_progress(2))

declare submit_runs.simps [simp del]

definition submit_journal_blocks :: "dev_behaviour \<Rightarrow> Journal \<Rightarrow> nat \<Rightarrow> bytes
    \<Rightarrow> RingWrites \<times> blockdev \<Rightarrow> (RingWrites \<times> blockdev) run" where
  "submit_journal_blocks beh j start_idx owner qb =
     (if length owner mod BLOCK_SIZE \<noteq> 0 then Panic
      else Ret (submit_runs beh j start_idx owner 0 qb))"

definition write_journal_block_fua :: "dev_behaviour \<Rightarrow> Journal \<Rightarrow> nat \<Rightarrow> bytes \<Rightarrow> blockdev
    \<Rightarrow> (BlockError + unit) \<times> blockdev" where
  "write_journal_block_fua beh j idx data bd =
     write_blocking beh (journal_block_lba j idx) data FUA bd"

definition current_jsb :: "Journal \<Rightarrow> JournalSuperblock" where
  "current_jsb j =
     (let s = j_state j;
          jsb = \<lparr>jsb_magic = JOURNAL_MAGIC, jsb_version = 1,
            jsb_block_count = word_of_nat (j_block_count j),
            jsb_block_size = word_of_nat BLOCK_SIZE,
            jsb_tail_seq = word_of_nat (tail_seq s), jsb_head_seq = word_of_nat (head_seq s),
            jsb_tail_block = word_of_nat (tail_block s),
            jsb_head_block = word_of_nat (head_block s),
            jsb_crc32 = 0, jsb_reserved = replicate 12 0\<rparr>
      in jsb\<lparr>jsb_crc32 := journal_sb_checksum jsb\<rparr>)"

definition jsb_block :: "Journal \<Rightarrow> bytes" where
  "jsb_block j = splice_at 0 (journal_sb_bytes (current_jsb j)) (replicate BLOCK_SIZE 0)"

definition write_journal_sb :: "dev_behaviour \<Rightarrow> Journal \<Rightarrow> blockdev
    \<Rightarrow> (BlockError + unit) \<times> blockdev" where
  "write_journal_sb beh j bd =
     write_blocking beh (j_partition_start_lba j + j_first_block j * SECTORS_PER_BLOCK)
       (jsb_block j) FUA bd"

section \<open>What the queue has written\<close>

lemma apply_write_NONE [simp]:
  "bd_platter (apply_write NONE lba data bd) = bd_platter bd"
  "bd_cache (apply_write NONE lba data bd) = bd_cache bd @ sector_writes lba data"
  "bd_cmds (apply_write NONE lba data bd) = bd_cmds bd"
  by (simp_all add: apply_write_def)

lemma next_cmd_fields [simp]:
  "bd_platter (next_cmd bd) = bd_platter bd" "bd_cache (next_cmd bd) = bd_cache bd"
  by (simp_all add: next_cmd_def)

text \<open>The cache of \<open>bd'\<close> is that of \<open>bd\<close> with some of the sector writes \<open>W\<close> behind it, all of
  them when \<open>all\<close> holds; the platter is the same.\<close>

definition cached :: "(nat \<times> bytes) set \<Rightarrow> bool \<Rightarrow> blockdev \<Rightarrow> blockdev \<Rightarrow> bool" where
  "cached W all bd bd' \<longleftrightarrow> bd_platter bd' = bd_platter bd \<and>
     (\<exists>ws. bd_cache bd' = bd_cache bd @ ws \<and> set ws \<subseteq> W \<and> (all \<longrightarrow> W \<subseteq> set ws))"

lemma cached_refl: "cached W False bd bd"
  by (simp add: cached_def)

lemma cached_trans:
  assumes "cached W a bd bd1" "cached W b bd1 bd2"
  shows "cached W (a \<or> b) bd bd2"
  using assms by (fastforce simp: cached_def)

lemma issue_cached:
  assumes "issue beh (apply_write NONE lba data) bd = (r, bd')"
  shows "cached (set (sector_writes lba data)) (r = Inr None) bd bd'"
  using assms by (auto simp: issue_def Let_def cached_def split: option.splits if_splits)

abbreviation iw_writes :: "InflightWrite \<Rightarrow> (nat \<times> bytes) set" where
  "iw_writes c \<equiv> set (sector_writes (iw_lba c) (iw_data c))"

lemma reap_loop_cached:
  assumes "reap_loop beh n c bd = (r, bd')"
  shows "cached (iw_writes c) (r = Inr () \<and> iw_outcome c \<noteq> None) bd bd'"
  using assms
proof (induction n arbitrary: c bd)
  case 0
  then show ?case by (auto simp: cached_def split: option.splits)
next
  case (Suc n)
  show ?case
  proof (cases "\<exists>e. iw_outcome c = Some e \<and> worth_retrying e")
    case False
    then show ?thesis using Suc.prems by (auto simp: cached_def split: option.splits if_splits)
  next
    case True
    obtain o1 bd1 where i: "issue beh (apply_write NONE (iw_lba c) (iw_data c)) bd = (o1, bd1)"
      by fastforce
    note first = issue_cached [OF i]
    show ?thesis
    proof (cases o1)
      case (Inl e)
      then show ?thesis using Suc.prems True i first by auto
    next
      case (Inr outcome)
      then have "reap_loop beh n (c\<lparr>iw_outcome := outcome\<rparr>) bd1 = (r, bd')"
        using Suc.prems True i by auto
      from cached_trans [OF first Suc.IH [OF this, simplified]] Inr show ?thesis
        by (auto simp: cached_def)
    qed
  qed
qed

lemma reap_write_cached:
  "reap_write beh c bd = (r, bd') \<Longrightarrow> cached (iw_writes c) (r = Inr () \<and> iw_outcome c \<noteq> None) bd bd'"
  unfolding reap_write_def by (rule reap_loop_cached)

text \<open>The sectors of commands that reported an error and have not been reaped yet.\<close>

definition unconfirmed :: "InflightWrite list \<Rightarrow> (nat \<times> bytes) set" where
  "unconfirmed cs = (\<Union>c \<in> {c \<in> set cs. iw_outcome c \<noteq> None}. iw_writes c)"

definition queue_inv :: "blockdev \<Rightarrow> (nat \<times> bytes) set \<Rightarrow> InflightWrite list \<Rightarrow> BlockError option
    \<Rightarrow> blockdev \<Rightarrow> bool" where
  "queue_inv bd0 W cs failure bd \<longleftrightarrow> bd_platter bd = bd_platter bd0 \<and>
     (\<exists>ws. bd_cache bd = bd_cache bd0 @ ws \<and> set ws \<subseteq> W \<and>
        (failure = None \<longrightarrow> W \<subseteq> set ws \<union> unconfirmed cs)) \<and>
     (\<forall>c \<in> set cs. iw_writes c \<subseteq> W)"

lemma queue_inv_new [simp]: "queue_inv bd {} [] None bd"
  by (simp add: queue_inv_def)

lemma queue_inv_more:
  assumes "queue_inv bd0 W cs (Some e) bd" "W \<subseteq> W'"
  shows "queue_inv bd0 W' cs (Some e) bd"
  using assms unfolding queue_inv_def by blast

lemma unconfirmed_simps:
  "unconfirmed [] = {}"
  "unconfirmed (c # cs) = (if iw_outcome c = None then {} else iw_writes c) \<union> unconfirmed cs"
  "unconfirmed (cs @ cs') = unconfirmed cs \<union> unconfirmed cs'"
  by (auto simp: unconfirmed_def)

text \<open>More sectors in the cache, with what they confirm.\<close>

lemma queue_inv_cached:
  assumes "queue_inv bd0 W cs f bd" "cached V all bd bd'" "V \<subseteq> W'" "W \<subseteq> W'"
    "\<forall>c \<in> set cs'. iw_writes c \<subseteq> W'"
    "f' = None \<Longrightarrow> f = None \<and> W' \<subseteq> W \<union> V \<and>
       (unconfirmed cs \<union> V) \<subseteq> (if all then V else {}) \<union> unconfirmed cs'"
  shows "queue_inv bd0 W' cs' f' bd'"
proof -
  obtain ws where ws: "bd_cache bd = bd_cache bd0 @ ws" "set ws \<subseteq> W"
    "f = None \<longrightarrow> W \<subseteq> set ws \<union> unconfirmed cs"
    using assms(1) by (auto simp: queue_inv_def)
  obtain vs where vs: "bd_cache bd' = bd_cache bd @ vs" "set vs \<subseteq> V" "all \<longrightarrow> V \<subseteq> set vs"
    using assms(2) by (auto simp: cached_def)
  have "W' \<subseteq> set (ws @ vs) \<union> unconfirmed cs'" if "f' = None"
  proof -
    have "W' \<subseteq> W \<union> V" "W \<subseteq> set ws \<union> unconfirmed cs"
      "unconfirmed cs \<union> V \<subseteq> (if all then V else {}) \<union> unconfirmed cs'"
      using assms(6) [OF that] ws(3) by auto
    moreover have "(if all then V else {}) \<subseteq> set vs" using vs(3) by auto
    ultimately show ?thesis unfolding set_append by blast
  qed
  moreover have "set (ws @ vs) \<subseteq> W'" using ws(2) vs(2) assms(3,4) by auto
  moreover have "bd_cache bd' = bd_cache bd0 @ (ws @ vs)" using ws(1) vs(1) by simp
  moreover have "bd_platter bd' = bd_platter bd0"
    using assms(1,2) by (simp add: queue_inv_def cached_def)
  ultimately show ?thesis using assms(5) unfolding queue_inv_def by blast
qed

lemma queue_inv_reap:
  assumes "queue_inv bd0 W (c # cs) f bd" "reap_write beh c bd = (r, bd')"
  shows "queue_inv bd0 W cs (case r of Inr _ \<Rightarrow> f | Inl e \<Rightarrow> get_or_insert f (Some e)) bd'"
proof -
  have c: "iw_writes c \<subseteq> W" "\<forall>c \<in> set cs. iw_writes c \<subseteq> W"
    using assms(1) by (auto simp: queue_inv_def)
  show ?thesis
  proof (cases "iw_outcome c")
    case None
    have "cached {} False bd bd'"
      using assms(2) None by (cases "retry_window beh (bd_cmds bd)")
        (auto simp: reap_write_def cached_refl)
    then show ?thesis
      by (rule queue_inv_cached [OF assms(1)])
        (use c None in \<open>auto simp: unconfirmed_simps get_or_insert_def split: sum.splits option.splits\<close>)
  next
    case (Some e)
    show ?thesis
      by (rule queue_inv_cached [OF assms(1) reap_write_cached [OF assms(2)]])
        (use c Some in \<open>auto simp: unconfirmed_simps get_or_insert_def split: sum.splits option.splits\<close>)
  qed
qed

lemma reap_while_inv:
  "queue_inv bd0 W cs f bd \<Longrightarrow> reap_while beh n cs f bd = (cs', f', bd') \<Longrightarrow>
     queue_inv bd0 W cs' f' bd'"
proof (induction beh n cs f bd rule: reap_while.induct)
  case (1 beh bound failure bd)
  then show ?case by simp
next
  case (2 beh bound c cs f bd)
  obtain r bd1 where r: "reap_write beh c bd = (r, bd1)" by fastforce
  from queue_inv_reap [OF "2.prems"(1) r] "2.IH" "2.prems" r show ?case
    by (cases r) (auto split: if_splits)
qed

lemma rw_submit_inv:
  assumes "queue_inv bd0 W (rw_inflight q) (rw_failure q) bd"
    "rw_submit beh lba data q bd = (ok, q', bd')"
  shows "queue_inv bd0 (W \<union> set (sector_writes lba data)) (rw_inflight q') (rw_failure q') bd'"
    "ok \<longleftrightarrow> rw_failure q' = None"
proof -
  obtain cs f bd1 where w: "reap_while beh MAX_INFLIGHT (rw_inflight q) (rw_failure q) bd = (cs, f, bd1)"
    by (metis prod_cases3)
  obtain r bd2 where i: "issue beh (apply_write NONE lba data) bd1 = (r, bd2)" by fastforce
  note inv = reap_while_inv [OF assms(1) w] and new = issue_cached [OF i]
  have q': "(ok, q', bd') = (case r of
      Inr outcome \<Rightarrow> (f = None, q\<lparr>rw_inflight := cs @ [\<lparr>iw_lba = lba, iw_data = data, iw_outcome = outcome\<rparr>],
        rw_failure := f, rw_commands := rw_commands q + 1\<rparr>, bd2)
    | Inl e \<Rightarrow> (False, q\<lparr>rw_inflight := cs, rw_failure := get_or_insert f (Some e)\<rparr>, bd2))"
    unfolding assms(2) [symmetric] rw_submit_def w Let_def prod.case i by (simp split: sum.split)
  show "ok \<longleftrightarrow> rw_failure q' = None"
    using q' by (auto simp: get_or_insert_def split: sum.splits option.splits)
  show "queue_inv bd0 (W \<union> set (sector_writes lba data)) (rw_inflight q') (rw_failure q') bd'"
  proof (cases r)
    case (Inl e)
    have "\<forall>c \<in> set cs. iw_writes c \<subseteq> W \<union> set (sector_writes lba data)"
      using inv by (auto simp: queue_inv_def)
    then have "queue_inv bd0 (W \<union> set (sector_writes lba data)) cs (get_or_insert f (Some e)) bd2"
      by (intro queue_inv_cached [OF inv new])
        (auto simp: get_or_insert_def split: option.splits)
    with q' Inl show ?thesis by simp
  next
    case (Inr outcome)
    let ?c = "\<lparr>iw_lba = lba, iw_data = data, iw_outcome = outcome\<rparr>"
    have "\<forall>c \<in> set (cs @ [?c]). iw_writes c \<subseteq> W \<union> set (sector_writes lba data)"
      using inv by (auto simp: queue_inv_def)
    then have "queue_inv bd0 (W \<union> set (sector_writes lba data)) (cs @ [?c]) f bd2"
      by (intro queue_inv_cached [OF inv new]) (use Inr in \<open>auto simp: unconfirmed_simps\<close>)
    with q' Inr show ?thesis by simp
  qed
qed

lemma reap_while_0: "fst (reap_while beh 0 cs f bd) = []"
  by (induction cs arbitrary: f bd) (simp_all split: prod.split sum.split)

lemma rw_drain_cached:
  assumes "queue_inv bd0 W (rw_inflight q) (rw_failure q) bd" "rw_drain beh q bd = (r, q', bd')"
  shows "cached W (r = Inr ()) bd0 bd'"
proof -
  obtain cs f bd1 where w: "reap_while beh 0 (rw_inflight q) (rw_failure q) bd = (cs, f, bd1)"
    by (metis prod_cases3)
  have "cs = []" using reap_while_0 [of beh "rw_inflight q" "rw_failure q" bd] w by simp
  with reap_while_inv [OF assms(1) w] assms(2) w show ?thesis
    by (auto simp: rw_drain_def queue_inv_def cached_def unconfirmed_def split: option.splits)
qed

section \<open>Runs of blocks\<close>

lemma sector_writes_append:
  assumes "length xs = 512 * a"
  shows "sector_writes lba (xs @ ys) = sector_writes lba xs @ sector_writes (lba + a) ys"
proof -
  let ?b = "length ys div 512"
  have n: "length (xs @ ys) div 512 = a + ?b" using assms by simp
  have "map (\<lambda>i. (lba + i, slice_at (512 * i) 512 (xs @ ys))) [0..<a]
    = map (\<lambda>i. (lba + i, slice_at (512 * i) 512 xs)) [0..<a]"
    using assms by (auto intro!: slice_append_le)
  moreover have "map (\<lambda>i. (lba + i, slice_at (512 * i) 512 (xs @ ys))) [a..<a + ?b]
    = map (\<lambda>i. (lba + a + i, slice_at (512 * i) 512 ys)) [0..<?b]"
    using assms
    by (intro nth_equalityI) (auto simp: slice_append_ge algebra_simps)
  ultimately show ?thesis
    unfolding sector_writes_def n upt_add_eq_append [OF le0] map_append
    using assms by simp
qed

lemma sector_writes_blocks:
  "length data = n * 4096 \<Longrightarrow> sector_writes lba data =
     concat (map (\<lambda>i. sector_writes (lba + 8 * i) (slice_at (4096 * i) 4096 data)) [0..<n])"
proof (induction n arbitrary: data)
  case 0
  then show ?case by (simp add: sector_writes_def)
next
  case (Suc n)
  let ?xs = "take (n * 4096) data" and ?ys = "drop (n * 4096) data"
  have len: "length ?xs = n * 4096" "length ?xs = 512 * (8 * n)" using Suc.prems by simp_all
  have "sector_writes lba data = sector_writes lba (?xs @ ?ys)" by simp
  also have "\<dots> = sector_writes lba ?xs @ sector_writes (lba + 8 * n) ?ys"
    by (rule sector_writes_append [OF len(2)])
  also have "sector_writes lba ?xs = concat (map (\<lambda>i. sector_writes (lba + 8 * i)
      (slice_at (4096 * i) 4096 data)) [0..<n])"
    unfolding Suc.IH [OF len(1)]
    by (rule arg_cong [of _ _ concat], rule map_cong)
      (auto simp: slice_at_def drop_take min_def)
  also have "?ys = slice_at (4096 * n) 4096 data"
    using Suc.prems by (simp add: slice_at_def mult.commute)
  finally show ?case by simp
qed

lemma mod_add_no_wrap: "x mod r + i < r \<Longrightarrow> (x + i) mod r = x mod (r :: nat) + i"
  by (metis mod_add_left_eq mod_less)

lemma journal_block_lba_mod [simp]:
  "journal_block_lba j (idx mod ring_size j) = journal_block_lba j idx"
  by (simp add: journal_block_lba_def)

lemma journal_block_lba_run:
  assumes "(st + d) mod ring_size j + i < ring_size j"
  shows "journal_block_lba j (st + d) + 8 * i = journal_block_lba j (st + (d + i))"
proof -
  have "(st + (d + i)) mod ring_size j = (st + d) mod ring_size j + i"
    unfolding add.assoc [symmetric] by (rule mod_add_no_wrap [OF assms])
  then show ?thesis
    by (simp only: journal_block_lba_def SECTORS_PER_BLOCK_def Let_def) (simp only: algebra_simps)
qed

text \<open>The writes of the ring blocks \<open>a\<close> to \<open>b\<close> of the buffer, one block at a time.\<close>

definition block_writes :: "Journal \<Rightarrow> nat \<Rightarrow> bytes \<Rightarrow> nat \<Rightarrow> nat \<Rightarrow> (nat \<times> bytes) list" where
  "block_writes j st owner a b =
     concat (map (\<lambda>i. sector_writes (journal_block_lba j (st + i))
       (slice_at (BLOCK_SIZE * i) BLOCK_SIZE owner)) [a..<b])"

lemma block_writes_split:
  "a \<le> b \<Longrightarrow> b \<le> c \<Longrightarrow>
     block_writes j st owner a b @ block_writes j st owner b c = block_writes j st owner a c"
  using upt_add_eq_append [of a b "c - b"] by (simp add: block_writes_def)

lemma run_writes:
  assumes "d + n \<le> length owner div BLOCK_SIZE" "(st + d) mod ring_size j + n \<le> ring_size j"
  shows "sector_writes (journal_block_lba j (st + d))
      (slice_at (d * BLOCK_SIZE) (n * BLOCK_SIZE) owner) = block_writes j st owner d (d + n)"
proof -
  let ?data = "slice_at (d * BLOCK_SIZE) (n * BLOCK_SIZE) owner"
  have "(d + n) * BLOCK_SIZE \<le> length owner"
    using assms(1) by (metis div_times_less_eq_dividend mult_le_mono1 order_trans)
  then have "length ?data = n * 4096"
    by (simp add: BLOCK_SIZE_def)
  then have "sector_writes (journal_block_lba j (st + d)) ?data =
    concat (map (\<lambda>i. sector_writes (journal_block_lba j (st + d) + 8 * i)
      (slice_at (4096 * i) 4096 ?data)) [0..<n])"
    by (rule sector_writes_blocks)
  also have "\<dots> = concat (map (\<lambda>i. sector_writes (journal_block_lba j (st + (d + i)))
      (slice_at (BLOCK_SIZE * (d + i)) BLOCK_SIZE owner)) [0..<n])"
  proof (rule arg_cong [of _ _ concat], rule map_cong [OF refl])
    fix i assume "i \<in> set [0..<n]"
    then have i: "i < n" by simp
    then have "slice_at (4096 * i) 4096 ?data = slice_at (BLOCK_SIZE * (d + i)) BLOCK_SIZE owner"
      by (subst slice_slice) (auto simp: BLOCK_SIZE_def algebra_simps)
    with i assms(2) show "sector_writes (journal_block_lba j (st + d) + 8 * i)
        (slice_at (4096 * i) 4096 ?data) = sector_writes (journal_block_lba j (st + (d + i)))
        (slice_at (BLOCK_SIZE * (d + i)) BLOCK_SIZE owner)"
      by (subst journal_block_lba_run) simp_all
  qed
  also have "\<dots> = block_writes j st owner d (d + n)"
    unfolding block_writes_def
    by (rule arg_cong [of _ _ concat], rule nth_equalityI) auto
  finally show ?thesis .
qed

lemma run_bounds:
  assumes "d < t" "0 < r"
  shows "d + min (min (t - d) (r - x mod r)) MAX_RUN_BLOCKS \<le> t"
    "x mod r + min (min (t - d) (r - x mod r)) MAX_RUN_BLOCKS \<le> r"
    "0 < min (min (t - d) (r - x mod r)) MAX_RUN_BLOCKS"
proof -
  define run where "run = min (min (t - d) (r - x mod r)) MAX_RUN_BLOCKS"
  have "run \<le> t - d" "run \<le> r - x mod r"
    unfolding run_def by (meson min.cobounded1 min.cobounded2 order_trans)+
  moreover have "x mod r < r" using assms(2) by simp
  ultimately show "d + min (min (t - d) (r - x mod r)) MAX_RUN_BLOCKS \<le> t"
    "x mod r + min (min (t - d) (r - x mod r)) MAX_RUN_BLOCKS \<le> r"
    using assms(1) unfolding run_def [symmetric] by linarith+
  show "0 < min (min (t - d) (r - x mod r)) MAX_RUN_BLOCKS"
    by (rule run_progress(1) [OF assms])
qed

lemma submit_runs_inv:
  assumes "queue_inv bd0 W (rw_inflight (fst qb)) (rw_failure (fst qb)) (snd qb)" "0 < ring_size j"
    "submit_runs beh j st owner dn qb = qb'" "dn \<le> length owner div BLOCK_SIZE"
  shows "queue_inv bd0 (W \<union> set (block_writes j st owner dn (length owner div BLOCK_SIZE)))
    (rw_inflight (fst qb')) (rw_failure (fst qb')) (snd qb')"
  using assms
proof (induction "length owner div BLOCK_SIZE - dn" arbitrary: dn qb W rule: less_induct)
  case less
  let ?total = "length owner div BLOCK_SIZE"
  show ?case
  proof (cases "dn < ?total")
    case False
    with less.prems show ?thesis
      by (simp add: submit_runs.simps [of _ _ _ _ dn] block_writes_def)
  next
    case True
    define run where
      "run = min (min (?total - dn) (ring_size j - (st + dn) mod ring_size j)) MAX_RUN_BLOCKS"
    obtain ok q1 bd1 where sub: "rw_submit beh (journal_block_lba j ((st + dn) mod ring_size j))
        (slice_at (dn * BLOCK_SIZE) (run * BLOCK_SIZE) owner) (fst qb) (snd qb) = (ok, q1, bd1)"
      by (metis prod_cases3)
    have run: "dn + run \<le> ?total" "(st + dn) mod ring_size j + run \<le> ring_size j" "0 < run"
      unfolding run_def by (rule run_bounds [OF True less.prems(2)])+
    have step: "submit_runs beh j st owner dn qb =
        (if \<not> ok then (q1, bd1) else submit_runs beh j st owner (dn + run) (q1, bd1))"
      by (subst submit_runs.simps)
        (use True less.prems(2) sub in \<open>simp add: Let_def run_def [symmetric]\<close>)
    note new = rw_submit_inv [OF less.prems(1) sub, simplified run_writes [OF run(1,2)] journal_block_lba_mod]
    have split: "set (block_writes j st owner dn ?total) =
        set (block_writes j st owner dn (dn + run)) \<union> set (block_writes j st owner (dn + run) ?total)"
      using block_writes_split [of dn "dn + run" ?total j st owner] run(1)
      by (metis le_add1 set_append)
    show ?thesis
    proof (cases ok)
      case False
      then obtain e where "rw_failure q1 = Some e" using new(2) by auto
      then have "queue_inv bd0 (W \<union> set (block_writes j st owner dn ?total)) (rw_inflight q1)
          (rw_failure q1) bd1"
        using new(1) by (auto simp: split intro: queue_inv_more)
      then show ?thesis using step False less.prems(3) by auto
    next
      case ok: True
      show ?thesis
        using less.hyps [of "dn + run" "W \<union> set (block_writes j st owner dn (dn + run))" "(q1, bd1)"]
          new(1) less.prems(2,3) step ok run True split
        by (simp add: Un_assoc)
    qed
  qed
qed

section \<open>The view after a run\<close>

text \<open>Ring positions less than a ring apart are different blocks, and different blocks do
  not share a sector.\<close>

lemma ring_pos_distinct:
  assumes "a < b" "b < a + r"
  shows "a mod r \<noteq> b mod (r :: nat)"
proof
  assume "a mod r = b mod r"
  then have "r dvd b - a" using assms(1) by (metis less_imp_le mod_eq_dvd_iff_nat)
  moreover have "0 < b - a" "b - a < r" using assms by simp_all
  ultimately show False by (simp add: nat_dvd_not_less)
qed

lemma journal_block_lba_disjoint:
  assumes "a mod ring_size j \<noteq> b mod ring_size j"
  shows "journal_block_lba j a + 8 \<le> journal_block_lba j b \<or>
    journal_block_lba j b + 8 \<le> journal_block_lba j a"
  using assms by (auto simp: journal_block_lba_def SECTORS_PER_BLOCK_def)

lemma sector_writes_block:
  assumes "length b = 4096"
  shows "(s, x) \<in> set (sector_writes lba b) \<longleftrightarrow> (\<exists>m < 8. s = lba + m \<and> x = slice_at (512 * m) 512 b)"
  using assms by (auto simp: sector_writes_def)

lemma ring_sector_unique:
  assumes "journal_block_lba j (st + a) + m = journal_block_lba j (st + b) + n" "m < 8" "n < 8"
    "a < ring_size j" "b < ring_size j"
  shows "a = b \<and> m = n"
proof -
  have "(st + a) mod ring_size j = (st + b) mod ring_size j"
    using journal_block_lba_disjoint [of "st + a" j "st + b"] assms(1-3) by fastforce
  moreover have "a < b \<Longrightarrow> (st + a) mod ring_size j \<noteq> (st + b) mod ring_size j"
    "b < a \<Longrightarrow> (st + b) mod ring_size j \<noteq> (st + a) mod ring_size j"
    using assms(4,5) by (intro ring_pos_distinct; simp)+
  ultimately have "a = b" by (metis nat_neq_iff)
  then show ?thesis using assms(1) by simp
qed

lemma block_slice_length:
  "i < length owner div BLOCK_SIZE \<Longrightarrow> length (slice_at (BLOCK_SIZE * i) BLOCK_SIZE owner) = 4096"
  by (auto simp: BLOCK_SIZE_def slice_at_def)

lemma set_block_writes:
  assumes "n \<le> length owner div BLOCK_SIZE"
  shows "(s, x) \<in> set (block_writes j st owner 0 n) \<longleftrightarrow> (\<exists>a < n. \<exists>m < 8.
    s = journal_block_lba j (st + a) + m \<and>
    x = slice_at (512 * m) 512 (slice_at (BLOCK_SIZE * a) BLOCK_SIZE owner))"
proof -
  have "(s, x) \<in> set (block_writes j st owner 0 n) \<longleftrightarrow> (\<exists>a < n. (s, x) \<in> set (sector_writes
      (journal_block_lba j (st + a)) (slice_at (BLOCK_SIZE * a) BLOCK_SIZE owner)))"
    by (auto simp: block_writes_def)
  also have "\<dots> \<longleftrightarrow> (\<exists>a < n. \<exists>m < 8. s = journal_block_lba j (st + a) + m \<and>
      x = slice_at (512 * m) 512 (slice_at (BLOCK_SIZE * a) BLOCK_SIZE owner))"
    using assms by (intro ex_cong1 conj_cong refl sector_writes_block block_slice_length) simp
  finally show ?thesis .
qed

lemma block_writes_single_valued:
  assumes "n \<le> length owner div BLOCK_SIZE" "n \<le> ring_size j"
  shows "single_valued (set (block_writes j st owner 0 n))"
proof (rule single_valuedI)
  fix s x y
  assume "(s, x) \<in> set (block_writes j st owner 0 n)" "(s, y) \<in> set (block_writes j st owner 0 n)"
  then obtain a b m k where ab: "a < n" "b < n" "m < 8" "k < 8"
    "s = journal_block_lba j (st + a) + m" "s = journal_block_lba j (st + b) + k"
    "x = slice_at (512 * m) 512 (slice_at (BLOCK_SIZE * a) BLOCK_SIZE owner)"
    "y = slice_at (512 * k) 512 (slice_at (BLOCK_SIZE * b) BLOCK_SIZE owner)"
    unfolding set_block_writes [OF assms(1)] by blast
  then have "a = b \<and> m = k"
    using assms(2) by (intro ring_sector_unique [of j st]) auto
  with ab show "x = y" by simp
qed

text \<open>Only the set of cached writes matters where no sector is written with two contents.\<close>

lemma apply_sectors_set:
  assumes "set ws = set vs" "single_valued (set vs)"
  shows "apply_sectors ws d = apply_sectors vs d"
proof
  fix s :: nat
  have *: "map_of (rev us) s = Some x \<longleftrightarrow> (s, x) \<in> set us" if "single_valued (set us)"
    for us :: "(nat \<times> bytes) list" and x
  proof
    assume "(s, x) \<in> set us"
    then obtain y where y: "map_of (rev us) s = Some y"
      using weak_map_of_SomeI [of s x "rev us"] by auto
    then have "(s, y) \<in> set us" using map_of_SomeD [of "rev us" s y] by simp
    with that \<open>(s, x) \<in> set us\<close> y show "map_of (rev us) s = Some x"
      by (auto dest: single_valuedD)
  qed (use map_of_SomeD [of "rev us" s x] in simp)
  have "map_of (rev ws) s = map_of (rev vs) s"
    using * [of ws] * [of vs] assms by (cases "map_of (rev ws) s"; cases "map_of (rev vs) s") auto
  then show "apply_sectors ws d s = apply_sectors vs d s" by (simp add: apply_sectors_def)
qed

lemma cached_view:
  assumes "cached (set vs) True bd bd'" "single_valued (set vs)"
  shows "bd_view bd' = apply_sectors vs (bd_view bd)"
proof -
  obtain ws where "bd_cache bd' = bd_cache bd @ ws" "set ws = set vs"
    using assms(1) by (auto simp: cached_def)
  moreover from this have "apply_sectors ws d = apply_sectors vs d" for d
    using apply_sectors_set assms(2) by blast
  ultimately show ?thesis
    using assms(1) by (simp add: bd_view_def cached_def apply_sectors_append)
qed

section \<open>A device without faults\<close>

definition dev_ok :: "dev_behaviour \<Rightarrow> bool" where
  "dev_ok beh \<longleftrightarrow> (\<forall>k. submit_err beh k = None \<and> wait_err beh k = None)"

definition rw_clean :: "RingWrites \<Rightarrow> bool" where
  "rw_clean q \<longleftrightarrow> rw_failure q = None \<and> (\<forall>c \<in> set (rw_inflight q). iw_outcome c = None)"

lemma rw_clean_new [simp]: "rw_clean rw_new"
  by (simp add: rw_clean_def rw_new_def)

lemma dev_ok_issue: "dev_ok beh \<Longrightarrow> issue beh act bd = (Inr None, next_cmd (act bd))"
  by (simp add: issue_def dev_ok_def Let_def)

lemma dev_ok_retry_loop: "dev_ok beh \<Longrightarrow> retry_loop beh n act bd = (Inr (), next_cmd (act bd))"
  by (cases n) (simp_all add: attempt_def dev_ok_issue)

lemma reap_write_clean: "iw_outcome c = None \<Longrightarrow> reap_write beh c bd = (Inr (), bd)"
  by (cases "retry_window beh (bd_cmds bd)") (simp_all add: reap_write_def)

lemma reap_while_clean:
  "\<forall>c \<in> set cs. iw_outcome c = None \<Longrightarrow>
     \<exists>cs'. reap_while beh n cs f bd = (cs', f, bd) \<and> set cs' \<subseteq> set cs"
  by (induction cs) (auto simp: reap_write_clean)

lemma rw_drain_clean: "rw_clean q \<Longrightarrow> \<exists>q'. rw_drain beh q bd = (Inr (), q', bd)"
  using reap_while_clean [of "rw_inflight q" beh 0 "rw_failure q" bd]
  by (auto simp: rw_clean_def rw_drain_def)

lemma rw_submit_clean:
  assumes "dev_ok beh" "rw_clean q"
  shows "\<exists>q'. rw_submit beh lba data q bd = (True, q', next_cmd (apply_write NONE lba data bd)) \<and> rw_clean q'"
proof -
  obtain cs where "reap_while beh MAX_INFLIGHT (rw_inflight q) (rw_failure q) bd = (cs, rw_failure q, bd)"
    "set cs \<subseteq> set (rw_inflight q)"
    using reap_while_clean assms(2) unfolding rw_clean_def by blast
  then show ?thesis
    using assms(2) by (auto simp: rw_submit_def dev_ok_issue [OF assms(1)] rw_clean_def)
qed

lemma submit_journal_block_clean:
  assumes "dev_ok beh" "rw_clean (fst qb)"
  shows "rw_clean (fst (submit_journal_block beh j idx b qb))"
  using rw_submit_clean [OF assms, of "journal_block_lba j idx" b "snd qb"]
  by (auto simp: submit_journal_block_def)

lemma submit_runs_clean:
  assumes "dev_ok beh" "rw_clean (fst qb)"
  shows "rw_clean (fst (submit_runs beh j st owner dn qb))"
  using assms
proof (induction beh j st owner dn qb rule: submit_runs.induct)
  case (1 beh j st owner dn qb)
  let ?total = "length owner div BLOCK_SIZE"
  show ?case
  proof (cases "dn < ?total \<and> 0 < ring_size j")
    case False
    then show ?thesis using 1(3) by (subst submit_runs.simps) (simp only: Let_def if_False)
  next
    case True
    define run where
      "run = min (min (?total - dn) (ring_size j - (st + dn) mod ring_size j)) MAX_RUN_BLOCKS"
    obtain q1 bd1 where sub: "rw_submit beh (journal_block_lba j ((st + dn) mod ring_size j))
        (slice_at (dn * BLOCK_SIZE) (run * BLOCK_SIZE) owner) (fst qb) (snd qb) = (True, q1, bd1)"
      "rw_clean q1"
      using rw_submit_clean [OF 1(2,3)] by blast
    have "submit_runs beh j st owner dn qb = submit_runs beh j st owner (dn + run) (q1, bd1)"
      by (subst submit_runs.simps) (use True sub in \<open>simp add: Let_def run_def [symmetric]\<close>)
    then show ?thesis
      using "1.IH" [OF refl True refl refl run_def refl refl sub(1) [symmetric] refl] sub(2) "1.prems"
      by simp
  qed
qed

section \<open>Coalescing\<close>

text \<open>The reference: every block of the buffer is written on its own, in order.\<close>

definition write_each :: "Journal \<Rightarrow> nat \<Rightarrow> bytes \<Rightarrow> nat \<Rightarrow> sectors \<Rightarrow> sectors" where
  "write_each j st owner n d =
     foldl (\<lambda>d i. apply_sectors (sector_writes (journal_block_lba j (st + i))
       (slice_at (BLOCK_SIZE * i) BLOCK_SIZE owner)) d) d [0..<n]"

lemma write_each_block_writes: "write_each j st owner n d = apply_sectors (block_writes j st owner 0 n) d"
  by (induction n) (simp_all add: write_each_def block_writes_def apply_sectors_append)

text \<open>C29. Coalescing and retrying are invisible.  When \<open>submit_journal_blocks\<close> has queued a run of
  at most a ring of blocks, cutting it at the ring's wrap and at the largest command, and
  the drain of the queue reports success, then reading the device gives exactly what
  writing every block on its own would have given.  This holds whatever the device
  answered in between, re-issued commands included, and the platter is untouched.\<close>

theorem submit_journal_blocks_coalesces:
  assumes "0 < ring_size j" "length owner div BLOCK_SIZE \<le> ring_size j"
    "submit_journal_blocks beh j st owner (rw_new, bd) = Ret (q, bd1)"
    "rw_drain beh q bd1 = (Inr (), q', bd2)"
  shows "bd_view bd2 = write_each j st owner (length owner div BLOCK_SIZE) (bd_view bd) \<and>
    bd_platter bd2 = bd_platter bd"
proof -
  let ?ws = "block_writes j st owner 0 (length owner div BLOCK_SIZE)"
  have "submit_runs beh j st owner 0 (rw_new, bd) = (q, bd1)"
    using assms(3) by (simp add: submit_journal_blocks_def split: if_splits)
  then have "queue_inv bd (set ?ws) (rw_inflight q) (rw_failure q) bd1"
    using submit_runs_inv [of bd "{}" "(rw_new, bd)" j beh st owner 0 "(q, bd1)"] assms(1)
    by (simp add: rw_new_def)
  then have c: "cached (set ?ws) True bd bd2"
    using rw_drain_cached [OF _ assms(4)] by simp
  then have "bd_platter bd2 = bd_platter bd" by (simp add: cached_def)
  with c show ?thesis
    using cached_view block_writes_single_valued [OF order.refl assms(2)]
    by (simp add: write_each_block_writes)
qed

definition flaky_device :: dev_behaviour where
  "flaky_device = \<lparr>submit_err = \<lambda>_. None, wait_err = \<lambda>k. if k = 0 then Some Timeout else None,
     landed = \<lambda>_. False, retry_window = \<lambda>_. 1\<rparr>"

lemma flaky_run:
  assumes "bd_cmds bd = 0"
  shows "\<exists>q bd1 q' bd2. submit_journal_blocks flaky_device (journal_new 0 16 4 64 10 10 0) 61
      (replicate (3 * 4096) 7) (rw_new, bd) = Ret (q, bd1) \<and>
    rw_drain flaky_device q bd1 = (Inr (), q', bd2)"
  using assms
  by (simp add: submit_journal_blocks_def submit_runs.simps rw_submit_def rw_new_def issue_def flaky_device_def
      MAX_INFLIGHT_def MAX_RUN_BLOCKS_def BLOCK_SIZE_def ring_size_def journal_new_def rw_drain_def reap_write_def
      next_cmd_def worth_retrying_def)

theorem submit_journal_blocks_coalesces_witness:
  "\<exists>q bd1 q' bd2. submit_journal_blocks flaky_device (journal_new 0 16 4 64 10 10 0) 61
      (replicate (3 * 4096) 7) (rw_new, \<lparr>bd_platter = \<lambda>_. [], bd_cache = [], bd_cmds = 0\<rparr>) = Ret (q, bd1) \<and>
    rw_drain flaky_device q bd1 = (Inr (), q', bd2) \<and>
    bd_view bd2 = write_each (journal_new 0 16 4 64 10 10 0) 61 (replicate (3 * 4096) 7)
      (length (replicate (3 * 4096) (7 :: byte)) div BLOCK_SIZE)
      (bd_view \<lparr>bd_platter = \<lambda>_. [], bd_cache = [], bd_cmds = 0\<rparr>)"
proof -
  let ?bd = "\<lparr>bd_platter = \<lambda>_. [], bd_cache = [], bd_cmds = 0\<rparr>"
  obtain q bd1 q' bd2 where r: "submit_journal_blocks flaky_device (journal_new 0 16 4 64 10 10 0) 61
      (replicate (3 * 4096) 7) (rw_new, ?bd) = Ret (q, bd1)" "rw_drain flaky_device q bd1 = (Inr (), q', bd2)"
    using flaky_run [of ?bd] by auto
  have "0 < ring_size (journal_new 0 16 4 64 10 10 0)"
    "length (replicate (3 * 4096) (7 :: byte)) div BLOCK_SIZE \<le> ring_size (journal_new 0 16 4 64 10 10 0)"
    by (simp_all add: ring_size_def journal_new_def BLOCK_SIZE_def)
  from submit_journal_blocks_coalesces [OF this r] r show ?thesis by blast
qed

end
