(* ===== verification/Block_Page_Cache.thy ===== *)
theory Block_Page_Cache
  imports Journal_Ring_Io
begin

text \<open>
  Writeback of the block page cache (\<open>kernel/src/fs/block_page_cache.rs\<close>): the dirty test,
  one batch of home writes, and a pass over all shards with the journal gate that keeps a
  block off its home location until the transaction that enrolled it has committed.  The
  cache holds references into a heap of pages; one journal is registered, for its own
  device.  The order in which the LRU list ages is not modelled.
\<close>

section \<open>Pages and shards\<close>

record CachedBlockPage =
  pg_key :: key
  pg_data :: bytes
  pg_dirty :: bool
  pg_expired :: bool

record ShardInner =
  sh_lru :: "key \<rightharpoonup> page_ref"
  sh_dirty :: "key btset"

record BlockPageCache =
  bpc_pages :: "page_ref \<Rightarrow> CachedBlockPage"
  bpc_shards :: "ShardInner list"

record World =
  w_cache :: BlockPageCache
  w_journal :: Journal
  w_dev :: blockdev

definition NUM_SHARDS :: nat where "NUM_SHARDS = 8"
definition MAX_INFLIGHT_PAGES :: nat where "MAX_INFLIGHT_PAGES = 8"
definition PAGE_SIZE :: nat where "PAGE_SIZE = 4096"

definition shard_index :: "key \<Rightarrow> nat" where
  "shard_index k =
     (let h = (word_of_nat (fst k) * 0x517cc1b727220a95 :: u64)
              + word_of_nat (snd k) * 0x6c62272e07bb0142
      in unat (h AND word_of_nat (NUM_SHARDS - 1)))"

definition cache_is_dirty :: "BlockPageCache \<Rightarrow> key \<Rightarrow> bool" where
  "cache_is_dirty c k =
     (bt_get (sh_dirty (bpc_shards c ! shard_index k)) k \<noteq> None)"

definition clear_dirty :: "page_ref \<Rightarrow> BlockPageCache \<Rightarrow> BlockPageCache" where
  "clear_dirty p c =
     c\<lparr>bpc_pages := (bpc_pages c)(p := (bpc_pages c p)\<lparr>pg_dirty := False, pg_expired := False\<rparr>)\<rparr>"

definition remove_dirty :: "nat \<Rightarrow> key \<Rightarrow> BlockPageCache \<Rightarrow> BlockPageCache" where
  "remove_dirty i k c =
     c\<lparr>bpc_shards := (bpc_shards c)[i := (bpc_shards c ! i)\<lparr>sh_dirty :=
        bt_remove k (sh_dirty (bpc_shards c ! i))\<rparr>]\<rparr>"

section \<open>One batch\<close>

record PendingFlush =
  pf_page :: page_ref
  pf_seq :: "nat option"

text \<open>Submit the dirty pages of the batch; a submission that fails ends the loop.\<close>

fun batch_submit :: "dev_behaviour \<Rightarrow> BlockPageCache \<Rightarrow> PendingFlush list \<Rightarrow> blockdev
    \<Rightarrow> (PendingFlush \<times> BlockError option) list \<times> BlockError option \<times> blockdev" where
  "batch_submit beh c [] bd = ([], None, bd)"
| "batch_submit beh c (p # ps) bd =
     (let page = bpc_pages c (pf_page p) in
      if \<not> pg_dirty page then batch_submit beh c ps bd
      else case issue beh (apply_write NONE (snd (pg_key page) * SECTORS_PER_BLOCK) (pg_data page)) bd of
             (Inl e, bd') \<Rightarrow> ([], Some e, bd')
           | (Inr outcome, bd') \<Rightarrow>
               let (infl, failure, bd'') = batch_submit beh c ps bd'
               in ((p, outcome) # infl, failure, bd''))"

text \<open>Book-keeping of one page that has been written.\<close>

definition page_written :: "nat \<Rightarrow> PendingFlush \<Rightarrow> World \<Rightarrow> World" where
  "page_written i p w =
     (let k = pg_key (bpc_pages (w_cache w) (pf_page p));
          j = w_journal w;
          w1 = (case pf_seq p of
                  Some seq \<Rightarrow> if fst k = j_device_id j
                              then w\<lparr>w_journal := note_checkpointed k seq j\<rparr> else w
                | None \<Rightarrow> w)
      in if \<not> pg_dirty (bpc_pages (w_cache w1) (pf_page p))
         then w1\<lparr>w_cache := remove_dirty i k (w_cache w1)\<rparr> else w1)"

definition write_batch :: "dev_behaviour \<Rightarrow> nat \<Rightarrow> PendingFlush list \<Rightarrow> World
    \<Rightarrow> (BlockError + nat) \<times> World" where
  "write_batch beh i batch w =
     (let sorted = sort_key (\<lambda>p. pg_key (bpc_pages (w_cache w) (pf_page p))) batch;
          (infl, sub_failure, bd) = batch_submit beh (w_cache w) sorted (w_dev w);
          ok = map fst (filter (\<lambda>(p, r). r = None) infl);
          failure = foldl get_or_insert sub_failure (map snd infl);
          w1 = w\<lparr>w_dev := bd, w_cache := foldl (\<lambda>c p. clear_dirty (pf_page p) c) (w_cache w) ok\<rparr>;
          w2 = foldl (\<lambda>w p. page_written i p w) w1 ok
      in (case failure of Some e \<Rightarrow> Inl e | None \<Rightarrow> Inr (length ok * PAGE_SIZE), w2))"

section \<open>A pass over the shards\<close>

record FlushPass =
  fp_world :: World
  fp_batch :: "PendingFlush list"
  fp_bytes :: nat
  fp_failure :: "BlockError option"

definition fp_write :: "dev_behaviour \<Rightarrow> nat \<Rightarrow> FlushPass \<Rightarrow> FlushPass" where
  "fp_write beh i f =
     (case write_batch beh i (fp_batch f) (fp_world f) of
        (Inr n, w) \<Rightarrow> f\<lparr>fp_world := w, fp_batch := [], fp_bytes := fp_bytes f + n\<rparr>
      | (Inl e, w) \<Rightarrow> f\<lparr>fp_world := w, fp_batch := [],
                       fp_failure := get_or_insert (fp_failure f) (Some e)\<rparr>)"

text \<open>The journal sequence a key is tracked under.\<close>

definition page_journal_seq :: "Journal \<Rightarrow> key \<Rightarrow> nat option" where
  "page_journal_seq j k =
     (if fst k = j_device_id j then bt_get (checkpoint_tracker j) k else None)"

definition flush_key :: "dev_behaviour \<Rightarrow> bool \<Rightarrow> nat \<Rightarrow> FlushPass \<Rightarrow> key \<Rightarrow> FlushPass" where
  "flush_key beh force i f k =
     (let w = fp_world f; c = w_cache w; j = w_journal w in
      case sh_lru (bpc_shards c ! i) k of
        None \<Rightarrow> f\<lparr>fp_world := w\<lparr>w_cache := remove_dirty i k c\<rparr>\<rparr>
      | Some p \<Rightarrow>
          let seq = page_journal_seq j k in
          if (case seq of Some s \<Rightarrow> s > j_committed_seq_pub j | None \<Rightarrow> False) then f
          else if \<not> force \<and> \<not> pg_expired (bpc_pages c p) then f
          else
            let f' = f\<lparr>fp_batch := fp_batch f @ [\<lparr>pf_page = p, pf_seq = seq\<rparr>]\<rparr>
            in if length (fp_batch f') \<ge> MAX_INFLIGHT_PAGES then fp_write beh i f' else f')"

definition flush_shard :: "dev_behaviour \<Rightarrow> bool \<Rightarrow> FlushPass \<Rightarrow> nat \<Rightarrow> FlushPass" where
  "flush_shard beh force f i =
     fp_write beh i (foldl (flush_key beh force i) (f\<lparr>fp_batch := []\<rparr>)
       (bt_keys (sh_dirty (bpc_shards (w_cache (fp_world f)) ! i))))"

definition flush_dirty_once :: "dev_behaviour \<Rightarrow> bool \<Rightarrow> World \<Rightarrow> (BlockError + nat) \<times> World" where
  "flush_dirty_once beh force w =
     (let f = foldl (flush_shard beh force)
                \<lparr>fp_world = w, fp_batch = [], fp_bytes = 0, fp_failure = None\<rparr>
                [0..<length (bpc_shards (w_cache w))]
      in (case fp_failure f of Some e \<Rightarrow> Inl e | None \<Rightarrow> Inr (fp_bytes f), fp_world f))"

section \<open>The journal gate\<close>

text \<open>Every cached page belongs to the journalled device, sits under its own key and has a
  full page of data.\<close>

definition page_ok :: "nat \<Rightarrow> BlockPageCache \<Rightarrow> key \<Rightarrow> page_ref \<Rightarrow> bool" where
  "page_ok dev c k p \<longleftrightarrow> fst k = dev \<and> pg_key (bpc_pages c p) = k \<and>
     length (pg_data (bpc_pages c p)) = PAGE_SIZE"

definition cache_ok :: "nat \<Rightarrow> BlockPageCache \<Rightarrow> bool" where
  "cache_ok dev c \<longleftrightarrow> (\<forall>i < length (bpc_shards c). \<forall>k p.
     sh_lru (bpc_shards c ! i) k = Some p \<longrightarrow> page_ok dev c k p)"

text \<open>A block the journal tracks under a sequence number that is not committed yet.\<close>

definition uncommitted :: "Journal \<Rightarrow> key \<Rightarrow> bool" where
  "uncommitted j k \<longleftrightarrow>
     (case page_journal_seq j k of None \<Rightarrow> False | Some q \<Rightarrow> q > j_committed_seq_pub j)"

text \<open>The device has only been given writes to home blocks that \<open>allowed\<close> holds for.\<close>

definition home_writes_only :: "(nat \<Rightarrow> bool) \<Rightarrow> blockdev \<Rightarrow> blockdev \<Rightarrow> bool" where
  "home_writes_only allowed bd bd' \<longleftrightarrow> bd_platter bd' = bd_platter bd \<and>
     (\<exists>ws. bd_cache bd' = bd_cache bd @ ws \<and> (\<forall>(s, x) \<in> set ws. allowed (s div 8)))"

lemma home_writes_only_refl [simp]: "home_writes_only P bd bd"
  by (simp add: home_writes_only_def)

lemma home_writes_only_next_cmd [simp]:
  "home_writes_only P bd (next_cmd bd') \<longleftrightarrow> home_writes_only P bd bd'"
  by (simp add: home_writes_only_def)

lemma home_writes_only_trans:
  "home_writes_only P a b \<Longrightarrow> home_writes_only P b c \<Longrightarrow> home_writes_only P a c"
  by (fastforce simp: home_writes_only_def)

lemma home_writes_only_write:
  assumes "P b" "length data = PAGE_SIZE"
  shows "home_writes_only P bd (apply_write NONE (b * SECTORS_PER_BLOCK) data bd)"
  using assms
  by (auto simp: home_writes_only_def apply_write_def sector_writes_def PAGE_SIZE_def
      SECTORS_PER_BLOCK_def)

lemma home_writes_only_issue:
  assumes "issue beh (apply_write NONE (b * SECTORS_PER_BLOCK) data) bd = (r, bd')" "P b"
    "length data = PAGE_SIZE"
  shows "home_writes_only P bd bd'"
  using assms home_writes_only_write
  by (auto simp: issue_def Let_def split: option.splits if_splits)

lemma batch_submit_gate:
  assumes "batch_submit beh c ps bd = (infl, failure, bd')"
    "\<forall>p \<in> set ps. P (snd (pg_key (bpc_pages c (pf_page p)))) \<and>
       length (pg_data (bpc_pages c (pf_page p))) = PAGE_SIZE"
  shows "home_writes_only P bd bd' \<and> fst ` set infl \<subseteq> set ps"
  using assms
proof (induction ps arbitrary: bd infl failure)
  case Nil
  then show ?case by simp
next
  case (Cons p ps)
  let ?page = "bpc_pages c (pf_page p)"
  obtain r bd1 where i: "issue beh (apply_write NONE (snd (pg_key ?page) * SECTORS_PER_BLOCK)
      (pg_data ?page)) bd = (r, bd1)" by fastforce
  have w: "home_writes_only P bd bd1"
    using Cons.prems(2) home_writes_only_issue [OF i] by simp
  show ?case
  proof (cases "\<exists>outcome. pg_dirty ?page \<and> r = Inr outcome")
    case False
    with Cons w i show ?thesis
      by (cases "pg_dirty ?page"; cases r) (fastforce simp: Let_def)+
  next
    case True
    then obtain outcome infl' f' where rec: "batch_submit beh c ps bd1 = (infl', f', bd')"
      and infl: "infl = (p, outcome) # infl'"
      using Cons.prems(1) i by (auto simp: Let_def split: prod.splits)
    have "home_writes_only P bd1 bd' \<and> fst ` set infl' \<subseteq> set ps"
      using Cons.IH [OF rec] Cons.prems(2) by simp
    with w show ?thesis using infl by (auto intro: home_writes_only_trans)
  qed
qed

lemma page_ok_clear_dirty [simp]: "page_ok dev (clear_dirty q c) k p \<longleftrightarrow> page_ok dev c k p"
  by (simp add: page_ok_def clear_dirty_def)

lemma page_ok_remove_dirty [simp]: "page_ok dev (remove_dirty i k' c) k p \<longleftrightarrow> page_ok dev c k p"
  by (simp add: page_ok_def remove_dirty_def)

lemma page_ok_clear_all [simp]:
  "page_ok dev (foldl (\<lambda>c p. clear_dirty (pf_page p) c) c ps) k p \<longleftrightarrow> page_ok dev c k p"
  by (induction ps arbitrary: c) simp_all

lemma cache_ok_clear_dirty [simp]: "cache_ok dev (clear_dirty q c) \<longleftrightarrow> cache_ok dev c"
  by (simp add: cache_ok_def) (simp add: clear_dirty_def)

lemma cache_ok_clear_all [simp]:
  "cache_ok dev (foldl (\<lambda>c p. clear_dirty (pf_page p) c) c ps) \<longleftrightarrow> cache_ok dev c"
  by (induction ps arbitrary: c) simp_all

lemma cache_ok_remove_dirty [simp]: "cache_ok dev (remove_dirty i k c) \<longleftrightarrow> cache_ok dev c"
proof -
  have "sh_lru (bpc_shards (remove_dirty i k c) ! n) = sh_lru (bpc_shards c ! n)"
    if "n < length (bpc_shards c)" for n
    using that by (cases "i = n") (simp_all add: remove_dirty_def)
  moreover have "length (bpc_shards (remove_dirty i k c)) = length (bpc_shards c)"
    by (simp add: remove_dirty_def)
  ultimately show ?thesis by (simp add: cache_ok_def)
qed

lemma length_shards_remove_dirty [simp]:
  "length (bpc_shards (remove_dirty i k c)) = length (bpc_shards c)"
  by (simp add: remove_dirty_def)

lemma length_shards_clear_all [simp]:
  "length (bpc_shards (foldl (\<lambda>c p. clear_dirty (pf_page p) c) c ps)) = length (bpc_shards c)"
  by (induction ps arbitrary: c) (simp_all add: clear_dirty_def)

text \<open>The invariant of a pass, relative to the journal and device it started with.\<close>

definition gate_inv :: "Journal \<Rightarrow> blockdev \<Rightarrow> nat \<Rightarrow> World \<Rightarrow> bool" where
  "gate_inv j0 bd0 n w \<longleftrightarrow>
     cache_ok (j_device_id j0) (w_cache w) \<and> length (bpc_shards (w_cache w)) = n \<and>
     j_device_id (w_journal w) = j_device_id j0 \<and>
     j_committed_seq_pub (w_journal w) = j_committed_seq_pub j0 \<and>
     bt_wf (checkpoint_tracker (w_journal w)) \<and>
     (\<forall>k. uncommitted j0 k \<longrightarrow> uncommitted (w_journal w) k) \<and>
     home_writes_only (\<lambda>b. \<not> uncommitted j0 (j_device_id j0, b)) bd0 (w_dev w)"

definition batch_inv :: "Journal \<Rightarrow> World \<Rightarrow> PendingFlush list \<Rightarrow> bool" where
  "batch_inv j0 w ps \<longleftrightarrow> (\<forall>p \<in> set ps. \<exists>k. page_ok (j_device_id j0) (w_cache w) k (pf_page p) \<and>
     \<not> uncommitted j0 k)"

lemma uncommitted_note_checkpointed:
  "bt_wf (checkpoint_tracker j) \<Longrightarrow> k \<noteq> k' \<Longrightarrow>
     uncommitted (note_checkpointed k' seq j) k \<longleftrightarrow> uncommitted j k"
  by (simp add: uncommitted_def page_journal_seq_def note_checkpointed_def bt_get_remove
      split: option.split)

lemma page_written_gate:
  assumes "gate_inv j0 bd0 n w" "page_ok (j_device_id j0) (w_cache w) k (pf_page p)"
    "\<not> uncommitted j0 k"
  shows "gate_inv j0 bd0 n (page_written i p w) \<and>
    (\<forall>k q. page_ok (j_device_id j0) (w_cache (page_written i p w)) k q \<longleftrightarrow>
       page_ok (j_device_id j0) (w_cache w) k q)"
proof -
  have k: "pg_key (bpc_pages (w_cache w) (pf_page p)) = k"
    using assms(2) by (simp add: page_ok_def)
  have noted: "gate_inv j0 bd0 n (w\<lparr>w_journal := note_checkpointed k seq (w_journal w)\<rparr>)" for seq
  proof -
    have "uncommitted (note_checkpointed k seq (w_journal w)) k'" if "uncommitted j0 k'" for k'
      using that assms(1,3) by (subst uncommitted_note_checkpointed)
        (auto simp: gate_inv_def simp del: split_paired_All)
    then show ?thesis
      using assms(1) by (simp add: gate_inv_def note_checkpointed_def)
  qed
  show ?thesis
    using assms(1) noted
    by (auto simp: page_written_def Let_def k split: option.splits) (auto simp: gate_inv_def)
qed

lemma pages_written_gate:
  assumes "gate_inv j0 bd0 n w" "batch_inv j0 w ps"
  shows "gate_inv j0 bd0 n (foldl (\<lambda>w p. page_written i p w) w ps)"
  using assms
proof (induction ps arbitrary: w)
  case Nil
  then show ?case by simp
next
  case (Cons p ps)
  obtain k where k: "page_ok (j_device_id j0) (w_cache w) k (pf_page p)" "\<not> uncommitted j0 k"
    using Cons.prems(2) by (auto simp: batch_inv_def)
  have step: "gate_inv j0 bd0 n (page_written i p w)"
    "\<And>k q. page_ok (j_device_id j0) (w_cache (page_written i p w)) k q \<longleftrightarrow>
       page_ok (j_device_id j0) (w_cache w) k q"
    using page_written_gate [OF Cons.prems(1) k] by blast+
  then have "batch_inv j0 (page_written i p w) ps"
    using Cons.prems(2) by (simp add: batch_inv_def)
  then show ?case using Cons.IH [OF step(1)] by simp
qed

lemma write_batch_gate:
  assumes "gate_inv j0 bd0 n w" "batch_inv j0 w batch"
  shows "gate_inv j0 bd0 n (snd (write_batch beh i batch w))"
proof -
  let ?c = "w_cache w"
  let ?sorted = "sort_key (\<lambda>p. pg_key (bpc_pages ?c (pf_page p))) batch"
  obtain infl f bd where sub: "batch_submit beh ?c ?sorted (w_dev w) = (infl, f, bd)"
    by (metis prod_cases3)
  have pre: "\<forall>p \<in> set ?sorted. \<not> uncommitted j0 (j_device_id j0, snd (pg_key (bpc_pages ?c (pf_page p))))
      \<and> length (pg_data (bpc_pages ?c (pf_page p))) = PAGE_SIZE"
    using assms(2) by (force simp: batch_inv_def page_ok_def)
  have gate: "home_writes_only (\<lambda>b. \<not> uncommitted j0 (j_device_id j0, b)) (w_dev w) bd"
    and infl: "fst ` set infl \<subseteq> set batch"
    using batch_submit_gate [OF sub pre] by auto
  let ?ok = "map fst (filter (\<lambda>(p, r). r = None) infl)"
  let ?w1 = "w\<lparr>w_dev := bd, w_cache := foldl (\<lambda>c p. clear_dirty (pf_page p) c) ?c ?ok\<rparr>"
  have "gate_inv j0 bd0 n ?w1"
    using assms(1) gate by (auto simp: gate_inv_def intro: home_writes_only_trans)
  moreover have "batch_inv j0 ?w1 ?ok"
    using assms(2) infl by (fastforce simp: batch_inv_def)
  ultimately show ?thesis
    using pages_written_gate by (simp add: write_batch_def sub Let_def)
qed

lemma fp_write_gate:
  assumes "gate_inv j0 bd0 n (fp_world f)" "batch_inv j0 (fp_world f) (fp_batch f)"
  shows "gate_inv j0 bd0 n (fp_world (fp_write beh i f)) \<and> fp_batch (fp_write beh i f) = []"
  using write_batch_gate [OF assms, of beh i]
  by (auto simp: fp_write_def split: prod.splits sum.splits)

lemma flush_key_gate:
  assumes "gate_inv j0 bd0 n (fp_world f)" "batch_inv j0 (fp_world f) (fp_batch f)" "i < n"
  shows "gate_inv j0 bd0 n (fp_world (flush_key beh force i f k)) \<and>
    batch_inv j0 (fp_world (flush_key beh force i f k)) (fp_batch (flush_key beh force i f k))"
proof (cases "sh_lru (bpc_shards (w_cache (fp_world f)) ! i) k")
  case None
  then show ?thesis
    using assms by (auto simp: flush_key_def Let_def gate_inv_def batch_inv_def)
next
  case (Some p)
  let ?w = "fp_world f"
  have ok: "page_ok (j_device_id j0) (w_cache ?w) k p"
    using assms(1,3) Some by (auto simp: gate_inv_def cache_ok_def simp del: split_paired_All)
  let ?f = "f\<lparr>fp_batch := fp_batch f @ [\<lparr>pf_page = p, pf_seq = page_journal_seq (w_journal ?w) k\<rparr>]\<rparr>"
  have grown: "batch_inv j0 ?w (fp_batch ?f)" if "\<not> uncommitted (w_journal ?w) k"
    using that ok assms(1,2)
    by (auto simp: batch_inv_def gate_inv_def simp del: split_paired_All split_paired_Ex)
  have gate: "(case page_journal_seq (w_journal ?w) k of None \<Rightarrow> False
      | Some s \<Rightarrow> s > j_committed_seq_pub (w_journal ?w)) \<longleftrightarrow> uncommitted (w_journal ?w) k"
    by (simp add: uncommitted_def)
  have flush: "flush_key beh force i f k =
      (if uncommitted (w_journal ?w) k then f
       else if \<not> force \<and> \<not> pg_expired (bpc_pages (w_cache ?w) p) then f
       else if length (fp_batch ?f) \<ge> MAX_INFLIGHT_PAGES then fp_write beh i ?f else ?f)"
    unfolding flush_key_def Let_def Some option.case gate ..
  show ?thesis
    using assms fp_write_gate [of j0 bd0 n ?f beh i] grown
    by (auto simp: flush batch_inv_def)
qed

lemma flush_shard_gate:
  assumes "gate_inv j0 bd0 n (fp_world f)" "i < n"
  shows "gate_inv j0 bd0 n (fp_world (flush_shard beh force f i))"
proof -
  have "gate_inv j0 bd0 n (fp_world (foldl (flush_key beh force i) g ks)) \<and>
    batch_inv j0 (fp_world (foldl (flush_key beh force i) g ks))
      (fp_batch (foldl (flush_key beh force i) g ks))"
    if "gate_inv j0 bd0 n (fp_world g)" "batch_inv j0 (fp_world g) (fp_batch g)" for g ks
    using that by (induction ks arbitrary: g) (simp_all add: flush_key_gate assms(2))
  then show ?thesis
    using assms(1) fp_write_gate by (simp add: flush_shard_def batch_inv_def)
qed

lemma flush_dirty_once_gate:
  assumes "cache_ok (j_device_id (w_journal w)) (w_cache w)"
    "bt_wf (checkpoint_tracker (w_journal w))"
  shows "gate_inv (w_journal w) (w_dev w) (length (bpc_shards (w_cache w)))
    (snd (flush_dirty_once beh force w))"
proof -
  let ?n = "length (bpc_shards (w_cache w))"
  have "gate_inv (w_journal w) (w_dev w) ?n (fp_world (foldl (flush_shard beh force) f is))"
    if "gate_inv (w_journal w) (w_dev w) ?n (fp_world f)" "\<forall>i \<in> set is. i < ?n" for f "is"
    using that by (induction "is" arbitrary: f) (auto intro: flush_shard_gate)
  then show ?thesis
    using assms by (simp add: flush_dirty_once_def Let_def gate_inv_def)
qed

text \<open>C22. Write-ahead: a writeback pass, forced or not and whatever the device answers, never
  writes the home location of a block that a transaction has enrolled and not yet
  committed.  Nothing reaches the platter either, only the device's write cache.\<close>

theorem writeback_waits_for_commit:
  assumes "cache_ok (j_device_id (w_journal w)) (w_cache w)"
    "bt_wf (checkpoint_tracker (w_journal w))"
  shows "\<exists>ws. bd_cache (w_dev (snd (flush_dirty_once beh force w))) = bd_cache (w_dev w) @ ws \<and>
    bd_platter (w_dev (snd (flush_dirty_once beh force w))) = bd_platter (w_dev w) \<and>
    (\<forall>(s, x) \<in> set ws. \<not> uncommitted (w_journal w) (j_device_id (w_journal w), s div 8))"
  using flush_dirty_once_gate [OF assms, of beh force]
  by (auto simp: gate_inv_def home_writes_only_def)

definition example_world :: World where
  "example_world = \<lparr>
     w_cache = \<lparr>bpc_pages = (\<lambda>_. \<lparr>pg_key = (0, 5), pg_data = replicate 4096 1,
         pg_dirty = True, pg_expired = True\<rparr>),
       bpc_shards = replicate 8 \<lparr>sh_lru = [(0, 5) \<mapsto> 0], sh_dirty = [((0, 5), ())]\<rparr>\<rparr>,
     w_journal = (journal_new 0 0 1 100 10 10 0)\<lparr>checkpoint_tracker := [((0, 5), 10)]\<rparr>,
     w_dev = \<lparr>bd_platter = (\<lambda>_. replicate 512 0), bd_cache = [], bd_cmds = 0\<rparr>\<rparr>"

theorem writeback_waits_for_commit_witness:
  "\<exists>ws. bd_cache (w_dev (snd (flush_dirty_once flaky_device
       True example_world))) = bd_cache (w_dev example_world) @ ws \<and>
    bd_platter (w_dev (snd (flush_dirty_once flaky_device
       True example_world))) = bd_platter (w_dev example_world) \<and>
    (\<forall>(s, x) \<in> set ws. \<not> uncommitted (w_journal example_world)
       (j_device_id (w_journal example_world), s div 8))"
  by (rule writeback_waits_for_commit)
    (auto simp: example_world_def cache_ok_def page_ok_def journal_new_def PAGE_SIZE_def
      bt_wf_def split: if_splits)

end
