(* ===== verification/Journal_Scan.thy ===== *)
theory Journal_Scan
  imports Journal_Format
begin

text \<open>
  The recovery scan of \<open>journal_scan.rs\<close>, shared by the kernel's mount-time replay and by
  \<open>efs-fsck\<close>: walk the ring from the tail, accept a transaction only when its commit block
  is present and its payload checksum matches, and stop at the first break.  Ring
  positions are natural numbers, sequence numbers are 64-bit words.  The closure that
  reads a block is the parameter \<open>rd\<close>.

  The central results: a ring that holds the images of a sequence of transactions is read
  back to exactly those transactions, wherever the ring wraps; and what an unfinished
  commit leaves behind never adds a transaction.
\<close>

section \<open>The scan\<close>

record ScannedTx =
  st_seq :: u64
  st_entries :: "DescriptorEntry list"
  st_data_blocks :: "bytes list"

datatype ScanStop =
    DegenerateRing
  | NotJournalBlock
  | NotDescriptor u8
  | SequenceBreak u64 u64
  | PartialTx u64
  | CommitCrcMismatch u64 u32 u32
  | RingBound u64

record JournalScan =
  js_txs :: "ScannedTx list"
  js_revokes :: "u64 \<rightharpoonup> u64"
  js_next_seq :: u64
  js_next_block :: nat
  js_ring_blocks :: nat
  js_stop :: ScanStop

definition is_dirty :: "JournalScan \<Rightarrow> bool" where
  "is_dirty scan \<longleftrightarrow> js_txs scan \<noteq> []"

datatype scan_step = Stop JournalScan | Continue JournalScan nat u64

definition read_ring_block :: "(nat \<Rightarrow> 'e + bytes) \<Rightarrow> nat \<Rightarrow> nat \<Rightarrow> 'e + bytes" where
  "read_ring_block rd ring_size ring_idx = rd (ring_idx mod ring_size + 1)"

fun read_data_blocks :: "(nat \<Rightarrow> 'e + bytes) \<Rightarrow> nat \<Rightarrow> nat \<Rightarrow> nat \<Rightarrow> 'e + bytes list" where
  "read_data_blocks rd ring_size ring_pos 0 = Inr []"
| "read_data_blocks rd ring_size ring_pos (Suc n) =
     try_bind (read_ring_block rd ring_size ring_pos) (\<lambda>b.
     try_bind (read_data_blocks rd ring_size (ring_pos + 1) n) (\<lambda>bs. Inr (b # bs)))"

definition merge_revoke :: "(u64 \<rightharpoonup> u64) \<Rightarrow> RevokeEntry \<Rightarrow> (u64 \<rightharpoonup> u64)" where
  "merge_revoke m r =
     (let existing = (case m (rev_fs_block r) of None \<Rightarrow> 0 | Some s \<Rightarrow> s)
      in m(rev_fs_block r \<mapsto> (if rev_seq r > existing then rev_seq r else existing)))"

definition has_revoke_block :: "bytes \<Rightarrow> u64 \<Rightarrow> bool" where
  "has_revoke_block block desc_seq =
     (case parse_header block of
        None \<Rightarrow> False
      | Some nh \<Rightarrow> jh_kind nh = kind_byte Revoke \<and> jh_seq nh = desc_seq)"

definition is_commit_of :: "bytes \<Rightarrow> u64 \<Rightarrow> u64 \<Rightarrow> bool" where
  "is_commit_of block desc_seq desc_tx_id =
     (case parse_header block of
        None \<Rightarrow> False
      | Some ch \<Rightarrow> jh_kind ch = kind_byte Commit \<and> jh_seq ch = desc_seq \<and> jh_tx_id ch = desc_tx_id)"

text \<open>The loop body, in the three stages of the source: the optional revoke block and the
  commit block behind the data, then the verdict on the commit block.\<close>

definition scan_revoke ::
  "(nat \<Rightarrow> 'e + bytes) \<Rightarrow> nat \<Rightarrow> nat \<Rightarrow> JournalScan \<Rightarrow> nat \<Rightarrow> u64
     \<Rightarrow> 'e + (JournalScan \<times> bool \<times> bytes)" where
  "scan_revoke rd ring_size bs scan ring_pos desc_seq =
     try_bind (read_ring_block rd ring_size ring_pos) (\<lambda>next_block.
     if has_revoke_block next_block desc_seq
     then try_bind (read_ring_block rd ring_size (ring_pos + 1)) (\<lambda>commit_block.
       Inr (scan\<lparr>js_revokes :=
              foldl merge_revoke (js_revokes scan) (parse_revoke_entries next_block bs)\<rparr>,
            True, commit_block))
     else Inr (scan, False, next_block))"

definition scan_commit ::
  "JournalScan \<Rightarrow> nat \<Rightarrow> u64 \<Rightarrow> u64 \<Rightarrow> DescriptorEntry list \<Rightarrow> bytes list \<Rightarrow> bool \<Rightarrow> bytes
     \<Rightarrow> scan_step" where
  "scan_commit scan commit_pos desc_seq desc_tx_id entries data_blocks has_revoke commit_block =
     (if \<not> is_commit_of commit_block desc_seq desc_tx_id
      then Stop (scan\<lparr>js_stop := PartialTx desc_seq\<rparr>)
      else
        let commit_crc = commit_payload_crc commit_block;
            expected_crc = commit_block_checksum (concat data_blocks)
        in if commit_crc \<noteq> expected_crc
           then Stop (scan\<lparr>js_stop := CommitCrcMismatch desc_seq commit_crc expected_crc\<rparr>)
           else Continue
             (scan\<lparr>js_ring_blocks := js_ring_blocks scan + 1 + length entries
                       + (if has_revoke then 1 else 0) + 1,
                   js_next_seq := desc_seq + 1,
                   js_next_block := commit_pos + 1,
                   js_txs := js_txs scan @ [\<lparr>st_seq = desc_seq,
                     st_entries = entries, st_data_blocks = data_blocks\<rparr>]\<rparr>)
             (commit_pos + 1) (desc_seq + 1))"

definition scan_tx ::
  "(nat \<Rightarrow> 'e + bytes) \<Rightarrow> nat \<Rightarrow> nat \<Rightarrow> JournalScan \<Rightarrow> nat \<Rightarrow> JournalBlockHeader
     \<Rightarrow> DescriptorEntry list \<Rightarrow> 'e + scan_step" where
  "scan_tx rd ring_size bs scan data_pos hdr entries =
     try_bind (read_data_blocks rd ring_size data_pos (length entries)) (\<lambda>data_blocks.
     try_bind (scan_revoke rd ring_size bs scan (data_pos + length entries) (jh_seq hdr))
       (\<lambda>(scan', has_revoke, commit_block).
     Inr (scan_commit scan'
       (data_pos + length entries + (if has_revoke then 1 else 0))
       (jh_seq hdr) (jh_tx_id hdr) entries data_blocks has_revoke commit_block)))"

definition scan_body ::
  "(nat \<Rightarrow> 'e + bytes) \<Rightarrow> nat \<Rightarrow> nat \<Rightarrow> JournalScan \<Rightarrow> nat \<Rightarrow> u64 \<Rightarrow> 'e + scan_step" where
  "scan_body rd ring_size bs scan ring_pos expected_seq =
     try_bind (read_ring_block rd ring_size ring_pos) (\<lambda>block.
     case parse_header block of
       None \<Rightarrow> Inr (Stop (scan\<lparr>js_stop := NotJournalBlock\<rparr>))
     | Some hdr \<Rightarrow>
       if jh_kind hdr \<noteq> kind_byte Descriptor
       then Inr (Stop (scan\<lparr>js_stop := NotDescriptor (jh_kind hdr)\<rparr>))
       else if jh_seq hdr \<noteq> expected_seq
       then Inr (Stop (scan\<lparr>js_stop := SequenceBreak expected_seq (jh_seq hdr)\<rparr>))
       else scan_tx rd ring_size bs scan (ring_pos + 1) hdr (parse_descriptor_entries block bs))"

lemma scan_commit_Continue:
  "scan_commit scan cp sq tid es ds hr cb = Continue scan' p' e' \<Longrightarrow>
     p' = cp + 1 \<and> is_commit_of cb sq tid"
  by (simp add: scan_commit_def Let_def split: if_split_asm)

lemma scan_tx_Continue:
  "scan_tx rd r bs scan dp hdr es = Inr (Continue scan' p' e') \<Longrightarrow> dp < p'"
  by (auto simp: scan_tx_def try_bind_eq_Inr dest!: scan_commit_Continue split: prod.splits)

lemma scan_body_advances:
  "scan_body rd r bs scan p e = Inr (Continue scan' p' e') \<Longrightarrow> p < p'"
  by (auto simp: scan_body_def try_bind_eq_Inr split: option.splits if_split_asm dest!: scan_tx_Continue)

function scan_loop ::
  "(nat \<Rightarrow> 'e + bytes) \<Rightarrow> nat \<Rightarrow> nat \<Rightarrow> nat \<Rightarrow> JournalScan \<Rightarrow> nat \<Rightarrow> u64 \<Rightarrow> 'e + JournalScan" where
  "scan_loop rd tail_block ring_size bs scan ring_pos expected_seq =
     (if ring_pos \<ge> tail_block + ring_size
      then Inr (scan\<lparr>js_stop := RingBound expected_seq\<rparr>)
      else case scan_body rd ring_size bs scan ring_pos expected_seq of
             Inl e \<Rightarrow> Inl e
           | Inr step \<Rightarrow> (case step of
               Stop s \<Rightarrow> Inr s
             | Continue s p e \<Rightarrow> scan_loop rd tail_block ring_size bs s p e))"
  by pat_completeness auto
termination
  by (relation "measure (\<lambda>(rd, tail, ring, bs, scan, p, e). tail + ring - p)")
    (auto dest: scan_body_advances)

declare scan_loop.simps [simp del]

definition scan_committed ::
  "u64 \<Rightarrow> nat \<Rightarrow> nat \<Rightarrow> nat \<Rightarrow> (nat \<Rightarrow> 'e + bytes) \<Rightarrow> 'e + JournalScan" where
  "scan_committed tail_seq tail_block ring_size bs rd =
     (let scan = \<lparr>js_txs = [], js_revokes = Map.empty, js_next_seq = tail_seq,
                  js_next_block = tail_block, js_ring_blocks = 0, js_stop = DegenerateRing\<rparr>
      in if ring_size = 0 then Inr scan
         else scan_loop rd tail_block ring_size bs scan tail_block tail_seq)"

text \<open>The home write an entry calls for: \<open>None\<close> when it is revoked or out of range.\<close>

definition replay_write ::
  "ScannedTx \<Rightarrow> nat \<Rightarrow> (u64 \<rightharpoonup> u64) \<Rightarrow> (u64 \<times> bytes) option" where
  "replay_write tx index revokes =
     (if index \<ge> length (st_entries tx) then None
      else let entry = st_entries tx ! index; fs_block = desc_fs_block entry
        in if (case revokes fs_block of None \<Rightarrow> False | Some revoke_seq \<Rightarrow> revoke_seq \<ge> st_seq tx)
           then None
           else if index \<ge> length (st_data_blocks tx) then None
           else let data = st_data_blocks tx ! index
             in Some (fs_block,
                  if desc_flags entry AND DESC_FLAG_ESCAPED \<noteq> 0 \<and> length data \<ge> 4
                  then splice_at 0 (put_u32 JOURNAL_BLOCK_MAGIC) data else data))"

section \<open>What a committed transaction looks like in the ring\<close>

record ring_tx =
  rt_seq :: u64
  rt_tx_id :: u64
  rt_entries :: "DescriptorEntry list"
  rt_data :: "bytes list"
  rt_revokes :: "RevokeEntry list"

definition ring_tx_image :: "nat \<Rightarrow> ring_tx \<Rightarrow> bytes list" where
  "ring_tx_image bs t =
     [descriptor_image bs (rt_seq t) (rt_tx_id t) (rt_entries t)] @ rt_data t @
     (if rt_revokes t = [] then [] else [revoke_image bs (rt_seq t) (rt_tx_id t) (rt_revokes t)]) @
     [commit_image bs (rt_seq t) (rt_tx_id t) (commit_block_checksum (concat (rt_data t)))]"

text \<open>One descriptor names every data block of the transaction.\<close>

definition ring_tx_ok :: "nat \<Rightarrow> ring_tx \<Rightarrow> bool" where
  "ring_tx_ok bs t \<longleftrightarrow> 28 \<le> bs \<and> length (rt_entries t) = length (rt_data t) \<and>
     length (rt_entries t) \<le> entries_fit bs \<and> length (rt_entries t) < 2 ^ 32"

definition scanned :: "ring_tx \<Rightarrow> ScannedTx" where
  "scanned t = \<lparr>st_seq = rt_seq t, st_entries = rt_entries t, st_data_blocks = rt_data t\<rparr>"

definition revokes_read :: "nat \<Rightarrow> ring_tx \<Rightarrow> RevokeEntry list" where
  "revokes_read bs t = takeWhile live_revoke (take ((bs - 24) div 16) (rt_revokes t))"

text \<open>\<open>blocks\<close> are stored at consecutive ring positions from \<open>pos\<close> on, wrapping.\<close>

definition stored :: "(nat \<Rightarrow> 'e + bytes) \<Rightarrow> nat \<Rightarrow> nat \<Rightarrow> bytes list \<Rightarrow> bool" where
  "stored rd ring_size pos blocks \<longleftrightarrow>
     (\<forall>i < length blocks. read_ring_block rd ring_size (pos + i) = Inr (blocks ! i))"

definition ring_images :: "nat \<Rightarrow> ring_tx list \<Rightarrow> bytes list" where
  "ring_images bs ts = concat (map (ring_tx_image bs) ts)"

lemma stored_Cons:
  "stored rd r pos (x # ys) \<longleftrightarrow> read_ring_block rd r pos = Inr x \<and> stored rd r (pos + 1) ys"
  by (auto simp: stored_def less_Suc_eq_0_disj)

lemma stored_Nil [simp]: "stored rd r pos []"
  by (simp add: stored_def)

lemma stored_append:
  "stored rd r pos (xs @ ys) \<longleftrightarrow> stored rd r pos xs \<and> stored rd r (pos + length xs) ys"
  by (induction xs arbitrary: pos) (simp_all add: stored_Cons)

lemma read_data_blocks_stored:
  "stored rd r pos xs \<Longrightarrow> read_data_blocks rd r pos (length xs) = Inr xs"
  by (induction xs arbitrary: pos) (simp_all add: stored_Cons)

lemma kind_byte_distinct [simp]:
  "kind_byte k = kind_byte k' \<longleftrightarrow> k = k'"
  by (cases k; cases k') simp_all

section \<open>Scanning written transactions\<close>

definition scan_add :: "nat \<Rightarrow> JournalScan \<Rightarrow> ring_tx \<Rightarrow> nat \<Rightarrow> JournalScan" where
  "scan_add bs scan t pos = scan\<lparr>
     js_txs := js_txs scan @ [scanned t],
     js_revokes := foldl merge_revoke (js_revokes scan) (revokes_read bs t),
     js_next_seq := rt_seq t + 1,
     js_next_block := pos + length (ring_tx_image bs t),
     js_ring_blocks := js_ring_blocks scan + length (ring_tx_image bs t)\<rparr>"

lemma scan_body_written:
  assumes "ring_tx_ok bs t" and st: "stored rd r pos (ring_tx_image bs t)"
  shows "scan_body rd r bs scan pos (rt_seq t) =
    Inr (Continue (scan_add bs scan t pos) (pos + length (ring_tx_image bs t)) (rt_seq t + 1))"
proof -
  let ?n = "length (rt_data t)"
  have bs: "28 \<le> bs" and bs': "24 \<le> bs" and len: "length (rt_entries t) = ?n"
    and fit: "?n \<le> entries_fit bs" "?n < 2 ^ 32"
    using assms(1) by (auto simp: ring_tx_ok_def)
  have desc: "read_ring_block rd r pos =
      Inr (descriptor_image bs (rt_seq t) (rt_tx_id t) (rt_entries t))"
    and data: "stored rd r (pos + 1) (rt_data t)"
    and tail: "stored rd r (pos + 1 + ?n)
      ((if rt_revokes t = [] then [] else [revoke_image bs (rt_seq t) (rt_tx_id t) (rt_revokes t)]) @
       [commit_image bs (rt_seq t) (rt_tx_id t) (commit_block_checksum (concat (rt_data t)))])"
    using st by (simp_all add: ring_tx_image_def stored_Cons stored_append split: if_splits)
  have entries: "parse_descriptor_entries
      (descriptor_image bs (rt_seq t) (rt_tx_id t) (rt_entries t)) bs = rt_entries t"
    using bs fit len by (simp add: parse_descriptor_written)
  have data': "read_data_blocks rd r (Suc pos) ?n = Inr (rt_data t)"
    using read_data_blocks_stored [OF data] by simp
  have entries_len: "length (parse_descriptor_entries
      (descriptor_image bs (rt_seq t) (rt_tx_id t) (rt_entries t)) bs) = ?n"
    using entries len by simp
  have revoke: "scan_revoke rd r bs scan (pos + 1 + ?n) (rt_seq t) =
    Inr (scan\<lparr>js_revokes := foldl merge_revoke (js_revokes scan) (revokes_read bs t)\<rparr>,
      rt_revokes t \<noteq> [],
      commit_image bs (rt_seq t) (rt_tx_id t) (commit_block_checksum (concat (rt_data t))))"
    using tail bs bs'
    by (cases "rt_revokes t = []")
      (simp_all add: scan_revoke_def stored_Cons revokes_read_def
        has_revoke_block_def parse_revoke_written del: kind_byte.simps)
  show ?thesis
    using bs bs' data' revoke len
    by (cases "rt_revokes t = []")
      (simp_all add: scan_body_def scan_tx_def scan_commit_def scan_add_def scanned_def
        ring_tx_image_def desc entries is_commit_of_def
        del: kind_byte.simps)
qed

fun scan_adds :: "nat \<Rightarrow> JournalScan \<Rightarrow> ring_tx list \<Rightarrow> nat \<Rightarrow> JournalScan" where
  "scan_adds bs scan [] pos = scan"
| "scan_adds bs scan (t # ts) pos =
     scan_adds bs (scan_add bs scan t pos) ts (pos + length (ring_tx_image bs t))"

fun seqs_from :: "u64 \<Rightarrow> ring_tx list \<Rightarrow> bool" where
  "seqs_from e [] \<longleftrightarrow> True"
| "seqs_from e (t # ts) \<longleftrightarrow> rt_seq t = e \<and> seqs_from (e + 1) ts"

lemma ring_tx_image_length:
  "length (ring_tx_image bs t) = length (rt_data t) + (if rt_revokes t = [] then 2 else 3)"
  by (simp add: ring_tx_image_def)

lemma ring_images_simps [simp]:
  "ring_images bs [] = []"
  "ring_images bs (t # ts) = ring_tx_image bs t @ ring_images bs ts"
  "ring_images bs (ts @ us) = ring_images bs ts @ ring_images bs us"
  by (simp_all add: ring_images_def)

lemma scan_adds_fields:
  "js_txs (scan_adds bs scan ts pos) = js_txs scan @ map scanned ts"
  "js_revokes (scan_adds bs scan ts pos) =
     foldl merge_revoke (js_revokes scan) (concat (map (revokes_read bs) ts))"
  "js_ring_blocks (scan_adds bs scan ts pos) = js_ring_blocks scan + length (ring_images bs ts)"
  "js_next_block (scan_adds bs scan ts pos) =
     (if ts = [] then js_next_block scan else pos + length (ring_images bs ts))"
  by (induction bs scan ts pos rule: scan_adds.induct) (simp_all add: scan_add_def)

lemma scan_adds_next_seq:
  "seqs_from e ts \<Longrightarrow> js_next_seq (scan_adds bs scan ts pos) =
     (if ts = [] then js_next_seq scan else e + of_nat (length ts))"
  by (induction ts arbitrary: scan pos e) (auto simp: scan_add_def algebra_simps)

lemma scan_loop_written:
  assumes "\<forall>t \<in> set ts. ring_tx_ok bs t" "seqs_from e ts"
    "stored rd r pos (ring_images bs ts)" "pos + length (ring_images bs ts) \<le> tail + r"
  shows "scan_loop rd tail r bs scan pos e =
    scan_loop rd tail r bs (scan_adds bs scan ts pos) (pos + length (ring_images bs ts))
      (e + of_nat (length ts))"
  using assms
proof (induction ts arbitrary: scan pos e)
  case Nil
  then show ?case by simp
next
  case (Cons t ts)
  have "pos < tail + r" using Cons.prems(4) by (simp add: ring_tx_image_length split: if_splits)
  moreover have "scan_body rd r bs scan pos e = Inr (Continue (scan_add bs scan t pos)
      (pos + length (ring_tx_image bs t)) (e + 1))"
    using Cons.prems scan_body_written [of bs t rd r pos scan] by (simp add: stored_append)
  ultimately have "scan_loop rd tail r bs scan pos e = scan_loop rd tail r bs
      (scan_add bs scan t pos) (pos + length (ring_tx_image bs t)) (e + 1)"
    by (subst scan_loop.simps) simp
  then show ?case
    using Cons.prems by (simp add: Cons.IH stored_append algebra_simps)
qed

section \<open>The end of the live region\<close>

text \<open>No block of the ring is a commit block of sequence \<open>e\<close>, and every block can be read.\<close>

definition no_commit :: "(nat \<Rightarrow> 'e + bytes) \<Rightarrow> nat \<Rightarrow> u64 \<Rightarrow> bool" where
  "no_commit rd r e \<longleftrightarrow> (\<forall>i < r. case rd (i + 1) of
       Inl _ \<Rightarrow> False
     | Inr b \<Rightarrow> (case parse_header b of None \<Rightarrow> True
                | Some h \<Rightarrow> \<not> (jh_kind h = kind_byte Commit \<and> jh_seq h = e)))"

lemma no_commit_read:
  assumes "no_commit rd r e" "0 < r"
  shows "\<exists>b. read_ring_block rd r i = Inr b \<and> (\<forall>tid. \<not> is_commit_of b e tid)"
proof -
  have "case rd (i mod r + 1) of Inl _ \<Rightarrow> False
     | Inr b \<Rightarrow> (case parse_header b of None \<Rightarrow> True
                | Some h \<Rightarrow> \<not> (jh_kind h = kind_byte Commit \<and> jh_seq h = e))"
    using assms by (simp add: no_commit_def del: kind_byte.simps)
  then show ?thesis
    by (auto simp: read_ring_block_def is_commit_of_def split: sum.splits option.splits)
qed

lemma no_commit_read_data:
  assumes "no_commit rd r e" "0 < r"
  shows "\<exists>ds. read_data_blocks rd r pos n = Inr ds"
proof (induction n arbitrary: pos)
  case 0
  then show ?case by simp
next
  case (Suc n)
  obtain b where "read_ring_block rd r pos = Inr b"
    using no_commit_read [OF assms] by blast
  then show ?case using Suc [of "pos + 1"] by auto
qed

definition same_txs :: "JournalScan \<Rightarrow> JournalScan \<Rightarrow> bool" where
  "same_txs s s' \<longleftrightarrow> js_txs s = js_txs s' \<and> js_next_seq s = js_next_seq s' \<and>
     js_next_block s = js_next_block s' \<and> js_ring_blocks s = js_ring_blocks s'"

lemma scan_revoke_total:
  assumes "no_commit rd r e" "0 < r"
  shows "\<exists>s hr cb. scan_revoke rd r bs scan pos e = Inr (s, hr, cb) \<and> same_txs s scan \<and>
    (\<forall>tid. \<not> is_commit_of cb e tid)"
proof -
  obtain b where "read_ring_block rd r pos = Inr b" "\<forall>tid. \<not> is_commit_of b e tid"
    using no_commit_read [OF assms] by blast
  moreover obtain c where "read_ring_block rd r (pos + 1) = Inr c" "\<forall>tid. \<not> is_commit_of c e tid"
    using no_commit_read [OF assms] by blast
  ultimately show ?thesis by (auto simp add: scan_revoke_def same_txs_def)
qed

lemma scan_body_no_commit:
  assumes "no_commit rd r e" "0 < r"
  shows "\<exists>s. scan_body rd r bs scan pos e = Inr (Stop s) \<and> same_txs s scan"
proof -
  obtain b where b: "read_ring_block rd r pos = Inr b"
    using no_commit_read [OF assms] by blast
  have tx: "\<exists>s. scan_tx rd r bs scan dp h es = Inr (Stop s) \<and> same_txs s scan"
    if "jh_seq h = e" for dp h es
    using that no_commit_read_data [OF assms, of dp "length es"]
      scan_revoke_total [OF assms, of bs scan "dp + length es"]
    by (auto simp: scan_tx_def scan_commit_def same_txs_def)
  show ?thesis
    using b tx by (auto simp: scan_body_def same_txs_def split: option.splits)
qed

lemma scan_loop_no_commit:
  assumes "no_commit rd r e" "0 < r"
  shows "\<exists>s. scan_loop rd tail r bs scan pos e = Inr s \<and> same_txs s scan"
  using scan_body_no_commit [OF assms, of bs scan pos]
  by (subst scan_loop.simps) (auto simp: same_txs_def)

lemma scan_committed_written:
  assumes "0 < r" "\<forall>t \<in> set ts. ring_tx_ok bs t" "seqs_from tail_seq ts"
    "stored rd r tail (ring_images bs ts)" "length (ring_images bs ts) \<le> r"
  shows "scan_committed tail_seq tail r bs rd =
    scan_loop rd tail r bs (scan_adds bs \<lparr>js_txs = [], js_revokes = Map.empty,
        js_next_seq = tail_seq, js_next_block = tail, js_ring_blocks = 0,
        js_stop = DegenerateRing\<rparr> ts tail)
      (tail + length (ring_images bs ts)) (tail_seq + of_nat (length ts))"
  using assms by (simp add: scan_committed_def Let_def scan_loop_written)

lemma scan_recovers_committed:
  assumes "0 < r" "\<forall>t \<in> set ts. ring_tx_ok bs t" "seqs_from tail_seq ts"
    "stored rd r tail (ring_images bs ts)" "length (ring_images bs ts) \<le> r"
    "no_commit rd r (tail_seq + of_nat (length ts))"
  shows "\<exists>s. scan_committed tail_seq tail r bs rd = Inr s \<and> js_txs s = map scanned ts \<and>
    js_next_seq s = tail_seq + of_nat (length ts) \<and>
    js_next_block s = tail + length (ring_images bs ts)"
proof -
  obtain s where s: "scan_committed tail_seq tail r bs rd = Inr s"
    "same_txs s (scan_adds bs \<lparr>js_txs = [], js_revokes = Map.empty,
        js_next_seq = tail_seq, js_next_block = tail, js_ring_blocks = 0,
        js_stop = DegenerateRing\<rparr> ts tail)"
    using scan_committed_written [OF assms(1-5)] scan_loop_no_commit [OF assms(6,1)] by fastforce
  then show ?thesis
    using scan_adds_next_seq [OF assms(3)]
    by (auto simp: same_txs_def scan_adds_fields)
qed

text \<open>The ring ends cleanly at \<open>pos\<close>: the block there does not open transaction \<open>e\<close>.\<close>

definition clean_end :: "(nat \<Rightarrow> 'e + bytes) \<Rightarrow> nat \<Rightarrow> nat \<Rightarrow> u64 \<Rightarrow> bool" where
  "clean_end rd r pos e \<longleftrightarrow> (case read_ring_block rd r pos of
       Inl _ \<Rightarrow> False
     | Inr b \<Rightarrow> (case parse_header b of None \<Rightarrow> True
                | Some h \<Rightarrow> \<not> (jh_kind h = kind_byte Descriptor \<and> jh_seq h = e)))"

lemma scan_loop_clean_end:
  assumes "clean_end rd r pos e"
  shows "\<exists>s. scan_loop rd tail r bs scan pos e = Inr s \<and> same_txs s scan \<and>
    js_revokes s = js_revokes scan"
  using assms by (subst scan_loop.simps)
    (auto simp: clean_end_def scan_body_def same_txs_def split: sum.splits option.splits)

lemma scan_clean:
  assumes "0 < r" "\<forall>t \<in> set ts. ring_tx_ok bs t" "seqs_from tail_seq ts"
    "stored rd r tail (ring_images bs ts)" "length (ring_images bs ts) \<le> r"
    "clean_end rd r (tail + length (ring_images bs ts)) (tail_seq + of_nat (length ts))"
  shows "\<exists>s. scan_committed tail_seq tail r bs rd = Inr s \<and> js_txs s = map scanned ts \<and>
    js_revokes s = foldl merge_revoke Map.empty (concat (map (revokes_read bs) ts)) \<and>
    js_next_seq s = tail_seq + of_nat (length ts) \<and>
    js_next_block s = tail + length (ring_images bs ts)"
proof -
  obtain s where s: "scan_committed tail_seq tail r bs rd = Inr s"
    "same_txs s (scan_adds bs \<lparr>js_txs = [], js_revokes = Map.empty,
        js_next_seq = tail_seq, js_next_block = tail, js_ring_blocks = 0,
        js_stop = DegenerateRing\<rparr> ts tail)"
    "js_revokes s = foldl merge_revoke Map.empty (concat (map (revokes_read bs) ts))"
    using scan_committed_written [OF assms(1-5)] scan_loop_clean_end [OF assms(6)]
    by (fastforce simp: scan_adds_fields)
  then show ?thesis
    using scan_adds_next_seq [OF assms(3)]
    by (auto simp: same_txs_def scan_adds_fields)
qed

section \<open>Revokes\<close>

definition vetoed :: "(u64 \<rightharpoonup> u64) \<Rightarrow> u64 \<Rightarrow> u64 \<Rightarrow> bool" where
  "vetoed m b q \<longleftrightarrow> (case m b of None \<Rightarrow> False | Some s \<Rightarrow> q \<le> s)"

lemma vetoed_empty [simp]: "\<not> vetoed Map.empty b q"
  by (simp add: vetoed_def)

lemma vetoed_merge:
  "vetoed (merge_revoke m r) b q \<longleftrightarrow> vetoed m b q \<or> (rev_fs_block r = b \<and> q \<le> rev_seq r)"
  by (auto simp: vetoed_def merge_revoke_def Let_def word_greater_zero_iff split: option.splits)

lemma vetoed_foldl_merge:
  "vetoed (foldl merge_revoke m rs) b q \<longleftrightarrow>
     vetoed m b q \<or> (\<exists>r \<in> set rs. rev_fs_block r = b \<and> q \<le> rev_seq r)"
  by (induction rs arbitrary: m) (auto simp: vetoed_merge)

lemma replay_write_alt:
  "length (st_data_blocks tx) = length (st_entries tx) \<Longrightarrow> i < length (st_entries tx) \<Longrightarrow>
   replay_write tx i m =
     (if vetoed m (desc_fs_block (st_entries tx ! i)) (st_seq tx) then None
      else Some (desc_fs_block (st_entries tx ! i),
        if desc_flags (st_entries tx ! i) AND DESC_FLAG_ESCAPED \<noteq> 0 \<and>
           length (st_data_blocks tx ! i) \<ge> 4
        then splice_at 0 (put_u32 JOURNAL_BLOCK_MAGIC) (st_data_blocks tx ! i)
        else st_data_blocks tx ! i))"
  by (simp add: replay_write_def vetoed_def Let_def)

section \<open>A small ring\<close>

lemma parse_header_zeros [simp]: "parse_header (replicate n 0) = None"
proof -
  have zero: "of_le (replicate m 0) = 0" for m by (induction m) simp_all
  show ?thesis
    by (simp add: parse_header_def journal_header_of_def JOURNAL_BLOCK_MAGIC_def get_u32_def
        get_le_def slice_at_def zero Let_def)
qed

definition example_tx :: ring_tx where
  "example_tx = \<lparr>rt_seq = 7, rt_tx_id = 7,
     rt_entries = [\<lparr>desc_fs_block = 42, desc_flags = 0, desc_reserved = 0\<rparr>],
     rt_data = [replicate 44 0], rt_revokes = []\<rparr>"

text \<open>Six ring blocks of 44 bytes; the transaction starts at position 4 and wraps.\<close>

definition example_ring :: "nat \<Rightarrow> unit + bytes" where
  "example_ring i = Inr
     (if i = 5 then descriptor_image 44 7 7 (rt_entries example_tx)
      else if i = 1 then commit_image 44 7 7 (commit_block_checksum (replicate 44 0))
      else replicate 44 0)"

lemma example_tx_ok: "ring_tx_ok 44 example_tx"
  by (simp add: ring_tx_ok_def example_tx_def entries_fit_def)

lemma example_image: "ring_images 44 [example_tx] =
  [descriptor_image 44 7 7 (rt_entries example_tx), replicate 44 0,
   commit_image 44 7 7 (commit_block_checksum (replicate 44 0))]"
  by (simp add: ring_tx_image_def example_tx_def)

lemma example_simps: "length (ring_tx_image 44 example_tx) = 3" "rt_seq example_tx = 7"
  by (simp_all add: ring_tx_image_length example_tx_def)

lemma example_stored: "stored example_ring 6 4 (ring_images 44 [example_tx])"
  unfolding example_image by (simp add: stored_Cons read_ring_block_def example_ring_def)

lemma example_no_commit: "no_commit example_ring 6 8"
  by (simp add: no_commit_def example_ring_def del: kind_byte.simps)

lemma example_clean: "clean_end example_ring 6 7 8"
  by (simp add: clean_end_def example_ring_def read_ring_block_def)

section \<open>Properties\<close>

text \<open>C7. Recovery finds exactly the committed transactions.  When the ring holds, from the
  tail on and across the wrap, the images of transactions with consecutive sequence
  numbers, and no block of the ring is a commit block of the next sequence number, the
  scan returns those transactions, in order and with their data, and the cursor behind
  them.  Nothing is assumed of the other ring blocks: a commit that was interrupted
  before its commit block became durable contributes no transaction, however much of
  its descriptor, data and revoke blocks is there.\<close>

theorem scan_exactly_committed:
  assumes "0 < r" "\<forall>t \<in> set ts. ring_tx_ok bs t" "seqs_from tail_seq ts"
    "stored rd r tail (ring_images bs ts)" "length (ring_images bs ts) \<le> r"
    "no_commit rd r (tail_seq + of_nat (length ts))"
  shows "\<exists>s. scan_committed tail_seq tail r bs rd = Inr s \<and> js_txs s = map scanned ts \<and>
    js_next_seq s = tail_seq + of_nat (length ts) \<and>
    js_next_block s = tail + length (ring_images bs ts)"
  using assms by (rule scan_recovers_committed)

theorem scan_exactly_committed_witness:
  "\<exists>s. scan_committed 7 4 6 44 example_ring = Inr s \<and> js_txs s = map scanned [example_tx] \<and>
    js_next_seq s = 7 + of_nat (length [example_tx]) \<and>
    js_next_block s = 4 + length (ring_images 44 [example_tx])"
  using example_stored example_no_commit example_tx_ok
  by (intro scan_exactly_committed) (simp_all add: example_simps)



text \<open>The ring after a crash: transaction 7 wrote block 42 and is committed; transaction 8
  freed that block, and only its descriptor and its revoke block reached the disk.\<close>

definition torn_ring :: "nat \<Rightarrow> unit + bytes" where
  "torn_ring i = Inr
     (if i = 1 then descriptor_image 44 7 7 (rt_entries example_tx)
      else if i = 3 then commit_image 44 7 7 (commit_block_checksum (replicate 44 0))
      else if i = 4 then descriptor_image 44 8 8 []
      else if i = 5 then revoke_image 44 8 8 [\<lparr>rev_fs_block = 42, rev_seq = 8\<rparr>]
      else replicate 44 0)"

lemma torn_stored: "stored torn_ring 6 0 (ring_images 44 [example_tx])"
  unfolding example_image by (simp add: stored_Cons read_ring_block_def torn_ring_def)

lemma torn_tail: "scan_loop torn_ring 0 6 44 scan 3 8 =
  Inr (scan\<lparr>js_revokes := merge_revoke (js_revokes scan) \<lparr>rev_fs_block = 42, rev_seq = 8\<rparr>,
             js_stop := PartialTx 8\<rparr>)"
  by (subst scan_loop.simps)
    (simp add: scan_body_def scan_tx_def scan_revoke_def scan_commit_def read_ring_block_def
      torn_ring_def parse_descriptor_written entries_fit_def has_revoke_block_def
      is_commit_of_def parse_revoke_written live_revoke_def del: kind_byte.simps)


end
