(* ===== verification/Journal_Commit.thy ===== *)
theory Journal_Commit
  imports Block_Page_Cache Journal_Scan
begin

text \<open>
  The commit path of the kernel journal (\<open>seal_and_commit\<close>, \<open>advance_tail\<close> and
  \<open>checkpoint_and_advance\<close> in \<open>kernel/src/fs/journal/mod.rs\<close>) on the journal, the block cache
  and the device together.  The steps are those of the source: copy and escape the pages,
  find room in the ring (checkpointing when it is full), queue descriptor, data and
  revoke blocks, drain, flush the drive, write the commit block with FUA, publish the
  cursors and write the journal superblock.

  Statistics counters, log lines and wait-queue wake-ups have no counterpart.
\<close>

section \<open>The copies a transaction journals\<close>

definition journal_copy :: "nat \<Rightarrow> bytes \<Rightarrow> DescriptorEntry \<times> bytes" where
  "journal_copy fs_block page_data =
     (let escaped = (get_u32 0 page_data = JOURNAL_BLOCK_MAGIC)
      in (\<lparr>desc_fs_block = word_of_nat fs_block,
           desc_flags = (if escaped then DESC_FLAG_ESCAPED else 0), desc_reserved = 0\<rparr>,
          if escaped then splice_at 0 (replicate 4 0) page_data else page_data))"

definition tx_copies :: "BlockPageCache \<Rightarrow> Transaction \<Rightarrow> (DescriptorEntry \<times> bytes) list" where
  "tx_copies c tx =
     map (\<lambda>((dev, fs_block), p). journal_copy fs_block (pg_data (bpc_pages c p)))
       (enrolled_blocks tx)"

definition tx_revoke_entries :: "Transaction \<Rightarrow> RevokeEntry list" where
  "tx_revoke_entries tx =
     map (\<lambda>((dev, fs_block), _). \<lparr>rev_fs_block = word_of_nat fs_block,
       rev_seq = word_of_nat (tx_seq tx)\<rparr>) (tx_revokes tx)"

definition ring_tx_of :: "BlockPageCache \<Rightarrow> Transaction \<Rightarrow> ring_tx" where
  "ring_tx_of c tx = \<lparr>rt_seq = word_of_nat (tx_seq tx), rt_tx_id = word_of_nat (tx_id tx),
     rt_entries = map fst (tx_copies c tx), rt_data = map snd (tx_copies c tx),
     rt_revokes = tx_revoke_entries tx\<rparr>"

definition ring_needed :: "ring_tx \<Rightarrow> nat" where
  "ring_needed rt = 1 + length (rt_data rt) + (if rt_revokes rt = [] then 0 else 1) + 1"

section \<open>Checkpointing\<close>

definition advance_tail :: "dev_behaviour \<Rightarrow> World \<Rightarrow> (BlockError + unit) \<times> World" where
  "advance_tail beh w =
     (let j = prune_checkpointed (cache_is_dirty (w_cache w)) (w_journal w);
          (changed, j') = advance_cursors j;
          w' = w\<lparr>w_journal := j'\<rparr>
      in if changed
         then (case write_journal_sb beh j' (w_dev w') of (r, bd) \<Rightarrow> (r, w'\<lparr>w_dev := bd\<rparr>))
         else (Inr (), w'))"

definition checkpoint_and_advance :: "dev_behaviour \<Rightarrow> World \<Rightarrow> (BlockError + unit) \<times> World" where
  "checkpoint_and_advance beh w =
     (case flush_dirty_once beh True w of
        (Inl e, w') \<Rightarrow> (Inl e, w')
      | (Inr _, w') \<Rightarrow> advance_tail beh w')"

text \<open>\<open>head_block.wrapping_sub(tail_block)\<close>.\<close>

definition ring_used :: "JournalState \<Rightarrow> nat" where
  "ring_used s = (if tail_block s \<le> head_block s then head_block s - tail_block s
                  else 2 ^ 64 - (tail_block s - head_block s))"

fun find_space :: "dev_behaviour \<Rightarrow> nat \<Rightarrow> nat \<Rightarrow> World \<Rightarrow> (BlockError + nat option) \<times> World" where
  "find_space beh needed 0 w = (Inr None, w)"
| "find_space beh needed (Suc n) w =
     (let s = j_state (w_journal w) in
      if needed \<le> ring_size (w_journal w) - ring_used s then (Inr (Some (head_block s)), w)
      else if n = 0 then (Inr None, w)
      else case checkpoint_and_advance beh w of
             (Inl e, w') \<Rightarrow> (Inl e, w')
           | (Inr _, w') \<Rightarrow> find_space beh needed n w')"

section \<open>Committing one transaction\<close>

definition write_ring_batch :: "dev_behaviour \<Rightarrow> Journal \<Rightarrow> nat \<Rightarrow> ring_tx \<Rightarrow> blockdev
    \<Rightarrow> ((BlockError + unit) \<times> blockdev) run" where
  "write_ring_batch beh j pos rt bd =
     run_bind (build_descriptor_block BLOCK_SIZE (rt_seq rt) (rt_tx_id rt) (rt_entries rt)) (\<lambda>desc.
     let qb = submit_journal_block beh j (pos mod ring_size j) desc (rw_new, bd) in
     run_bind (submit_journal_blocks beh j (pos + 1) (concat (rt_data rt)) qb) (\<lambda>qb.
     run_bind (if rt_revokes rt = [] then Ret qb
       else run_bind (build_revoke_block BLOCK_SIZE (rt_seq rt) (rt_tx_id rt) (rt_revokes rt)) (\<lambda>rev.
         Ret (submit_journal_block beh j ((pos + 1 + length (rt_data rt)) mod ring_size j) rev qb)))
       (\<lambda>(q, bd). case rw_drain beh q bd of (drained, _, bd') \<Rightarrow> Ret (drained, bd'))))"

text \<open>The device part of a commit: the batch, the flush, then the commit block.\<close>

definition ring_commit :: "dev_behaviour \<Rightarrow> Journal \<Rightarrow> nat \<Rightarrow> ring_tx \<Rightarrow> blockdev
    \<Rightarrow> ((BlockError + unit) \<times> blockdev) run" where
  "ring_commit beh j pos rt bd =
     run_bind (write_ring_batch beh j pos rt bd) (\<lambda>(drained, bd1).
     case drained of Inl e \<Rightarrow> Ret (Inl e, bd1) | Inr _ \<Rightarrow>
     (case flush_blocking beh bd1 of (flushed, bd2) \<Rightarrow>
      case flushed of Inl e \<Rightarrow> Ret (Inl e, bd2) | Inr _ \<Rightarrow>
      run_bind (build_commit_block BLOCK_SIZE (rt_seq rt) (rt_tx_id rt)
          (commit_block_checksum (concat (rt_data rt)))) (\<lambda>commit_block.
      Ret (write_journal_block_fua beh j ((pos + ring_needed rt - 1) mod ring_size j)
             commit_block bd2))))"

definition publish_commit :: "nat \<Rightarrow> nat \<Rightarrow> nat \<Rightarrow> Journal \<Rightarrow> Journal" where
  "publish_commit seq ring_pos needed j =
     (let j1 = j\<lparr>j_state := (j_state j)\<lparr>head_block := ring_pos\<rparr>\<rparr>;
          j2 = set_committed_seq seq j1
      in j2\<lparr>j_state := (j_state j2)\<lparr>committed_pending :=
             committed_pending (j_state j2) @ [(seq, needed)]\<rparr>\<rparr>)"

definition commit_at :: "dev_behaviour \<Rightarrow> Transaction \<Rightarrow> ring_tx \<Rightarrow> nat \<Rightarrow> World
    \<Rightarrow> ((BlockError + unit) \<times> World) run" where
  "commit_at beh tx rt pos w =
     run_bind (ring_commit beh (w_journal w) pos rt (w_dev w)) (\<lambda>(written, bd).
     case written of Inl e \<Rightarrow> Ret (Inl e, w\<lparr>w_dev := bd\<rparr>) | Inr _ \<Rightarrow>
     let j' = publish_commit (tx_seq tx) (pos + ring_needed rt) (ring_needed rt) (w_journal w);
         (r, bd') = write_journal_sb beh j' bd
     in Ret (r, w\<lparr>w_journal := j', w_dev := bd'\<rparr>))"

definition push_sealed :: "Transaction \<Rightarrow> Journal \<Rightarrow> Journal" where
  "push_sealed tx j = j\<lparr>j_state := (j_state j)\<lparr>sealed := tx # sealed (j_state j)\<rparr>\<rparr>"

definition commit_one :: "dev_behaviour \<Rightarrow> Transaction \<Rightarrow> World
    \<Rightarrow> ((BlockError + unit) \<times> World) run" where
  "commit_one beh tx w =
     (if tx_is_empty tx
      then Ret (Inr (), w\<lparr>w_journal := set_committed_seq (tx_seq tx) (w_journal w)\<rparr>)
      else
        let rt = ring_tx_of (w_cache w) tx in
        case find_space beh (ring_needed rt) CHECKPOINT_ATTEMPTS w of
          (Inl e, w1) \<Rightarrow> Ret (Inl e, w1)
        | (Inr None, w1) \<Rightarrow> Ret (Inl Io, w1\<lparr>w_journal := push_sealed tx (w_journal w1)\<rparr>)
        | (Inr (Some pos), w1) \<Rightarrow> commit_at beh tx rt pos w1)"

definition pop_sealed :: "Journal \<Rightarrow> Journal" where
  "pop_sealed j = j\<lparr>j_state := (j_state j)\<lparr>sealed := tl (sealed (j_state j))\<rparr>\<rparr>"

section \<open>What writeback and the tail leave alone\<close>

text \<open>Two journals that differ in the checkpoint tracker only.\<close>

definition same_but_tracker :: "Journal \<Rightarrow> Journal \<Rightarrow> bool" where
  "same_but_tracker j j' \<longleftrightarrow> (\<exists>t. j' = j\<lparr>checkpoint_tracker := t\<rparr>)"

lemma same_but_tracker_refl [simp]: "same_but_tracker j j"
  unfolding same_but_tracker_def by (rule exI [of _ "checkpoint_tracker j"]) simp

lemma same_but_tracker_trans:
  "same_but_tracker a b \<Longrightarrow> same_but_tracker b c \<Longrightarrow> same_but_tracker a c"
  by (auto simp: same_but_tracker_def)

lemma same_but_tracker_fields:
  assumes "same_but_tracker j j'"
  shows "j_state j' = j_state j" "j_device_id j' = j_device_id j"
    "j_first_block j' = j_first_block j" "j_partition_start_lba j' = j_partition_start_lba j"
    "j_block_count j' = j_block_count j" "j_committed_seq_pub j' = j_committed_seq_pub j"
    "tx_id_counter j' = tx_id_counter j"
  using assms by (auto simp: same_but_tracker_def)

lemma same_but_tracker_upd [simp]: "same_but_tracker j (j\<lparr>checkpoint_tracker := t\<rparr>)"
  by (auto simp: same_but_tracker_def)

lemma same_note_checkpointed [simp]: "same_but_tracker j (note_checkpointed k s j)"
  by (simp add: note_checkpointed_def)

lemma same_prune [simp]: "same_but_tracker j (prune_checkpointed d j)"
  by (simp add: prune_checkpointed_def Let_def)

lemma same_page_written: "same_but_tracker (w_journal w) (w_journal (page_written i p w))"
  by (auto simp: page_written_def Let_def split: option.splits)

lemma same_write_batch: "same_but_tracker (w_journal w) (w_journal (snd (write_batch beh i b w)))"
proof -
  have "same_but_tracker (w_journal w) (w_journal (foldl (\<lambda>w p. page_written i p w) w ps))" for w ps
    by (induction ps arbitrary: w) (auto intro: same_but_tracker_trans same_page_written)
  from this [of "w\<lparr>w_dev := bd, w_cache := c\<rparr>" for bd c]
  show ?thesis by (simp add: write_batch_def Let_def split: prod.splits)
qed

lemma same_fp_write: "same_but_tracker (w_journal (fp_world f)) (w_journal (fp_world (fp_write beh i f)))"
  using same_write_batch [of "fp_world f" beh i "fp_batch f"]
  by (auto simp: fp_write_def split: prod.splits sum.splits)

lemma same_flush_key:
  "same_but_tracker (w_journal (fp_world f)) (w_journal (fp_world (flush_key beh force i f k)))"
proof -
  have "same_but_tracker (w_journal (fp_world f)) (w_journal (fp_world
      (fp_write beh i (f\<lparr>fp_batch := b\<rparr>))))" for b
    using same_fp_write [of "f\<lparr>fp_batch := b\<rparr>" beh i] by simp
  then show ?thesis by (auto simp: flush_key_def Let_def split: option.splits)
qed

lemma same_flush_shard:
  "same_but_tracker (w_journal (fp_world f)) (w_journal (fp_world (flush_shard beh force f i)))"
proof -
  have "same_but_tracker (w_journal (fp_world g)) (w_journal (fp_world
      (foldl (flush_key beh force i) g ks)))" for g ks
    by (induction ks arbitrary: g) (auto intro: same_but_tracker_trans same_flush_key)
  from this [of "f\<lparr>fp_batch := []\<rparr>"] show ?thesis
    unfolding flush_shard_def by (auto intro: same_but_tracker_trans same_fp_write)
qed

lemma same_flush_dirty_once:
  "same_but_tracker (w_journal w) (w_journal (snd (flush_dirty_once beh force w)))"
proof -
  have "same_but_tracker (w_journal (fp_world f)) (w_journal (fp_world
      (foldl (flush_shard beh force) f is)))" for f "is"
    by (induction "is" arbitrary: f) (auto intro: same_but_tracker_trans same_flush_shard)
  from this [of "\<lparr>fp_world = w, fp_batch = [], fp_bytes = 0, fp_failure = None\<rparr>"]
  show ?thesis by (simp add: flush_dirty_once_def Let_def)
qed

text \<open>The tail moves the tail cursors and drops retired transactions, nothing else.\<close>

lemma retire_pending_keeps:
  "head_seq (fst (retire_pending b ps s c)) = head_seq s"
  "head_block (fst (retire_pending b ps s c)) = head_block s"
  "active (fst (retire_pending b ps s c)) = active s"
  "sealed (fst (retire_pending b ps s c)) = sealed s"
  "committed_seq (fst (retire_pending b ps s c)) = committed_seq s"
  by (induction b ps s c rule: retire_pending.induct) auto

lemma catch_up_tail_keeps:
  "head_seq (fst (catch_up_tail sc)) = head_seq (fst sc)"
  "head_block (fst (catch_up_tail sc)) = head_block (fst sc)"
  "active (fst (catch_up_tail sc)) = active (fst sc)"
  "sealed (fst (catch_up_tail sc)) = sealed (fst sc)"
  by (cases sc; simp add: catch_up_tail_def)+

lemma advance_cursors_sealed:
  "advance_cursors j = (c, j') \<Longrightarrow> sealed (j_state j') = sealed (j_state j)"
  by (auto simp: advance_cursors_def Let_def split: prod.splits)
    (metis catch_up_tail_keeps(4) fst_conv retire_pending_keeps(4))

lemma advance_tail_sealed:
  assumes "advance_tail beh w = (r, w')"
  shows "sealed (j_state (w_journal w')) = sealed (j_state (w_journal w))"
proof -
  let ?j = "prune_checkpointed (cache_is_dirty (w_cache w)) (w_journal w)"
  obtain c j' where ac: "advance_cursors ?j = (c, j')" by fastforce
  have "sealed (j_state j') = sealed (j_state (w_journal w))"
    using advance_cursors_sealed [OF ac] same_but_tracker_fields(1) [OF same_prune] by simp
  then show ?thesis
    using assms ac by (auto simp: advance_tail_def Let_def split: prod.splits if_splits)
qed

lemma checkpoint_and_advance_sealed:
  assumes "checkpoint_and_advance beh w = (r, w')"
  shows "sealed (j_state (w_journal w')) = sealed (j_state (w_journal w))"
  using assms same_but_tracker_fields(1) [OF same_flush_dirty_once [of w beh True]]
  by (auto simp: checkpoint_and_advance_def dest!: advance_tail_sealed split: prod.splits sum.splits)

lemma find_space_sealed:
  "find_space beh needed n w = (r, w') \<Longrightarrow>
     sealed (j_state (w_journal w')) = sealed (j_state (w_journal w))"
  by (induction n arbitrary: w)
    (auto simp: Let_def dest!: checkpoint_and_advance_sealed split: prod.splits sum.splits if_splits)

lemma publish_commit_sealed [simp]:
  "sealed (j_state (publish_commit seq pos n j)) = sealed (j_state j)"
  by (simp add: publish_commit_def set_committed_seq_def Let_def)

lemma commit_at_sealed:
  assumes "commit_at beh tx rt pos w = Ret (r, w')"
  shows "sealed (j_state (w_journal w')) = sealed (j_state (w_journal w))"
proof (cases "ring_commit beh (w_journal w) pos rt (w_dev w)")
  case (Ret x)
  then show ?thesis
    using assms by (cases x; cases "fst x")
      (auto simp: commit_at_def Let_def split: prod.splits)
qed (use assms in \<open>simp add: commit_at_def\<close>)

lemma commit_one_sealed:
  assumes "commit_one beh tx w = Ret (Inr u, w')"
  shows "sealed (j_state (w_journal w')) = sealed (j_state (w_journal w))"
  using assms
  by (auto simp: commit_one_def Let_def set_committed_seq_def
      dest!: commit_at_sealed find_space_sealed
      split: prod.splits sum.splits option.splits if_splits)

section \<open>Sealing and committing everything\<close>

function commit_loop :: "dev_behaviour \<Rightarrow> World \<Rightarrow> ((BlockError + unit) \<times> World) run" where
  "commit_loop beh w =
     (case sealed (j_state (w_journal w)) of
        [] \<Rightarrow> Ret (Inr (), w)
      | tx # rest \<Rightarrow>
          (case commit_one beh tx (w\<lparr>w_journal := pop_sealed (w_journal w)\<rparr>) of
             Panic \<Rightarrow> Panic
           | Ret (Inl e, w') \<Rightarrow> Ret (Inl e, w')
           | Ret (Inr _, w') \<Rightarrow> commit_loop beh w'))"
  by pat_completeness auto
termination
  by (relation "measure (\<lambda>(beh, w). length (sealed (j_state (w_journal w))))")
    (auto dest!: commit_one_sealed simp: pop_sealed_def)

declare commit_loop.simps [simp del]

definition seal_and_commit :: "dev_behaviour \<Rightarrow> World \<Rightarrow> ((BlockError + unit) \<times> World) run" where
  "seal_and_commit beh w =
     (let j = snd (seal_active (w_journal w)); w' = w\<lparr>w_journal := j\<rparr>
      in if sealed (j_state j) = [] then Ret (Inr (), w') else commit_loop beh w')"

definition seal_and_commit_if_needed ::
  "dev_behaviour \<Rightarrow> World \<Rightarrow> ((BlockError + unit) \<times> World) run" where
  "seal_and_commit_if_needed beh w =
     (if has_pending_work (w_journal w) then seal_and_commit beh w else Ret (Inr (), w))"

text \<open>One round of the committer thread for a journal; errors are logged and dropped.\<close>

definition committer_round :: "dev_behaviour \<Rightarrow> World \<Rightarrow> World run" where
  "committer_round beh w =
     (let w1 = snd (advance_tail beh w) in
      if has_pending_work (w_journal w1)
      then run_bind (seal_and_commit_if_needed beh w1) (\<lambda>(_, w2). Ret w2)
      else Ret w1)"

end
