(* ===== verification/Journal_Recovery.thy ===== *)
theory Journal_Recovery
  imports Journal_Commit
begin

text \<open>
  Mount-time recovery (\<open>kernel/src/fs/journal/replay.rs\<close> and the journal part of
  \<open>EfsDriver::new\<close>) and the crash theorem of the journal: whatever the device answers during
  a commit and whichever cached sectors a power cut keeps, recovery finds the
  transactions that were committed before, or those and the new one.
\<close>

section \<open>Reading the journal region\<close>

definition region_block :: "Journal \<Rightarrow> sectors \<Rightarrow> nat \<Rightarrow> bytes" where
  "region_block j p i =
     get_sectors (j_partition_start_lba j + (j_first_block j + i) * SECTORS_PER_BLOCK) 8 p"

definition region_read :: "Journal \<Rightarrow> sectors \<Rightarrow> nat \<Rightarrow> BlockError + bytes" where
  "region_read j p i = Inr (region_block j p i)"

definition ring_block :: "Journal \<Rightarrow> sectors \<Rightarrow> nat \<Rightarrow> bytes" where
  "ring_block j p i = get_sectors (journal_block_lba j i) 8 p"

lemma read_ring_region: "read_ring_block (region_read j p) (ring_size j) i = Inr (ring_block j p i)"
  by (simp add: read_ring_block_def region_read_def region_block_def ring_block_def
      journal_block_lba_def)

lemma region_block_ring: "i < ring_size j \<Longrightarrow> region_block j p (i + 1) = ring_block j p i"
  by (simp add: region_block_def ring_block_def journal_block_lba_def)

lemma stored_region:
  "stored (region_read j p) (ring_size j) pos blocks \<longleftrightarrow>
     (\<forall>i < length blocks. ring_block j p (pos + i) = blocks ! i)"
  by (simp add: stored_def read_ring_region)

text \<open>Ring blocks are disjoint from each other and from the journal superblock.\<close>

lemma ring_block_write:
  assumes "length data = 4096"
  shows "ring_block j (apply_sectors (sector_writes (journal_block_lba j k) data) p) i =
    (if i mod ring_size j = k mod ring_size j then data else ring_block j p i)"
proof (cases "i mod ring_size j = k mod ring_size j")
  case True
  then have "journal_block_lba j i = journal_block_lba j k"
    by (metis journal_block_lba_mod)
  with True assms show ?thesis by (simp add: ring_block_def get_sectors_same)
next
  case False
  then show ?thesis
    using journal_block_lba_disjoint [OF False] assms
    by (auto simp: ring_block_def intro!: get_sectors_disjoint)
qed

lemma region_block_0_write:
  assumes "length data = 4096"
  shows "region_block j (apply_sectors (sector_writes (journal_block_lba j k) data) p) 0
    = region_block j p 0"
  unfolding region_block_def
  by (rule get_sectors_disjoint) (use assms in \<open>auto simp: journal_block_lba_def SECTORS_PER_BLOCK_def\<close>)

section \<open>Consecutive ring writes\<close>

fun ring_writes :: "Journal \<Rightarrow> nat \<Rightarrow> bytes list \<Rightarrow> (nat \<times> bytes) list" where
  "ring_writes j pos [] = []"
| "ring_writes j pos (b # bs) = sector_writes (journal_block_lba j pos) b @ ring_writes j (pos + 1) bs"

lemma ring_writes_append:
  "ring_writes j pos (xs @ ys) = ring_writes j pos xs @ ring_writes j (pos + length xs) ys"
  by (induction xs arbitrary: pos) simp_all

lemma block_writes_concat:
  assumes "\<forall>b \<in> set bs. length b = BLOCK_SIZE"
  shows "block_writes j pos (concat bs) 0 (length bs) = ring_writes j pos bs"
  using assms
proof (induction bs rule: rev_induct)
  case Nil
  then show ?case by (simp add: block_writes_def)
next
  case (snoc b bs)
  let ?pre = "concat bs"
  have len: "length ?pre = BLOCK_SIZE * length bs"
    using snoc.prems by (intro concat_entry_length) simp
  have "block_writes j pos (concat (bs @ [b])) 0 (length bs) = block_writes j pos ?pre 0 (length bs)"
    unfolding block_writes_def
  proof (rule arg_cong [of _ _ concat], rule map_cong [OF refl])
    fix i assume "i \<in> set [0..<length bs]"
    then have "BLOCK_SIZE * i + BLOCK_SIZE \<le> length ?pre"
      using len by (simp add: BLOCK_SIZE_def)
    then show "sector_writes (journal_block_lba j (pos + i))
        (slice_at (BLOCK_SIZE * i) BLOCK_SIZE (concat (bs @ [b]))) =
      sector_writes (journal_block_lba j (pos + i)) (slice_at (BLOCK_SIZE * i) BLOCK_SIZE ?pre)"
      by (simp add: slice_append_le)
  qed
  moreover have "block_writes j pos (concat (bs @ [b])) (length bs) (length (bs @ [b]))
    = sector_writes (journal_block_lba j (pos + length bs)) b"
    using snoc.prems len by (simp add: block_writes_def slice_append_ge) (simp add: slice_at_def)
  ultimately show ?case
    using snoc block_writes_split [of 0 "length bs" "length (bs @ [b])" j pos "concat (bs @ [b])"]
    by (simp add: ring_writes_append)
qed

lemma ring_block_writes_other:
  assumes "\<forall>b \<in> set bs. length b = 4096"
    "\<forall>k < length bs. i mod ring_size j \<noteq> (pos + k) mod ring_size j"
  shows "ring_block j (apply_sectors (ring_writes j pos bs) p) i = ring_block j p i"
  using assms
proof (induction bs arbitrary: pos p)
  case Nil
  then show ?case by (simp add: apply_sectors_def)
next
  case (Cons b bs)
  have "i mod ring_size j \<noteq> pos mod ring_size j" using Cons.prems(2) by (auto dest: spec [of _ 0])
  moreover have "\<forall>k < length bs. i mod ring_size j \<noteq> (pos + 1 + k) mod ring_size j"
    using Cons.prems(2) by (metis Suc_less_eq add.assoc length_Cons plus_1_eq_Suc)
  ultimately show ?case
    using Cons by (simp add: apply_sectors_append ring_block_write)
qed

lemma ring_block_writes_at:
  assumes "\<forall>b \<in> set bs. length b = 4096" "length bs \<le> ring_size j" "k < length bs"
  shows "ring_block j (apply_sectors (ring_writes j pos bs) p) (pos + k) = bs ! k"
  using assms
proof (induction bs arbitrary: pos p k)
  case Nil
  then show ?case by simp
next
  case (Cons b bs)
  let ?p = "apply_sectors (sector_writes (journal_block_lba j pos) b) p"
  show ?case
  proof (cases k)
    case 0
    have "\<forall>k < length bs. pos mod ring_size j \<noteq> (pos + 1 + k) mod ring_size j"
      using Cons.prems(2) by (intro allI impI ring_pos_distinct) auto
    with 0 Cons.prems show ?thesis
      by (simp add: apply_sectors_append ring_block_writes_other ring_block_write)
  next
    case (Suc m)
    then show ?thesis
      using Cons.IH [of m "pos + 1" ?p] Cons.prems by (simp add: apply_sectors_append)
  qed
qed

lemma region_block_0_writes:
  "\<forall>b \<in> set bs. length b = 4096 \<Longrightarrow>
     region_block j (apply_sectors (ring_writes j pos bs) p) 0 = region_block j p 0"
  by (induction bs arbitrary: pos p)
    (simp_all add: apply_sectors_append region_block_0_write)

section \<open>The batch in the device's write cache\<close>

definition batch_blocks :: "ring_tx \<Rightarrow> bytes list" where
  "batch_blocks rt = [descriptor_image BLOCK_SIZE (rt_seq rt) (rt_tx_id rt) (rt_entries rt)] @
     rt_data rt @ (if rt_revokes rt = [] then []
       else [revoke_image BLOCK_SIZE (rt_seq rt) (rt_tx_id rt) (rt_revokes rt)])"

lemma ring_tx_image_batch:
  "ring_tx_image BLOCK_SIZE rt = batch_blocks rt @
     [commit_image BLOCK_SIZE (rt_seq rt) (rt_tx_id rt) (commit_block_checksum (concat (rt_data rt)))]"
  by (simp add: ring_tx_image_def batch_blocks_def)

lemma length_batch_blocks: "length (batch_blocks rt) = ring_needed rt - 1"
  by (simp add: batch_blocks_def ring_needed_def)

lemma length_ring_tx_image: "length (ring_tx_image BLOCK_SIZE rt) = ring_needed rt"
  by (simp add: ring_tx_image_batch length_batch_blocks) (simp add: ring_needed_def)

lemma batch_blocks_length:
  "\<forall>b \<in> set (rt_data rt). length b = 4096 \<Longrightarrow> \<forall>b \<in> set (batch_blocks rt). length b = 4096"
  by (auto simp: batch_blocks_def BLOCK_SIZE_def)

text \<open>Some of the ring writes of \<open>bs\<close> are in the cache, and nothing else is new.\<close>

definition some_writes :: "(nat \<times> bytes) list \<Rightarrow> blockdev \<Rightarrow> blockdev \<Rightarrow> bool" where
  "some_writes ws bd bd' \<longleftrightarrow> bd_platter bd' = bd_platter bd \<and>
     set (bd_cache bd') \<subseteq> set (bd_cache bd) \<union> set ws"

lemma some_writes_refl [simp]: "some_writes ws bd bd"
  by (simp add: some_writes_def)

lemma some_writes_trans:
  "some_writes ws a b \<Longrightarrow> some_writes ws b c \<Longrightarrow> some_writes ws a c"
  by (auto simp: some_writes_def)

lemma some_writes_mono: "some_writes ws a b \<Longrightarrow> set ws \<subseteq> set vs \<Longrightarrow> some_writes vs a b"
  by (auto simp: some_writes_def)

lemma concat_data_blocks:
  assumes "\<forall>b \<in> set bs. length b = 4096"
  shows "length (concat bs) div BLOCK_SIZE = length bs" "length (concat bs) mod BLOCK_SIZE = 0"
    "block_writes j pos (concat bs) 0 (length bs) = ring_writes j pos bs"
proof -
  have "length (concat bs) = 4096 * length bs" by (rule concat_entry_length [OF assms])
  then show "length (concat bs) div BLOCK_SIZE = length bs" "length (concat bs) mod BLOCK_SIZE = 0"
    by (simp_all add: BLOCK_SIZE_def)
  show "block_writes j pos (concat bs) 0 (length bs) = ring_writes j pos bs"
    by (rule block_writes_concat) (use assms in \<open>simp add: BLOCK_SIZE_def\<close>)
qed

text \<open>The batch is three submissions.\<close>

lemma write_ring_batch_alt:
  assumes "\<forall>b \<in> set (rt_data rt). length b = 4096"
  shows "write_ring_batch beh j pos rt bd =
    (let qb1 = submit_journal_block beh j pos
           (descriptor_image BLOCK_SIZE (rt_seq rt) (rt_tx_id rt) (rt_entries rt)) (rw_new, bd);
         qb2 = submit_runs beh j (pos + 1) (concat (rt_data rt)) 0 qb1;
         qb3 = (if rt_revokes rt = [] then qb2
           else submit_journal_block beh j (pos + 1 + length (rt_data rt))
             (revoke_image BLOCK_SIZE (rt_seq rt) (rt_tx_id rt) (rt_revokes rt)) qb2)
     in case rw_drain beh (fst qb3) (snd qb3) of (r, _, bd') \<Rightarrow> Ret (r, bd'))"
proof -
  have lba: "submit_journal_block beh j (idx mod ring_size j) = submit_journal_block beh j idx" for idx
    by (intro ext) (simp add: submit_journal_block_def)
  show ?thesis
    using concat_data_blocks(2) [OF assms]
    by (simp add: write_ring_batch_def build_descriptor_block_def build_revoke_block_def
        submit_journal_blocks_def Let_def lba BLOCK_SIZE_def split: prod.splits)
qed

lemma set_ring_writes:
  assumes "\<forall>b \<in> set bs. length b = 4096"
  shows "(s, x) \<in> set (ring_writes j pos bs) \<longleftrightarrow>
    (\<exists>k < length bs. \<exists>m < 8. s = journal_block_lba j (pos + k) + m \<and> x = slice_at (512 * m) 512 (bs ! k))"
  using assms
proof (induction bs arbitrary: pos)
  case Nil
  then show ?case by simp
next
  case (Cons b bs)
  have "(\<exists>k < Suc n. P k) \<longleftrightarrow> P 0 \<or> (\<exists>k < n. P (Suc k))" for n P
    by (metis less_Suc_eq_0_disj)
  with Cons show ?case by (simp add: sector_writes_block)
qed

lemma ring_writes_single_valued:
  assumes "\<forall>b \<in> set bs. length b = 4096" "length bs \<le> ring_size j"
  shows "single_valued (set (ring_writes j pos bs))"
proof (rule single_valuedI)
  fix s x y
  assume "(s, x) \<in> set (ring_writes j pos bs)" "(s, y) \<in> set (ring_writes j pos bs)"
  then obtain a b m k where ab: "a < length bs" "b < length bs" "m < 8" "k < 8"
    "s = journal_block_lba j (pos + a) + m" "s = journal_block_lba j (pos + b) + k"
    "x = slice_at (512 * m) 512 (bs ! a)" "y = slice_at (512 * k) 512 (bs ! b)"
    unfolding set_ring_writes [OF assms(1)] by blast
  then have "a = b \<and> m = k"
    using assms(2) by (intro ring_sector_unique [of j pos]) auto
  with ab show "x = y" by simp
qed

lemma submit_journal_block_inv:
  assumes "queue_inv bd0 W (rw_inflight (fst qb)) (rw_failure (fst qb)) (snd qb)"
    "submit_journal_block beh j idx b qb = qb'"
  shows "queue_inv bd0 (W \<union> set (sector_writes (journal_block_lba j idx) b))
    (rw_inflight (fst qb')) (rw_failure (fst qb')) (snd qb')"
proof -
  obtain ok q1 bd1 where
    "rw_submit beh (journal_block_lba j idx) b (fst qb) (snd qb) = (ok, q1, bd1)"
    by (metis prod_cases3)
  then show ?thesis
    using rw_submit_inv(1) [OF assms(1)] assms(2) by (auto simp: submit_journal_block_def)
qed

lemma write_ring_batch_cached:
  assumes "write_ring_batch beh j pos rt bd = Ret (r, bd')" "0 < ring_size j"
    "\<forall>b \<in> set (rt_data rt). length b = 4096"
  shows "cached (set (ring_writes j pos (batch_blocks rt))) (r = Inr ()) bd bd'"
proof -
  define qb1 where "qb1 = submit_journal_block beh j pos
    (descriptor_image BLOCK_SIZE (rt_seq rt) (rt_tx_id rt) (rt_entries rt)) (rw_new, bd)"
  define qb2 where "qb2 = submit_runs beh j (pos + 1) (concat (rt_data rt)) 0 qb1"
  define qb3 where "qb3 = (if rt_revokes rt = [] then qb2
      else submit_journal_block beh j (pos + 1 + length (rt_data rt))
        (revoke_image BLOCK_SIZE (rt_seq rt) (rt_tx_id rt) (rt_revokes rt)) qb2)"
  obtain q4 where d: "rw_drain beh (fst qb3) (snd qb3) = (r, q4, bd')"
    using assms(1) unfolding write_ring_batch_alt [OF assms(3)] Let_def
      qb1_def [symmetric] qb2_def [symmetric] qb3_def [symmetric] by (auto split: prod.splits)
  have "queue_inv bd {} (rw_inflight (fst (rw_new, bd))) (rw_failure (fst (rw_new, bd))) (snd (rw_new, bd))"
    by (simp add: rw_new_def)
  note 1 = submit_journal_block_inv [OF this qb1_def [symmetric]]
  note 2 = submit_runs_inv [OF 1 assms(2) qb2_def [symmetric] le0,
      unfolded concat_data_blocks [OF assms(3)]]
  have 3: "queue_inv bd (set (ring_writes j pos (batch_blocks rt)))
      (rw_inflight (fst qb3)) (rw_failure (fst qb3)) (snd qb3)"
    using 2 submit_journal_block_inv [OF 2]
    by (auto simp: qb3_def batch_blocks_def ring_writes_append Un_assoc)
  show ?thesis by (rule rw_drain_cached [OF 3 d])
qed

lemma cached_some_writes: "cached (set ws) c bd bd' \<Longrightarrow> some_writes ws bd bd'"
  by (auto simp: cached_def some_writes_def)

lemmas write_ring_batch_some = write_ring_batch_cached [THEN cached_some_writes]

section \<open>What a crash leaves of the ring\<close>

definition sectors_ok :: "sectors \<Rightarrow> bool" where
  "sectors_ok p \<longleftrightarrow> (\<forall>s. length (p s) = 512)"

lemma sectors_ok_write:
  assumes "sectors_ok d" "length data = 512 * n"
  shows "sectors_ok (apply_sectors (sector_writes lba data) d)"
  unfolding sectors_ok_def
proof
  fix s
  have "512 * (s - lba) + 512 \<le> 512 * n" if "lba \<le> s" "s < lba + n"
    using that by auto
  then show "length (apply_sectors (sector_writes lba data) d s) = 512"
    using assms by (auto simp: apply_sector_writes sectors_ok_def)
qed

definition journal_sector :: "Journal \<Rightarrow> nat \<Rightarrow> bool" where
  "journal_sector j s \<longleftrightarrow>
     j_partition_start_lba j + j_first_block j * SECTORS_PER_BLOCK \<le> s \<and>
     s < j_partition_start_lba j + (j_first_block j + j_block_count j) * SECTORS_PER_BLOCK"

lemma ring_sector:
  assumes "0 < ring_size j" "m < 8"
  shows "journal_sector j (journal_block_lba j i + m)"
proof -
  have "i mod ring_size j + 1 < j_block_count j"
    using mod_less_divisor [OF assms(1), of i] unfolding ring_size_def by linarith
  then show ?thesis
    using assms(2) by (auto simp: journal_sector_def journal_block_lba_def SECTORS_PER_BLOCK_def)
qed

lemma journal_block_lba_eq:
  assumes "journal_block_lba j a = journal_block_lba j b + m" "m < 8"
  shows "m = 0 \<and> a mod ring_size j = b mod ring_size j"
proof (cases "a mod ring_size j = b mod ring_size j")
  case True
  then have "journal_block_lba j a = journal_block_lba j b" by (metis journal_block_lba_mod)
  with assms True show ?thesis by simp
next
  case False
  with journal_block_lba_disjoint [OF False] assms show ?thesis by auto
qed

lemma parse_header_append: "24 \<le> length x \<Longrightarrow> parse_header (x @ y) = parse_header x"
  by (simp add: parse_header_def journal_header_of_def get_u8_def get_u32_def get_u64_def get_le_def
      slice_append_le)

lemma parse_header_first_sector:
  assumes "length b = 4096"
  shows "parse_header b = parse_header (slice_at 0 512 b)"
proof -
  have "parse_header (slice_at 0 512 b @ drop 512 b) = parse_header (slice_at 0 512 b)"
    by (rule parse_header_append) (simp add: assms)
  moreover have "slice_at 0 512 b @ drop 512 b = b" by (simp add: slice_at_def)
  ultimately show ?thesis by simp
qed

lemma parse_header_ring_block:
  assumes "sectors_ok p"
  shows "parse_header (ring_block j p i) = parse_header (p (journal_block_lba j i))"
proof -
  have "ring_block j p i = p (journal_block_lba j i) @ get_sectors (journal_block_lba j i + 1) 7 p"
    unfolding ring_block_def get_sectors_def by (subst upt_conv_Cons) (simp_all add: add.commute)
  then show ?thesis
    using assms by (simp add: parse_header_append sectors_ok_def)
qed

text \<open>The device during a commit: a quiet cache plus some of the batch.\<close>

definition quiet_cache :: "Journal \<Rightarrow> blockdev \<Rightarrow> bool" where
  "quiet_cache j bd \<longleftrightarrow> sectors_ok (bd_platter bd) \<and>
     (\<forall>(s, x) \<in> set (bd_cache bd). length x = 512 \<and> \<not> journal_sector j s)"

lemma crashed_batch_sector:
  assumes "quiet_cache j bd" "some_writes (ring_writes j pos bs) bd bd'" "crashed bd' p"
    "journal_sector j s"
  shows "p s = bd_platter bd s \<or> (s, p s) \<in> set (ring_writes j pos bs)"
  using assms by (fastforce simp: quiet_cache_def some_writes_def crashed_def)

lemma crashed_batch_sectors_ok:
  assumes "quiet_cache j bd" "some_writes (ring_writes j pos bs) bd bd'" "crashed bd' p"
    "\<forall>b \<in> set bs. length b = 4096"
  shows "sectors_ok p"
  unfolding sectors_ok_def
proof
  fix s
  have "p s = bd_platter bd s \<or> (s, p s) \<in> set (bd_cache bd) \<or> (s, p s) \<in> set (ring_writes j pos bs)"
    using assms(2,3) by (auto simp: some_writes_def crashed_def)
  then show "length (p s) = 512"
    using assms(1,4) by (fastforce simp: quiet_cache_def sectors_ok_def set_ring_writes)
qed

lemma crashed_batch_other:
  assumes "quiet_cache j bd" "some_writes (ring_writes j pos bs) bd bd'" "crashed bd' p"
    "\<forall>b \<in> set bs. length b = 4096" "0 < ring_size j"
    "\<forall>k < length bs. i mod ring_size j \<noteq> (pos + k) mod ring_size j"
  shows "ring_block j p i = ring_block j (bd_platter bd) i"
  unfolding ring_block_def
proof (rule get_sectors_cong)
  fix s assume s: "journal_block_lba j i \<le> s" "s < journal_block_lba j i + 8"
  define m where "m = s - journal_block_lba j i"
  have m: "m < 8" "s = journal_block_lba j i + m" using s by (auto simp: m_def)
  have "(s, x) \<notin> set (ring_writes j pos bs)" for x
  proof
    assume "(s, x) \<in> set (ring_writes j pos bs)"
    then obtain k n where "k < length bs" "n < 8" "s = journal_block_lba j (pos + k) + n"
      using assms(4) by (auto simp: set_ring_writes)
    moreover have "journal_block_lba j i + 8 \<le> journal_block_lba j (pos + k) \<or>
        journal_block_lba j (pos + k) + 8 \<le> journal_block_lba j i"
      using assms(6) \<open>k < length bs\<close> by (intro journal_block_lba_disjoint) auto
    ultimately show False using m by auto
  qed
  then show "p s = bd_platter bd s"
    using crashed_batch_sector [OF assms(1-3)] ring_sector [OF assms(5) m(1)] m(2) by blast
qed

lemma crashed_batch_jsb:
  assumes "quiet_cache j bd" "some_writes (ring_writes j pos bs) bd bd'" "crashed bd' p"
    "\<forall>b \<in> set bs. length b = 4096" "0 < ring_size j"
  shows "region_block j p 0 = region_block j (bd_platter bd) 0"
  unfolding region_block_def
proof (rule get_sectors_cong)
  fix s
  assume s: "j_partition_start_lba j + (j_first_block j + 0) * SECTORS_PER_BLOCK \<le> s"
    "s < j_partition_start_lba j + (j_first_block j + 0) * SECTORS_PER_BLOCK + 8"
  have "(s, x) \<notin> set (ring_writes j pos bs)" for x
    using s assms(4)
    by (auto simp: set_ring_writes journal_block_lba_def SECTORS_PER_BLOCK_def)
  moreover have "journal_sector j s"
    using s assms(5) by (auto simp: journal_sector_def ring_size_def SECTORS_PER_BLOCK_def)
  ultimately show "p s = bd_platter bd s"
    using crashed_batch_sector [OF assms(1-3)] by blast
qed

text \<open>The header of a ring block after the crash is the old one or that of a batch block.\<close>

lemma crashed_batch_header:
  assumes "quiet_cache j bd" "some_writes (ring_writes j pos bs) bd bd'" "crashed bd' p"
    "\<forall>b \<in> set bs. length b = 4096" "0 < ring_size j"
  shows "parse_header (ring_block j p i) = parse_header (ring_block j (bd_platter bd) i) \<or>
    (\<exists>b \<in> set bs. parse_header (ring_block j p i) = parse_header b)"
proof -
  let ?s = "journal_block_lba j i"
  have ok: "sectors_ok p" "sectors_ok (bd_platter bd)"
    using crashed_batch_sectors_ok [OF assms(1-4)] assms(1) by (auto simp: quiet_cache_def)
  have "p ?s = bd_platter bd ?s \<or> (?s, p ?s) \<in> set (ring_writes j pos bs)"
    using crashed_batch_sector [OF assms(1-3)] ring_sector [OF assms(5), of 0 i] by simp
  then show ?thesis
  proof
    assume "p ?s = bd_platter bd ?s"
    then show ?thesis by (simp add: parse_header_ring_block ok)
  next
    assume "(?s, p ?s) \<in> set (ring_writes j pos bs)"
    then obtain k m where k: "k < length bs" "m < 8" "?s = journal_block_lba j (pos + k) + m"
      "p ?s = slice_at (512 * m) 512 (bs ! k)"
      using assms(4) by (auto simp: set_ring_writes)
    then have "m = 0" using journal_block_lba_eq by blast
    then have "parse_header (ring_block j p i) = parse_header (bs ! k)"
      using k assms(4) parse_header_first_sector [of "bs ! k"] by (simp add: parse_header_ring_block ok)
    then show ?thesis using k(1) by (meson nth_mem)
  qed
qed

section \<open>The journal and its image on disk\<close>

definition commits_below :: "Journal \<Rightarrow> sectors \<Rightarrow> nat \<Rightarrow> bool" where
  "commits_below j p n \<longleftrightarrow> (\<forall>i < ring_size j. case parse_header (ring_block j p i) of
       None \<Rightarrow> True | Some h \<Rightarrow> jh_kind h = kind_byte Commit \<longrightarrow> unat (jh_seq h) < n)"

definition jsb_anchors :: "Journal \<Rightarrow> sectors \<Rightarrow> bool" where
  "jsb_anchors j p \<longleftrightarrow>
     (let jsb = journal_sb_of (region_block j p 0) in
      jsb_magic jsb = JOURNAL_MAGIC \<and> jsb_version jsb = 1 \<and>
      jsb_crc32 jsb = journal_sb_checksum jsb \<and>
      jsb_block_count jsb = word_of_nat (j_block_count j) \<and>
      jsb_tail_seq jsb = word_of_nat (tail_seq (j_state j)) \<and>
      jsb_tail_block jsb = word_of_nat (tail_block (j_state j)))"

text \<open>The sectors \<open>p\<close> hold the transactions \<open>ts\<close> from the tail on, and nothing behind them
  that is committed.\<close>

definition ring_holds :: "Journal \<Rightarrow> sectors \<Rightarrow> ring_tx list \<Rightarrow> bool" where
  "ring_holds j p ts \<longleftrightarrow>
     0 < ring_size j \<and> jsb_anchors j p \<and> (\<forall>t \<in> set ts. ring_tx_ok BLOCK_SIZE t) \<and>
     seqs_from (word_of_nat (tail_seq (j_state j))) ts \<and>
     stored (region_read j p) (ring_size j) (tail_block (j_state j)) (ring_images BLOCK_SIZE ts) \<and>
     length (ring_images BLOCK_SIZE ts) \<le> ring_size j \<and>
     commits_below j p (tail_seq (j_state j) + length ts) \<and>
     tail_seq (j_state j) + length ts < 2 ^ 64 \<and> tail_block (j_state j) < 2 ^ 64"

definition journal_on_disk :: "Journal \<Rightarrow> blockdev \<Rightarrow> ring_tx list \<Rightarrow> bool" where
  "journal_on_disk j bd ts \<longleftrightarrow> quiet_cache j bd \<and> ring_holds j (bd_platter bd) ts \<and>
     tail_block (j_state j) + length (ring_images BLOCK_SIZE ts) = head_block (j_state j)"

text \<open>What the mount reads back: the superblock's tail, then the scan.\<close>

definition recover :: "Journal \<Rightarrow> sectors \<Rightarrow> BlockError + JournalScan" where
  "recover j p =
     (let jsb = journal_sb_of (region_block j p 0)
      in scan_committed (jsb_tail_seq jsb) (unat (jsb_tail_block jsb)) (ring_size j) BLOCK_SIZE
           (region_read j p))"

lemma unat_word_of_nat: "n < 2 ^ LENGTH('a) \<Longrightarrow> unat (word_of_nat n :: 'a::len word) = n"
  by (simp add: unat_of_nat)

lemma no_commit_region:
  assumes "commits_below j p n" "n < 2 ^ 64"
  shows "no_commit (region_read j p) (ring_size j) (word_of_nat n)"
proof -
  have "unat (word_of_nat n :: u64) = n" using assms(2) by (simp add: unat_word_of_nat)
  then show ?thesis
    using assms(1) region_block_ring [of _ j p]
    by (fastforce simp: no_commit_def commits_below_def region_read_def split: option.splits)
qed

lemma recover_ring_holds:
  assumes "ring_holds j p ts"
  shows "\<exists>s. recover j p = Inr s \<and> js_txs s = map scanned ts \<and>
    js_next_seq s = word_of_nat (tail_seq (j_state j) + length ts) \<and>
    js_next_block s = tail_block (j_state j) + length (ring_images BLOCK_SIZE ts)"
proof -
  let ?n = "tail_seq (j_state j)" and ?t = "tail_block (j_state j)"
  have "recover j p = scan_committed (word_of_nat ?n) ?t (ring_size j) BLOCK_SIZE (region_read j p)"
    using assms by (simp add: recover_def ring_holds_def jsb_anchors_def Let_def unat_word_of_nat)
  moreover have "no_commit (region_read j p) (ring_size j) (word_of_nat ?n + of_nat (length ts))"
    using no_commit_region [of j p "?n + length ts"] assms by (simp add: ring_holds_def)
  ultimately show ?thesis
    using scan_recovers_committed [of "ring_size j" ts BLOCK_SIZE "word_of_nat ?n" "region_read j p" ?t]
      assms by (auto simp: ring_holds_def)
qed

section \<open>Crashes during a commit\<close>

lemma batch_not_commit:
  assumes "\<forall>b \<in> set (rt_data rt). parse_header b = None" "b \<in> set (batch_blocks rt)"
    "parse_header b = Some h"
  shows "jh_kind h \<noteq> kind_byte Commit"
proof -
  have "b = descriptor_image BLOCK_SIZE (rt_seq rt) (rt_tx_id rt) (rt_entries rt) \<or>
    b = revoke_image BLOCK_SIZE (rt_seq rt) (rt_tx_id rt) (rt_revokes rt)"
    using assms by (auto simp: batch_blocks_def split: if_splits)
  then show ?thesis
    using assms(3) by (auto simp: BLOCK_SIZE_def simp del: kind_byte.simps)
qed

lemma crashed_commits_below:
  assumes "quiet_cache j bd" "some_writes (ring_writes j pos (batch_blocks rt)) bd bd'"
    "crashed bd' p" "\<forall>b \<in> set (rt_data rt). length b = 4096 \<and> parse_header b = None"
    "0 < ring_size j" "commits_below j (bd_platter bd) n"
  shows "commits_below j p n"
  unfolding commits_below_def
proof (intro allI impI)
  fix i assume i: "i < ring_size j"
  have "\<forall>b \<in> set (batch_blocks rt). length b = 4096"
    by (rule batch_blocks_length) (use assms(4) in blast)
  then consider "parse_header (ring_block j p i) = parse_header (ring_block j (bd_platter bd) i)"
    | b where "b \<in> set (batch_blocks rt)" "parse_header (ring_block j p i) = parse_header b"
    using crashed_batch_header [OF assms(1-3) _ assms(5)] by blast
  then show "case parse_header (ring_block j p i) of None \<Rightarrow> True
      | Some h \<Rightarrow> jh_kind h = kind_byte Commit \<longrightarrow> unat (jh_seq h) < n"
  proof cases
    case 1
    then show ?thesis using assms(6) i by (simp add: commits_below_def)
  next
    case (2 b)
    then show ?thesis
      using batch_not_commit [of rt b] assms(4) by (auto split: option.splits simp del: kind_byte.simps)
  qed
qed

text \<open>The batch lands behind the live region.\<close>

lemma crashed_live_region:
  assumes "quiet_cache j bd" "some_writes (ring_writes j pos (batch_blocks rt)) bd bd'"
    "crashed bd' p" "\<forall>b \<in> set (rt_data rt). length b = 4096" "0 < ring_size j"
    "t + n = pos" "n + ring_needed rt \<le> ring_size j" "i < n"
  shows "ring_block j p (t + i) = ring_block j (bd_platter bd) (t + i)"
proof (rule crashed_batch_other [OF assms(1-3) _ assms(5)])
  show "\<forall>b \<in> set (batch_blocks rt). length b = 4096" by (rule batch_blocks_length [OF assms(4)])
  show "\<forall>k < length (batch_blocks rt). (t + i) mod ring_size j \<noteq> (pos + k) mod ring_size j"
    using assms(6-8) length_batch_blocks [of rt] by (intro allI impI ring_pos_distinct) auto
qed

lemma crashed_ring_holds:
  assumes "journal_on_disk j bd ts"
    "some_writes (ring_writes j (head_block (j_state j)) (batch_blocks rt)) bd bd'" "crashed bd' p"
    "\<forall>b \<in> set (rt_data rt). length b = 4096 \<and> parse_header b = None"
    "length (ring_images BLOCK_SIZE ts) + ring_needed rt \<le> ring_size j"
  shows "ring_holds j p ts"
proof -
  let ?t = "tail_block (j_state j)" and ?n = "length (ring_images BLOCK_SIZE ts)"
  have q: "quiet_cache j bd" and r: "0 < ring_size j" and h: "?t + ?n = head_block (j_state j)"
    and holds: "ring_holds j (bd_platter bd) ts"
    using assms(1) by (auto simp: journal_on_disk_def ring_holds_def)
  have d: "\<forall>b \<in> set (rt_data rt). length b = 4096" using assms(4) by blast
  have "commits_below j p (tail_seq (j_state j) + length ts)"
    using crashed_commits_below [OF q assms(2-4) r] holds by (simp add: ring_holds_def)
  moreover have "jsb_anchors j p"
    using crashed_batch_jsb [OF q assms(2,3) batch_blocks_length [OF d] r] holds
    by (simp add: ring_holds_def jsb_anchors_def)
  moreover have "stored (region_read j p) (ring_size j) ?t (ring_images BLOCK_SIZE ts)"
    using crashed_live_region [OF q assms(2,3) d r h assms(5)] holds
    by (simp add: ring_holds_def stored_region)
  ultimately show ?thesis using holds by (simp add: ring_holds_def)
qed

section \<open>The commit becomes durable\<close>

lemma view_crashed: "crashed bd (bd_view bd)"
  unfolding crashed_def bd_view_def apply_sectors_def
  by (auto split: option.split dest!: map_of_SomeD)

lemma commit_block_at:
  assumes "ring_needed rt = n"
  shows "ring_tx_image BLOCK_SIZE rt ! (n - 1) =
    commit_image BLOCK_SIZE (rt_seq rt) (rt_tx_id rt) (commit_block_checksum (concat (rt_data rt)))"
  using assms length_batch_blocks [of rt] by (simp add: ring_tx_image_batch nth_append)

lemma ring_needed_ge: "2 \<le> ring_needed rt"
  by (simp add: ring_needed_def)

lemma seqs_from_snoc: "seqs_from e (ts @ [t]) \<longleftrightarrow> seqs_from e ts \<and> rt_seq t = e + of_nat (length ts)"
  by (induction ts arbitrary: e) (auto simp: algebra_simps)

text \<open>The transaction a commit writes: it fits one descriptor, its data blocks are pages that
  do not read as journal headers, and it is the next in sequence.\<close>

definition committable :: "Journal \<Rightarrow> ring_tx list \<Rightarrow> ring_tx \<Rightarrow> bool" where
  "committable j ts rt \<longleftrightarrow> ring_tx_ok BLOCK_SIZE rt \<and>
     (\<forall>b \<in> set (rt_data rt). length b = 4096 \<and> parse_header b = None) \<and>
     length (ring_images BLOCK_SIZE ts) + ring_needed rt \<le> ring_size j \<and>
     rt_seq rt = word_of_nat (tail_seq (j_state j) + length ts) \<and>
     tail_seq (j_state j) + length ts + 1 < 2 ^ 64"

definition commit_target :: "Journal \<Rightarrow> ring_tx \<Rightarrow> nat" where
  "commit_target j rt = journal_block_lba j (head_block (j_state j) + ring_needed rt - 1)"

definition commit_block_of :: "ring_tx \<Rightarrow> bytes" where
  "commit_block_of rt = commit_image BLOCK_SIZE (rt_seq rt) (rt_tx_id rt)
     (commit_block_checksum (concat (rt_data rt)))"

lemma length_commit_block_of: "length (commit_block_of rt) = 4096"
  by (simp add: commit_block_of_def BLOCK_SIZE_def)

lemma batch_view:
  assumes "journal_on_disk j bd ts" "committable j ts rt"
    "cached (set (ring_writes j (head_block (j_state j)) (batch_blocks rt))) True bd bd1"
  shows "ring_holds j (bd_view bd1) ts"
    "k < length (batch_blocks rt) \<Longrightarrow>
       ring_block j (bd_view bd1) (head_block (j_state j) + k) = batch_blocks rt ! k"
proof -
  let ?h = "head_block (j_state j)"
  have some: "some_writes (ring_writes j ?h (batch_blocks rt)) bd bd1"
    using assms(3) by (rule cached_some_writes)
  have d: "\<forall>b \<in> set (rt_data rt). length b = 4096 \<and> parse_header b = None"
    and room: "length (ring_images BLOCK_SIZE ts) + ring_needed rt \<le> ring_size j"
    using assms(2) by (auto simp: committable_def)
  show "ring_holds j (bd_view bd1) ts"
    by (rule crashed_ring_holds [OF assms(1) some view_crashed d room])
  have view: "bd_view bd1 = apply_sectors (ring_writes j ?h (batch_blocks rt)) (bd_view bd)"
    by (rule cached_view [OF assms(3) ring_writes_single_valued [OF batch_blocks_length]])
      (use d room length_batch_blocks [of rt] in simp_all)
  show "ring_block j (bd_view bd1) (?h + k) = batch_blocks rt ! k" if "k < length (batch_blocks rt)"
    unfolding view by (rule ring_block_writes_at [OF batch_blocks_length _ that])
      (use d room length_batch_blocks [of rt] in simp_all)
qed

lemma commit_stored:
  assumes "ring_holds j v ts" "tail_block (j_state j) + length (ring_images BLOCK_SIZE ts) = head_block (j_state j)"
    "length (ring_images BLOCK_SIZE ts) + ring_needed rt \<le> ring_size j"
    "\<And>k. k < length (batch_blocks rt) \<Longrightarrow>
       ring_block j v (head_block (j_state j) + k) = batch_blocks rt ! k"
    "i < length (ring_images BLOCK_SIZE ts) + ring_needed rt"
  shows "ring_block j (apply_sectors (sector_writes (commit_target j rt) (commit_block_of rt)) v)
      (tail_block (j_state j) + i) = ring_images BLOCK_SIZE (ts @ [rt]) ! i"
proof -
  let ?t = "tail_block (j_state j)" and ?n = "length (ring_images BLOCK_SIZE ts)"
  let ?h = "head_block (j_state j)" and ?r = "ring_size j"
  have rb: "ring_block j (apply_sectors (sector_writes (commit_target j rt) (commit_block_of rt)) v) i
      = (if i mod ?r = (?h + ring_needed rt - 1) mod ?r then commit_block_of rt else ring_block j v i)"
    for i unfolding commit_target_def by (rule ring_block_write [OF length_commit_block_of])
  have early: "(?t + i) mod ?r \<noteq> (?h + ring_needed rt - 1) mod ?r" if "i < ?n + ring_needed rt - 1"
    using that assms(2,3) by (intro ring_pos_distinct) auto
  show ?thesis
  proof (cases "i < ?n + ring_needed rt - 1")
    case True
    show ?thesis
    proof (cases "i < ?n")
      case True
      then show ?thesis
        using early ring_needed_ge [of rt] assms(1)
        by (simp add: rb nth_append ring_holds_def stored_region)
    next
      case False
      then have "?t + i = ?h + (i - ?n)" using assms(2) by simp
      moreover have "i - ?n < ring_needed rt - 1" using False True by linarith
      ultimately show ?thesis
        using False True early assms(4) [of "i - ?n"] length_batch_blocks [of rt]
        by (simp add: rb nth_append ring_tx_image_batch)
    qed
  next
    case False
    then have i: "\<not> i < ?n" "i - ?n = ring_needed rt - 1"
      using assms(5) ring_needed_ge [of rt] by simp_all
    then have pos: "?t + i = ?h + ring_needed rt - 1"
      using assms(2) ring_needed_ge [of rt] by simp
    show ?thesis
      unfolding pos rb using i commit_block_at [OF refl, of rt]
      by (simp add: nth_append commit_block_of_def)
  qed
qed

lemma commit_commits_below:
  assumes "ring_holds j v ts" "committable j ts rt"
  shows "commits_below j (apply_sectors (sector_writes (commit_target j rt) (commit_block_of rt)) v)
    (tail_seq (j_state j) + length (ts @ [rt]))"
  unfolding commits_below_def commit_target_def ring_block_write [OF length_commit_block_of]
proof (intro allI impI)
  fix i assume i: "i < ring_size j"
  have new: "parse_header (commit_block_of rt) = Some h \<Longrightarrow>
      unat (jh_seq h) < tail_seq (j_state j) + length (ts @ [rt])" for h
    using assms(2) by (auto simp: commit_block_of_def committable_def BLOCK_SIZE_def
        unat_word_of_nat simp del: kind_byte.simps of_nat_add)
  have old: "case parse_header (ring_block j v i) of None \<Rightarrow> True
      | Some h \<Rightarrow> jh_kind h = kind_byte Commit \<longrightarrow> unat (jh_seq h) < tail_seq (j_state j) + length ts"
    using assms(1) i by (simp add: ring_holds_def commits_below_def)
  show "case parse_header (if i mod ring_size j =
        (head_block (j_state j) + ring_needed rt - 1) mod ring_size j
      then commit_block_of rt else ring_block j v i) of None \<Rightarrow> True
    | Some h \<Rightarrow> jh_kind h = kind_byte Commit \<longrightarrow>
        unat (jh_seq h) < tail_seq (j_state j) + length (ts @ [rt])"
    using new old by (auto split: option.splits simp del: kind_byte.simps)
qed

lemma commit_block_ring_holds:
  assumes "journal_on_disk j bd ts" "committable j ts rt"
    "cached (set (ring_writes j (head_block (j_state j)) (batch_blocks rt))) True bd bd1"
  shows "ring_holds j (apply_sectors (sector_writes (commit_target j rt) (commit_block_of rt))
    (bd_view bd1)) (ts @ [rt])"
proof -
  note v = batch_view [OF assms]
  have h: "tail_block (j_state j) + length (ring_images BLOCK_SIZE ts) = head_block (j_state j)"
    and room: "length (ring_images BLOCK_SIZE ts) + ring_needed rt \<le> ring_size j"
    using assms(1,2) by (simp_all add: journal_on_disk_def committable_def)
  let ?p = "apply_sectors (sector_writes (commit_target j rt) (commit_block_of rt)) (bd_view bd1)"
  have "stored (region_read j ?p) (ring_size j) (tail_block (j_state j))
      (ring_images BLOCK_SIZE (ts @ [rt]))"
    using commit_stored [OF v(1) h room v(2)] by (simp add: stored_region length_ring_tx_image)
  moreover have "jsb_anchors j ?p"
    using v(1) by (simp add: ring_holds_def jsb_anchors_def commit_target_def
        region_block_0_write [OF length_commit_block_of])
  ultimately show ?thesis
    using v(1) assms(2) commit_commits_below [OF v(1) assms(2)]
    by (auto simp: ring_holds_def committable_def seqs_from_snoc length_ring_tx_image)
qed

section \<open>Committing and crashing\<close>

lemma crashed_cmds [simp]: "crashed (bd\<lparr>bd_cmds := k\<rparr>) p \<longleftrightarrow> crashed bd p"
  by (simp add: crashed_def)

lemma crashed_no_cache: "bd_cache bd = [] \<Longrightarrow> crashed bd p \<longleftrightarrow> p = bd_platter bd"
  by (auto simp: crashed_def)

lemma flush_effect:
  assumes "flush_blocking beh bd = (r, bd')"
  shows "(r \<noteq> Inr () \<and> (\<forall>p. crashed bd' p \<longrightarrow> crashed bd p)) \<or>
    bd_cache bd' = [] \<and> bd_platter bd' = bd_view bd"
  using flush.retry_effect [OF assms [unfolded flush_blocking_def]] by (auto simp: apply_flush_def)

lemma fua_effect:
  assumes "write_blocking beh lba data FUA bd = (r, bd')" "bd_cache bd = []"
  shows "(r \<noteq> Inr () \<and> bd_platter bd' = bd_platter bd \<or>
      bd_platter bd' = apply_sectors (sector_writes lba data) (bd_platter bd)) \<and> bd_cache bd' = []"
  using fua.retry_effect [OF assms(1) [unfolded write_blocking_def]] assms(2)
  by (auto simp: apply_write_def)

text \<open>The device side of a commit: either it failed and the crash images are those of a device
  holding part of the batch, or the whole batch and the commit block are on the platter.\<close>

lemma ring_commit_effect:
  assumes "ring_commit beh j (head_block (j_state j)) rt bd = Ret (r, bd')"
    "0 < ring_size j" "\<forall>b \<in> set (rt_data rt). length b = 4096"
  shows "\<exists>bd1. some_writes (ring_writes j (head_block (j_state j)) (batch_blocks rt)) bd bd1 \<and>
    (r \<noteq> Inr () \<and> (\<forall>p. crashed bd' p \<longrightarrow> crashed bd1 p) \<or>
     cached (set (ring_writes j (head_block (j_state j)) (batch_blocks rt))) True bd bd1 \<and> bd_cache bd' = [] \<and>
     bd_platter bd' = apply_sectors (sector_writes (commit_target j rt) (commit_block_of rt)) (bd_view bd1))"
proof -
  obtain dr bd1 where b: "write_ring_batch beh j (head_block (j_state j)) rt bd = Ret (dr, bd1)"
    using assms(1) by (auto simp: ring_commit_def run_bind_eq_Ret)
  have some: "some_writes (ring_writes j (head_block (j_state j)) (batch_blocks rt)) bd bd1"
    by (rule write_ring_batch_some [OF b assms(2,3)])
  obtain fr bd2 where f: "flush_blocking beh bd1 = (fr, bd2)" by fastforce
  show ?thesis
  proof (cases "dr = Inr () \<and> fr = Inr ()")
    case False
    have "r \<noteq> Inr () \<and> (\<forall>p. crashed bd' p \<longrightarrow> crashed bd1 p)"
      using False assms(1) b f flush_effect [OF f] view_crashed [of bd1]
      by (cases dr; cases fr) (auto simp: ring_commit_def crashed_no_cache)
    with some show ?thesis by blast
  next
    case True
    have w: "write_blocking beh (commit_target j rt) (commit_block_of rt) FUA bd2 = (r, bd')"
      using assms(1) b f True
      by (simp add: ring_commit_def write_journal_block_fua_def build_commit_block_def
          commit_target_def commit_block_of_def BLOCK_SIZE_def)
    have bd2: "bd_cache bd2 = []" "bd_platter bd2 = bd_view bd1"
      using flush_effect [OF f] True by auto
    have c: "cached (set (ring_writes j (head_block (j_state j)) (batch_blocks rt))) True bd bd1"
      using write_ring_batch_cached [OF b assms(2,3)] True by simp
    show ?thesis
      using fua_effect [OF w bd2(1)] bd2(2) some c view_crashed [of bd1]
      by (auto simp: crashed_no_cache)
  qed
qed

lemma commit_block_durable:
  assumes "journal_on_disk j bd ts" "committable j ts rt"
    "cached (set (ring_writes j (head_block (j_state j)) (batch_blocks rt))) True bd bd1"
    "bd_cache bd' = []"
    "bd_platter bd' = apply_sectors (sector_writes (commit_target j rt) (commit_block_of rt)) (bd_view bd1)"
  shows "ring_holds j (bd_platter bd') (ts @ [rt]) \<and> quiet_cache j bd'"
proof -
  have d: "\<forall>b \<in> set (rt_data rt). length b = 4096"
    using assms(2) by (auto simp: committable_def)
  have "sectors_ok (bd_view bd1)"
    by (rule crashed_batch_sectors_ok [OF _ cached_some_writes [OF assms(3)] view_crashed
          batch_blocks_length [OF d]]) (use assms(1) in \<open>simp add: journal_on_disk_def\<close>)
  then have "quiet_cache j bd'"
    using sectors_ok_write [of "bd_view bd1" "commit_block_of rt" 8] assms(4,5)
    by (simp add: quiet_cache_def length_commit_block_of)
  then show ?thesis
    using commit_block_ring_holds [OF assms(1-3)] by (simp add: assms(5))
qed

lemma ring_commit_crash:
  assumes "journal_on_disk j bd ts" "committable j ts rt"
    "ring_commit beh j (head_block (j_state j)) rt bd = Ret (r, bd')"
  shows "(r \<noteq> Inr () \<and> (\<forall>p. crashed bd' p \<longrightarrow> ring_holds j p ts)) \<or>
    ring_holds j (bd_platter bd') (ts @ [rt]) \<and> quiet_cache j bd' \<and> bd_cache bd' = []"
proof -
  have d: "\<forall>b \<in> set (rt_data rt). length b = 4096 \<and> parse_header b = None"
    and d': "\<forall>b \<in> set (rt_data rt). length b = 4096"
    and room: "length (ring_images BLOCK_SIZE ts) + ring_needed rt \<le> ring_size j"
    and r: "0 < ring_size j"
    using assms(1,2) by (auto simp: committable_def journal_on_disk_def ring_holds_def)
  obtain bd1 where some: "some_writes (ring_writes j (head_block (j_state j)) (batch_blocks rt)) bd bd1"
    and e: "r \<noteq> Inr () \<and> (\<forall>p. crashed bd' p \<longrightarrow> crashed bd1 p) \<or>
     cached (set (ring_writes j (head_block (j_state j)) (batch_blocks rt))) True bd bd1 \<and> bd_cache bd' = [] \<and>
     bd_platter bd' = apply_sectors (sector_writes (commit_target j rt) (commit_block_of rt)) (bd_view bd1)"
    using ring_commit_effect [OF assms(3) r d'] by blast
  from e show ?thesis
  proof
    assume "r \<noteq> Inr () \<and> (\<forall>p. crashed bd' p \<longrightarrow> crashed bd1 p)"
    then show ?thesis using crashed_ring_holds [OF assms(1) some _ d room] by blast
  next
    assume "cached (set (ring_writes j (head_block (j_state j)) (batch_blocks rt))) True bd bd1 \<and> bd_cache bd' = [] \<and>
     bd_platter bd' = apply_sectors (sector_writes (commit_target j rt) (commit_block_of rt)) (bd_view bd1)"
    then show ?thesis using commit_block_durable [OF assms(1,2)] by blast
  qed
qed

section \<open>The copies of a transaction\<close>

lemma journal_copy_data:
  assumes "length page = 4096"
  shows "length (snd (journal_copy b page)) = 4096" "parse_header (snd (journal_copy b page)) = None"
proof -
  show "length (snd (journal_copy b page)) = 4096"
    using assms by (simp add: journal_copy_def Let_def)
  have zero: "get_u32 0 (splice_at 0 (replicate 4 0) page) = 0"
    using assms by (simp add: get_u32_def get_le_def slice_splice_same numeral_eq_Suc)
  show "parse_header (snd (journal_copy b page)) = None"
    using zero by (auto simp: journal_copy_def Let_def parse_header_def journal_header_of_def
        JOURNAL_BLOCK_MAGIC_def)
qed

definition pages_ok :: "BlockPageCache \<Rightarrow> Transaction \<Rightarrow> bool" where
  "pages_ok c tx \<longleftrightarrow> (\<forall>(k, p) \<in> set (enrolled_blocks tx). length (pg_data (bpc_pages c p)) = 4096)"

lemma ring_tx_of_data:
  assumes "pages_ok c tx"
  shows "\<forall>b \<in> set (rt_data (ring_tx_of c tx)). length b = 4096 \<and> parse_header b = None"
  using assms journal_copy_data by (fastforce simp: ring_tx_of_def tx_copies_def pages_ok_def)

lemma ring_tx_of_ok:
  "length (enrolled_blocks tx) \<le> entries_fit BLOCK_SIZE \<Longrightarrow> ring_tx_ok BLOCK_SIZE (ring_tx_of c tx)"
  by (simp add: ring_tx_ok_def ring_tx_of_def tx_copies_def BLOCK_SIZE_def entries_fit_def)

lemma ring_tx_of_committable:
  assumes "pages_ok c tx" "length (enrolled_blocks tx) \<le> entries_fit BLOCK_SIZE"
    "tx_seq tx = tail_seq (j_state j) + length ts" "tx_seq tx + 1 < 2 ^ 64"
    "length (ring_images BLOCK_SIZE ts) + ring_needed (ring_tx_of c tx) \<le> ring_size j"
  shows "committable j ts (ring_tx_of c tx)"
  using assms ring_tx_of_data [OF assms(1)] ring_tx_of_ok [OF assms(2)]
  by (simp add: committable_def) (simp add: ring_tx_of_def)

section \<open>The journal superblock\<close>

lemma journal_sb_checksum_crc [simp]:
  "journal_sb_checksum (jsb\<lparr>jsb_crc32 := c\<rparr>) = journal_sb_checksum jsb"
  by (simp add: journal_sb_checksum_def)

lemma current_jsb_fields:
  "jsb_magic (current_jsb j) = JOURNAL_MAGIC" "jsb_version (current_jsb j) = 1"
  "jsb_block_count (current_jsb j) = word_of_nat (j_block_count j)"
  "jsb_tail_seq (current_jsb j) = word_of_nat (tail_seq (j_state j))"
  "jsb_tail_block (current_jsb j) = word_of_nat (tail_block (j_state j))"
  "jsb_crc32 (current_jsb j) = journal_sb_checksum (current_jsb j)"
  "journal_sb_wf (current_jsb j)"
  by (simp_all add: current_jsb_def Let_def journal_sb_wf_def journal_sb_checksum_def)

lemma jsb_block_read:
  "length (jsb_block j) = 4096" "journal_sb_of (jsb_block j) = current_jsb j"
proof -
  have len: "length (journal_sb_bytes (current_jsb j)) = 64"
    by (rule struct_sizes(5) [OF current_jsb_fields(7)])
  show "length (jsb_block j) = 4096"
    by (simp add: jsb_block_def len BLOCK_SIZE_def)
  show "journal_sb_of (jsb_block j) = current_jsb j"
    unfolding jsb_block_def splice_at_def by (simp add: current_jsb_fields(7))
qed

lemma jsb_write_ring_block:
  "ring_block j (apply_sectors (sector_writes
     (j_partition_start_lba j + j_first_block j * SECTORS_PER_BLOCK) (jsb_block j)) p) i = ring_block j p i"
  unfolding ring_block_def
  by (rule get_sectors_disjoint)
    (auto simp: jsb_block_read(1) journal_block_lba_def SECTORS_PER_BLOCK_def)

lemma jsb_write_ring_holds:
  assumes "ring_holds j p ts"
  shows "ring_holds j (apply_sectors (sector_writes
     (j_partition_start_lba j + j_first_block j * SECTORS_PER_BLOCK) (jsb_block j)) p) ts"
proof -
  let ?p = "apply_sectors (sector_writes
     (j_partition_start_lba j + j_first_block j * SECTORS_PER_BLOCK) (jsb_block j)) p"
  have "region_block j ?p 0 = jsb_block j"
    using get_sectors_same [of "jsb_block j" 8] by (simp add: region_block_def jsb_block_read(1))
  then have "jsb_anchors j ?p"
    using current_jsb_fields [of j] by (simp add: jsb_anchors_def jsb_block_read(2) Let_def)
  then show ?thesis
    using assms
    by (simp add: ring_holds_def stored_region commits_below_def jsb_write_ring_block)
qed

text \<open>Journals with the same geometry and the same tail describe the same ring.\<close>

definition same_ring :: "Journal \<Rightarrow> Journal \<Rightarrow> bool" where
  "same_ring j j' \<longleftrightarrow> j_first_block j' = j_first_block j \<and>
     j_partition_start_lba j' = j_partition_start_lba j \<and> j_block_count j' = j_block_count j \<and>
     tail_seq (j_state j') = tail_seq (j_state j) \<and> tail_block (j_state j') = tail_block (j_state j)"

lemma same_ring_blocks:
  assumes "same_ring j j'"
  shows "ring_size j' = ring_size j" "ring_block j' = ring_block j" "region_block j' = region_block j"
    "region_read j' = region_read j"
proof -
  show r: "ring_size j' = ring_size j" using assms by (simp add: same_ring_def ring_size_def)
  show "ring_block j' = ring_block j"
    using assms r by (intro ext) (simp add: ring_block_def journal_block_lba_def same_ring_def)
  show b: "region_block j' = region_block j"
    using assms by (intro ext) (simp add: region_block_def same_ring_def)
  show "region_read j' = region_read j" using b by (intro ext) (simp add: region_read_def)
qed

lemma same_ring_holds: "same_ring j j' \<Longrightarrow> ring_holds j' p ts \<longleftrightarrow> ring_holds j p ts"
  using same_ring_blocks [of j j']
  by (simp add: ring_holds_def commits_below_def jsb_anchors_def same_ring_def)

lemma same_ring_recover: "same_ring j j' \<Longrightarrow> recover j' p = recover j p"
  using same_ring_blocks [of j j'] by (simp add: recover_def)

lemma same_ring_quiet: "same_ring j j' \<Longrightarrow> quiet_cache j' bd \<longleftrightarrow> quiet_cache j bd"
  by (simp add: same_ring_def quiet_cache_def journal_sector_def)

lemma publish_commit_same_ring: "same_ring j (publish_commit seq pos n j)"
  by (simp add: same_ring_def publish_commit_def set_committed_seq_def Let_def)

lemma publish_commit_head: "head_block (j_state (publish_commit seq pos n j)) = pos"
  by (simp add: publish_commit_def set_committed_seq_def Let_def)

lemma write_journal_sb_crash:
  assumes "ring_holds j (bd_platter bd) ts" "quiet_cache j bd" "bd_cache bd = []"
    "write_journal_sb beh j bd = (r, bd')"
  shows "ring_holds j (bd_platter bd') ts \<and> quiet_cache j bd' \<and> bd_cache bd' = []"
proof -
  have "sectors_ok (apply_sectors (sector_writes
      (j_partition_start_lba j + j_first_block j * SECTORS_PER_BLOCK) (jsb_block j)) (bd_platter bd))"
    using sectors_ok_write [of "bd_platter bd" "jsb_block j" 8] assms(2)
    by (simp add: quiet_cache_def jsb_block_read(1))
  then show ?thesis
    using fua_effect [OF assms(4) [unfolded write_journal_sb_def] assms(3)] assms(1-3)
      jsb_write_ring_holds [OF assms(1)]
    by (auto simp: quiet_cache_def)
qed

section \<open>One commit, any crash\<close>

lemma commit_at_crash:
  assumes "journal_on_disk (w_journal w) (w_dev w) ts" "committable (w_journal w) ts rt"
    "commit_at beh tx rt (head_block (j_state (w_journal w))) w = Ret (r, w')"
    "crashed (w_dev w') p"
  shows "(ring_holds (w_journal w) p ts \<and> (\<exists>e. r = Inl e)) \<or> ring_holds (w_journal w) p (ts @ [rt])"
    "r = Inr () \<Longrightarrow> journal_on_disk (w_journal w') (w_dev w') (ts @ [rt])"
proof -
  let ?j = "w_journal w" and ?h = "head_block (j_state (w_journal w))"
  let ?j' = "publish_commit (tx_seq tx) (?h + ring_needed rt) (ring_needed rt) ?j"
  obtain r1 bd1 where c: "ring_commit beh ?j ?h rt (w_dev w) = Ret (r1, bd1)"
    using assms(3) by (auto simp: commit_at_def run_bind_eq_Ret)
  have "((ring_holds ?j p ts \<and> (\<exists>e. r = Inl e)) \<or> ring_holds ?j p (ts @ [rt])) \<and>
    (r = Inr () \<longrightarrow> journal_on_disk (w_journal w') (w_dev w') (ts @ [rt]))"
  proof (cases r1)
    case (Inl e)
    then have "r = Inl e" "w_dev w' = bd1" using assms(3) c by (auto simp: commit_at_def)
    then show ?thesis
      using ring_commit_crash [OF assms(1,2) c] assms(4) by (auto simp: crashed_no_cache)
  next
    case (Inr u)
    have bd1: "ring_holds ?j' (bd_platter bd1) (ts @ [rt])" "quiet_cache ?j' bd1" "bd_cache bd1 = []"
      using ring_commit_crash [OF assms(1,2) c] Inr
        same_ring_holds [OF publish_commit_same_ring] same_ring_quiet [OF publish_commit_same_ring]
      by auto
    obtain bd2 where jsb: "write_journal_sb beh ?j' bd1 = (r, bd2)" and w': "w' = w\<lparr>w_journal := ?j', w_dev := bd2\<rparr>"
      using assms(3) c Inr by (auto simp: commit_at_def Let_def split: prod.splits)
    have fin: "ring_holds ?j' p (ts @ [rt])" "quiet_cache ?j' bd2"
      "ring_holds ?j' (bd_platter bd2) (ts @ [rt])"
      using write_journal_sb_crash [OF bd1 jsb] assms(4) w' by (auto simp: crashed_no_cache)
    have "tail_block (j_state ?j') + length (ring_images BLOCK_SIZE (ts @ [rt])) = ?h + ring_needed rt"
      using assms(1) publish_commit_same_ring [of ?j]
      by (simp add: journal_on_disk_def same_ring_def length_ring_tx_image)
    then have "journal_on_disk ?j' bd2 (ts @ [rt])"
      using fin by (simp add: journal_on_disk_def publish_commit_head)
    then show ?thesis
      using fin(1) same_ring_holds [OF publish_commit_same_ring] w' by auto
  qed
  then show "(ring_holds ?j p ts \<and> (\<exists>e. r = Inl e)) \<or> ring_holds ?j p (ts @ [rt])"
    "r = Inr () \<Longrightarrow> journal_on_disk (w_journal w') (w_dev w') (ts @ [rt])" by blast+
qed

end
