(* ===== verification/Journal_Durability.thy ===== *)
theory Journal_Durability
  imports Journal_Recovery
begin

text \<open>
  Crash safety of \<open>seal_and_commit\<close> (\<open>kernel/src/fs/journal/mod.rs\<close>), stated over whole
  commits: atomic under power loss whatever the device answers, durable once it reports
  success, and successful when the device works.  The instance used throughout is a freshly
  formatted journal of 64 blocks.
\<close>

section \<open>A commit with room in the ring\<close>

lemma find_space_room:
  assumes "tail_block s \<le> head_block s" "needed \<le> ring_size (w_journal w) - (head_block s - tail_block s)"
    "s = j_state (w_journal w)"
  shows "find_space beh needed CHECKPOINT_ATTEMPTS w = (Inr (Some (head_block s)), w)"
proof -
  have "CHECKPOINT_ATTEMPTS = Suc (CHECKPOINT_ATTEMPTS - 1)" by (simp add: CHECKPOINT_ATTEMPTS_def)
  then obtain n where n: "CHECKPOINT_ATTEMPTS = Suc n" ..
  show ?thesis unfolding n using assms by (simp add: ring_used_def)
qed

lemma commit_one_room:
  assumes "journal_on_disk (w_journal w) (w_dev w) ts" "\<not> tx_is_empty tx"
    "length (ring_images BLOCK_SIZE ts) + ring_needed (ring_tx_of (w_cache w) tx) \<le> ring_size (w_journal w)"
  shows "commit_one beh tx w =
    commit_at beh tx (ring_tx_of (w_cache w) tx) (head_block (j_state (w_journal w))) w"
proof -
  have "tail_block (j_state (w_journal w)) + length (ring_images BLOCK_SIZE ts)
      = head_block (j_state (w_journal w))"
    using assms(1) by (simp add: journal_on_disk_def)
  then have "find_space beh (ring_needed (ring_tx_of (w_cache w) tx)) CHECKPOINT_ATTEMPTS w =
      (Inr (Some (head_block (j_state (w_journal w)))), w)"
    using assms(3) by (intro find_space_room) auto
  then show ?thesis using assms(2) by (simp add: commit_one_def Let_def)
qed

lemma commit_at_returns:
  assumes "\<forall>b \<in> set (rt_data rt). length b = 4096"
  shows "\<exists>r w'. commit_at beh tx rt pos w = Ret (r, w')"
proof -
  obtain dr bd1 where b: "write_ring_batch beh (w_journal w) pos rt (w_dev w) = Ret (dr, bd1)"
    unfolding write_ring_batch_alt [OF assms] Let_def case_prod_beta by blast
  have "\<exists>r bd. ring_commit beh (w_journal w) pos rt (w_dev w) = Ret (r, bd)"
    by (cases dr)
      (auto simp: ring_commit_def b build_commit_block_def BLOCK_SIZE_def split: prod.split sum.split)
  then show ?thesis
    by (auto simp: commit_at_def Let_def split: sum.split prod.split)
qed

section \<open>A freshly formatted journal\<close>

definition formatted :: "Journal \<Rightarrow> blockdev" where
  "formatted j = \<lparr>bd_platter = apply_sectors (sector_writes
       (j_partition_start_lba j + j_first_block j * SECTORS_PER_BLOCK) (jsb_block j))
       (\<lambda>_. replicate 512 0), bd_cache = [], bd_cmds = 0\<rparr>"

lemma get_sectors_zero: "get_sectors lba n (\<lambda>_. replicate 512 0) = replicate (512 * n) 0"
proof (induction n)
  case 0
  then show ?case by (simp add: get_sectors_def)
next
  case (Suc n)
  then show ?case by (simp add: get_sectors_def replicate_add [symmetric] add.commute)
qed

lemma formatted_on_disk:
  assumes "0 < ring_size j" "head_block (j_state j) = tail_block (j_state j)"
    "tail_seq (j_state j) < 2 ^ 64" "tail_block (j_state j) < 2 ^ 64"
  shows "journal_on_disk j (formatted j) []"
proof -
  let ?p = "bd_platter (formatted j)"
  have rb: "ring_block j ?p i = replicate (512 * 8) 0" for i
    unfolding formatted_def by (simp only: blockdev.select_convs jsb_write_ring_block)
      (simp only: ring_block_def get_sectors_zero)
  have "region_block j ?p 0 = jsb_block j"
    using get_sectors_same [of "jsb_block j" 8]
    by (simp add: region_block_def formatted_def jsb_block_read(1))
  then have "jsb_anchors j ?p"
    using current_jsb_fields [of j] by (simp add: jsb_anchors_def jsb_block_read(2) Let_def)
  moreover have "commits_below j ?p n" for n
    by (simp add: commits_below_def rb)
  moreover have "sectors_ok ?p"
    using sectors_ok_write [of "\<lambda>_. replicate 512 0" "jsb_block j" 8]
    by (simp add: formatted_def jsb_block_read(1) sectors_ok_def)
  ultimately show ?thesis
    using assms by (simp add: journal_on_disk_def ring_holds_def quiet_cache_def formatted_def)
qed

section \<open>A device without faults\<close>

lemma write_ring_batch_dev_ok:
  assumes "dev_ok beh" "\<forall>b \<in> set (rt_data rt). length b = 4096"
  shows "\<exists>bd'. write_ring_batch beh j pos rt bd = Ret (Inr (), bd')"
proof -
  define qb1 where "qb1 = submit_journal_block beh j pos
    (descriptor_image BLOCK_SIZE (rt_seq rt) (rt_tx_id rt) (rt_entries rt)) (rw_new, bd)"
  define qb2 where "qb2 = submit_runs beh j (pos + 1) (concat (rt_data rt)) 0 qb1"
  define qb3 where "qb3 = (if rt_revokes rt = [] then qb2
      else submit_journal_block beh j (pos + 1 + length (rt_data rt))
        (revoke_image BLOCK_SIZE (rt_seq rt) (rt_tx_id rt) (rt_revokes rt)) qb2)"
  have "rw_clean (fst qb3)"
    using submit_journal_block_clean [OF assms(1)] submit_runs_clean [OF assms(1)]
    by (simp add: qb1_def qb2_def qb3_def)
  from rw_drain_clean [OF this, of beh "snd qb3"] show ?thesis
    unfolding write_ring_batch_alt [OF assms(2)] Let_def
      qb1_def [symmetric] qb2_def [symmetric] qb3_def [symmetric] by auto
qed

lemma commit_at_dev_ok:
  assumes "dev_ok beh" "\<forall>b \<in> set (rt_data rt). length b = 4096"
  shows "\<exists>w'. commit_at beh tx rt pos w = Ret (Inr (), w')"
proof -
  obtain bd1 where b: "write_ring_batch beh (w_journal w) pos rt (w_dev w) = Ret (Inr (), bd1)"
    using write_ring_batch_dev_ok [OF assms] by blast
  have "\<exists>bd. ring_commit beh (w_journal w) pos rt (w_dev w) = Ret (Inr (), bd)"
    by (simp add: ring_commit_def b flush_blocking_def dev_ok_retry_loop [OF assms(1)]
        build_commit_block_def BLOCK_SIZE_def write_journal_block_fua_def write_blocking_def)
  then show ?thesis
    by (auto simp: commit_at_def Let_def write_journal_sb_def write_blocking_def
        dev_ok_retry_loop [OF assms(1)])
qed

lemma journal_on_disk_crashed:
  assumes "journal_on_disk j bd ts" "crashed bd p"
  shows "ring_holds j p ts"
proof -
  have q: "quiet_cache j bd" "0 < ring_size j" "ring_holds j (bd_platter bd) ts"
    using assms(1) by (auto simp: journal_on_disk_def ring_holds_def)
  have none: "some_writes (ring_writes j 0 []) bd bd" by (simp add: some_writes_def)
  have "ring_block j p i = ring_block j (bd_platter bd) i" for i
    by (rule crashed_batch_other [OF q(1) none assms(2) _ q(2)]) simp_all
  moreover have "region_block j p 0 = region_block j (bd_platter bd) 0"
    by (rule crashed_batch_jsb [OF q(1) none assms(2) _ q(2)]) simp
  ultimately show ?thesis
    using q(3) by (simp add: ring_holds_def stored_region commits_below_def jsb_anchors_def)
qed

section \<open>An example volume\<close>

definition working_device :: dev_behaviour where
  "working_device = \<lparr>submit_err = \<lambda>_. None, wait_err = \<lambda>_. None, landed = \<lambda>_. True,
     retry_window = \<lambda>_. 0\<rparr>"

lemma working_device_ok: "dev_ok working_device"
  by (simp add: dev_ok_def working_device_def)

definition example_journal :: Journal where
  "example_journal = journal_new 0 16 4 64 10 10 0"

definition example_cache :: BlockPageCache where
  "example_cache = \<lparr>bpc_pages = (\<lambda>_. \<lparr>pg_key = (0, 900), pg_data = replicate 4096 7, pg_dirty = True,
     pg_expired = False\<rparr>), bpc_shards = []\<rparr>"

definition example_commit :: Transaction where
  "example_commit = \<lparr>tx_seq = 10, tx_id = 10, enrolled_blocks = [((0, 900), 0)], tx_revokes = []\<rparr>"

definition example_commit_world :: World where
  "example_commit_world = \<lparr>w_cache = example_cache, w_journal = example_journal,
     w_dev = formatted example_journal\<rparr>"

lemma example_on_disk:
  "journal_on_disk (w_journal example_commit_world) (w_dev example_commit_world) []"
  unfolding example_commit_world_def World.select_convs
  by (rule formatted_on_disk) (simp_all add: example_journal_def journal_new_def ring_size_def)

lemma example_tx_facts:
  "\<not> tx_is_empty example_commit" "pages_ok (w_cache example_commit_world) example_commit"
  "length (enrolled_blocks example_commit) \<le> entries_fit BLOCK_SIZE"
  "tx_seq example_commit = tail_seq (j_state (w_journal example_commit_world)) + length []"
  "tx_seq example_commit + 1 < 2 ^ 64"
  "length (ring_images BLOCK_SIZE []) + ring_needed (ring_tx_of (w_cache example_commit_world) example_commit)
    \<le> ring_size (w_journal example_commit_world)"
  by (simp_all add: example_commit_def example_commit_world_def example_cache_def example_journal_def
      tx_is_empty_def pages_ok_def entries_fit_def BLOCK_SIZE_def journal_new_def ring_needed_def
      ring_tx_of_def tx_copies_def tx_revoke_entries_def ring_size_def)

lemma example_returns:
  "\<exists>r w'. commit_one beh example_commit example_commit_world = Ret (r, w')"
  unfolding commit_one_room [OF example_on_disk example_tx_facts(1,6)]
  using ring_tx_of_data [OF example_tx_facts(2)] by (intro commit_at_returns) blast

lemma example_commit_ok:
  "\<exists>w'. commit_one working_device example_commit example_commit_world = Ret (Inr (), w')"
  unfolding commit_one_room [OF example_on_disk example_tx_facts(1,6)]
  using ring_tx_of_data [OF example_tx_facts(2)]
  by (intro commit_at_dev_ok [OF working_device_ok]) blast

section \<open>Crash safety of a commit\<close>

text \<open>C1. Committing a transaction is atomic under power loss.  Take a journal whose ring holds
  the committed transactions \<open>ts\<close>, a transaction that is next in sequence, fits one descriptor
  block and has room in the ring, and let the device accept or refuse any of the commands of
  the commit.  Whatever part of the cached sectors a power cut then keeps, recovery finds
  either exactly \<open>ts\<close>, and then the commit did not report success, or exactly \<open>ts\<close> followed by
  the new transaction.\<close>

theorem commit_crash_atomic:
  assumes "journal_on_disk (w_journal w) (w_dev w) ts" "\<not> tx_is_empty tx"
    "pages_ok (w_cache w) tx" "length (enrolled_blocks tx) \<le> entries_fit BLOCK_SIZE"
    "tx_seq tx = tail_seq (j_state (w_journal w)) + length ts" "tx_seq tx + 1 < 2 ^ 64"
    "length (ring_images BLOCK_SIZE ts) + ring_needed (ring_tx_of (w_cache w) tx)
       \<le> ring_size (w_journal w)"
    "commit_one beh tx w = Ret (r, w')" "crashed (w_dev w') p"
  shows "\<exists>s. recover (w_journal w) p = Inr s \<and>
    (js_txs s = map scanned ts \<and> r \<noteq> Inr () \<or>
     js_txs s = map scanned (ts @ [ring_tx_of (w_cache w) tx]))"
proof -
  have "committable (w_journal w) ts (ring_tx_of (w_cache w) tx)"
    using assms(3-7) by (intro ring_tx_of_committable) auto
  then have "(ring_holds (w_journal w) p ts \<and> (\<exists>e. r = Inl e)) \<or>
      ring_holds (w_journal w) p (ts @ [ring_tx_of (w_cache w) tx])"
    using commit_at_crash(1) [OF assms(1)] assms(8,9) commit_one_room [OF assms(1,2,7)] by simp
  then show ?thesis
    by (auto dest!: recover_ring_holds)
qed

theorem commit_crash_atomic_witness:
  "\<exists>r w' s. commit_one working_device example_commit
       example_commit_world = Ret (r, w') \<and>
     recover example_journal (bd_view (w_dev w')) = Inr s \<and>
     (js_txs s = map scanned [] \<and> r \<noteq> Inr () \<or>
      js_txs s = map scanned ([] @ [ring_tx_of (w_cache example_commit_world) example_commit]))"
proof -
  obtain r w' where c: "commit_one working_device example_commit
      example_commit_world = Ret (r, w')"
    using example_returns by blast
  have "w_journal example_commit_world = example_journal" by (simp add: example_commit_world_def)
  then show ?thesis
    using commit_crash_atomic [OF example_on_disk example_tx_facts c view_crashed] c by auto
qed

text \<open>C3. A commit that reports success keeps the journal and its disk image in step: the ring
  then holds the committed transactions followed by the new one, nothing of it is left in
  the volatile write cache, and the journal superblock on the platter still anchors the tail.\<close>

theorem commit_keeps_journal_on_disk:
  assumes "journal_on_disk (w_journal w) (w_dev w) ts" "\<not> tx_is_empty tx"
    "pages_ok (w_cache w) tx" "length (enrolled_blocks tx) \<le> entries_fit BLOCK_SIZE"
    "tx_seq tx = tail_seq (j_state (w_journal w)) + length ts" "tx_seq tx + 1 < 2 ^ 64"
    "length (ring_images BLOCK_SIZE ts) + ring_needed (ring_tx_of (w_cache w) tx)
       \<le> ring_size (w_journal w)"
    "commit_one beh tx w = Ret (Inr (), w')"
  shows "journal_on_disk (w_journal w') (w_dev w') (ts @ [ring_tx_of (w_cache w) tx])"
proof -
  have "committable (w_journal w) ts (ring_tx_of (w_cache w) tx)"
    using assms(3-7) by (intro ring_tx_of_committable) auto
  then show ?thesis
    using commit_at_crash(2) [OF assms(1) _ _ view_crashed] assms(8) commit_one_room [OF assms(1,2,7)]
    by simp
qed

theorem commit_keeps_journal_on_disk_witness:
  "\<exists>w'. commit_one working_device example_commit example_commit_world = Ret (Inr (), w') \<and>
     journal_on_disk (w_journal w') (w_dev w') ([] @ [ring_tx_of (w_cache example_commit_world) example_commit])"
proof -
  obtain w' where "commit_one working_device example_commit example_commit_world = Ret (Inr (), w')"
    using example_commit_ok by blast
  then show ?thesis
    using commit_keeps_journal_on_disk [OF example_on_disk example_tx_facts] by blast
qed

text \<open>C4. On a working device a commit for which the ring has room succeeds, and recovery of
  the disk it leaves, whatever a power cut does to the write cache afterwards, finds the
  committed transactions with the new one at the end.\<close>

theorem commit_succeeds:
  assumes "dev_ok beh" "journal_on_disk (w_journal w) (w_dev w) ts" "\<not> tx_is_empty tx"
    "pages_ok (w_cache w) tx" "length (enrolled_blocks tx) \<le> entries_fit BLOCK_SIZE"
    "tx_seq tx = tail_seq (j_state (w_journal w)) + length ts" "tx_seq tx + 1 < 2 ^ 64"
    "length (ring_images BLOCK_SIZE ts) + ring_needed (ring_tx_of (w_cache w) tx)
       \<le> ring_size (w_journal w)"
  shows "\<exists>w'. commit_one beh tx w = Ret (Inr (), w') \<and>
    (\<forall>p. crashed (w_dev w') p \<longrightarrow>
       (\<exists>s. recover (w_journal w') p = Inr s \<and> js_txs s = map scanned (ts @ [ring_tx_of (w_cache w) tx])))"
proof -
  have c: "committable (w_journal w) ts (ring_tx_of (w_cache w) tx)"
    using assms(4-8) by (intro ring_tx_of_committable) auto
  have d: "\<forall>b \<in> set (rt_data (ring_tx_of (w_cache w) tx)). length b = 4096"
    using ring_tx_of_data [OF assms(4)] by blast
  obtain w' where w': "commit_at beh tx (ring_tx_of (w_cache w) tx) (head_block (j_state (w_journal w))) w
      = Ret (Inr (), w')"
    using commit_at_dev_ok [OF assms(1) d] by blast
  have on: "journal_on_disk (w_journal w') (w_dev w') (ts @ [ring_tx_of (w_cache w) tx])"
    by (rule commit_at_crash(2) [OF assms(2) c w' view_crashed refl])
  have "\<exists>s. recover (w_journal w') p = Inr s \<and> js_txs s = map scanned (ts @ [ring_tx_of (w_cache w) tx])"
    if "crashed (w_dev w') p" for p
    using recover_ring_holds [OF journal_on_disk_crashed [OF on that]] by blast
  then show ?thesis
    using w' commit_one_room [OF assms(2,3,8)] by auto
qed

theorem commit_succeeds_witness:
  "\<exists>w'. commit_one working_device example_commit example_commit_world = Ret (Inr (), w') \<and>
    (\<forall>p. crashed (w_dev w') p \<longrightarrow> (\<exists>s. recover (w_journal w') p = Inr s \<and>
       js_txs s = map scanned ([] @ [ring_tx_of (w_cache example_commit_world) example_commit])))"
  by (rule commit_succeeds [OF working_device_ok example_on_disk example_tx_facts])

end
