(* ===== verification/Journal_Replay.thy ===== *)
theory Journal_Replay
  imports Journal_Durability
begin

text \<open>
  Replay and the journal part of mounting: \<open>kernel/src/fs/journal/replay.rs\<close> and
  \<open>EfsDriver::new\<close> in \<open>kernel/src/fs/efs/mod.rs\<close>.  Replay scans the ring, writes every copy that
  no revoke vetoes to its home block with up to sixteen commands outstanding, and flushes;
  mounting validates the journal superblock, replays, and restarts the journal behind what
  it found.  The outcome of reading a sector run, after the retries of the block layer, is
  the parameter \<open>rd_err\<close>; the mount reads through a page cache that holds nothing yet.
\<close>

section \<open>Replay\<close>

record ReplayResult =
  txs_applied :: nat
  rr_next_seq :: u64
  rr_next_block :: nat

definition MAX_INFLIGHT_REPLAY :: nat where "MAX_INFLIGHT_REPLAY = 16"

definition block_read :: "(nat \<Rightarrow> BlockError option) \<Rightarrow> nat \<Rightarrow> sectors \<Rightarrow> BlockError + bytes" where
  "block_read rd_err lba d = (case rd_err lba of Some e \<Rightarrow> Inl e | None \<Rightarrow> Inr (get_sectors lba 8 d))"

record ReplayState =
  rs_inflight :: "InflightWrite list"
  rs_failure :: "BlockError option"
  rs_dev :: blockdev

text \<open>Make room in the queue; the first failure ends the replay.\<close>

fun replay_reap :: "dev_behaviour \<Rightarrow> InflightWrite list \<Rightarrow> blockdev
    \<Rightarrow> InflightWrite list \<times> BlockError option \<times> blockdev" where
  "replay_reap beh [] bd = ([], None, bd)"
| "replay_reap beh (c # cs) bd =
     (if length (c # cs) \<ge> MAX_INFLIGHT_REPLAY
      then case reap_write beh c bd of
             (Inr _, bd') \<Rightarrow> replay_reap beh cs bd'
           | (Inl e, bd') \<Rightarrow> (cs, Some e, bd')
      else (c # cs, None, bd))"

definition replay_block :: "dev_behaviour \<Rightarrow> u64 \<Rightarrow> bytes \<Rightarrow> ReplayState \<Rightarrow> ReplayState run" where
  "replay_block beh fs_block data st =
     (case replay_reap beh (rs_inflight st) (rs_dev st) of
        (infl, Some e, bd) \<Rightarrow> Ret \<lparr>rs_inflight = infl, rs_failure = Some e, rs_dev = bd\<rparr>
      | (infl, None, bd) \<Rightarrow>
          if unat fs_block * SECTORS_PER_BLOCK \<ge> 2 ^ 64 then Panic
          else
            let lba = unat fs_block * SECTORS_PER_BLOCK in
            case issue beh (apply_write NONE lba data) bd of
              (Inr outcome, bd') \<Rightarrow>
                Ret \<lparr>rs_inflight = infl @ [\<lparr>iw_lba = lba, iw_data = data, iw_outcome = outcome\<rparr>],
                     rs_failure = None, rs_dev = bd'\<rparr>
            | (Inl e, bd') \<Rightarrow> Ret \<lparr>rs_inflight = infl, rs_failure = Some e, rs_dev = bd'\<rparr>)"

fun replay_tx :: "dev_behaviour \<Rightarrow> (u64 \<rightharpoonup> u64) \<Rightarrow> ScannedTx \<Rightarrow> nat list \<Rightarrow> ReplayState
    \<Rightarrow> ReplayState run" where
  "replay_tx beh revokes tx [] st = Ret st"
| "replay_tx beh revokes tx (i # is) st =
     (case replay_write tx i revokes of
        None \<Rightarrow> replay_tx beh revokes tx is st
      | Some (fs_block, data) \<Rightarrow>
          run_bind (replay_block beh fs_block data st) (\<lambda>st'.
            if rs_failure st' \<noteq> None then Ret st' else replay_tx beh revokes tx is st'))"

fun replay_txs :: "dev_behaviour \<Rightarrow> (u64 \<rightharpoonup> u64) \<Rightarrow> ScannedTx list \<Rightarrow> nat \<Rightarrow> ReplayState
    \<Rightarrow> (nat \<times> ReplayState) run" where
  "replay_txs beh revokes [] applied st = Ret (applied, st)"
| "replay_txs beh revokes (tx # txs) applied st =
     run_bind (replay_tx beh revokes tx [0..<length (st_entries tx)] st) (\<lambda>st'.
       if rs_failure st' \<noteq> None then Ret (applied, st')
       else replay_txs beh revokes txs (applied + 1) st')"

definition replay :: "dev_behaviour \<Rightarrow> (nat \<Rightarrow> BlockError option) \<Rightarrow> nat \<Rightarrow> nat \<Rightarrow> nat \<Rightarrow> u64 \<Rightarrow> nat
    \<Rightarrow> blockdev \<Rightarrow> ((BlockError + ReplayResult) \<times> blockdev) run" where
  "replay beh rd_err first_block block_count start_lba tl_seq tl_block bd =
     (if block_count = 0 then Panic
      else case scan_committed tl_seq tl_block (block_count - 1) BLOCK_SIZE
          (\<lambda>region_block. block_read rd_err
             (start_lba + (first_block + region_block) * SECTORS_PER_BLOCK) (bd_view bd)) of
        Inl e \<Rightarrow> Ret (Inl e, bd)
      | Inr scan \<Rightarrow>
          if js_txs scan = []
          then Ret (Inr \<lparr>txs_applied = 0, rr_next_seq = tl_seq, rr_next_block = tl_block\<rparr>, bd)
          else run_bind (replay_txs beh (js_revokes scan) (js_txs scan) 0
                 \<lparr>rs_inflight = [], rs_failure = None, rs_dev = bd\<rparr>) (\<lambda>(applied, st).
            case reap_while beh 0 (rs_inflight st) (rs_failure st) (rs_dev st) of
              (_, Some e, bd1) \<Rightarrow> Ret (Inl e, bd1)
            | (_, None, bd1) \<Rightarrow>
                (case flush_blocking beh bd1 of
                   (Inl e, bd2) \<Rightarrow> Ret (Inl e, bd2)
                 | (Inr _, bd2) \<Rightarrow> Ret (Inr \<lparr>txs_applied = applied,
                     rr_next_seq = js_next_seq scan, rr_next_block = js_next_block scan\<rparr>, bd2))))"

section \<open>Mounting\<close>

definition updated_jsb :: "u32 \<Rightarrow> u64 \<Rightarrow> nat \<Rightarrow> JournalSuperblock" where
  "updated_jsb block_count seq block =
     (let jsb = \<lparr>jsb_magic = JOURNAL_MAGIC, jsb_version = 1, jsb_block_count = block_count,
            jsb_block_size = 4096, jsb_tail_seq = seq, jsb_head_seq = seq,
            jsb_tail_block = word_of_nat block, jsb_head_block = word_of_nat block,
            jsb_crc32 = 0, jsb_reserved = replicate 12 0\<rparr>
      in jsb\<lparr>jsb_crc32 := journal_sb_checksum jsb\<rparr>)"

definition check_jsb :: "JournalSuperblock \<Rightarrow> bool" where
  "check_jsb jsb \<longleftrightarrow> jsb_magic jsb = JOURNAL_MAGIC \<and> jsb_version jsb = 1 \<and>
     jsb_crc32 jsb = journal_sb_checksum jsb"

definition mount_journal :: "dev_behaviour \<Rightarrow> (nat \<Rightarrow> BlockError option) \<Rightarrow> nat \<Rightarrow> nat \<Rightarrow> nat
    \<Rightarrow> blockdev \<Rightarrow> ((Error + Journal) \<times> blockdev) run" where
  "mount_journal beh rd_err dev start_lba first bd =
     (let j_lba = start_lba + first * SECTORS_PER_BLOCK;
          j_page_idx = j_lba div SECTORS_PER_BLOCK
      in case block_read rd_err (j_page_idx * SECTORS_PER_BLOCK) (bd_view bd) of
        Inl e \<Rightarrow> Ret (Inl (Block e), bd)
      | Inr j_bytes \<Rightarrow>
          let jsb = journal_sb_of j_bytes in
          if \<not> check_jsb jsb then Ret (Inl InvalidFs, bd)
          else run_bind (replay beh rd_err first (unat (jsb_block_count jsb)) start_lba
                 (jsb_tail_seq jsb) (unat (jsb_tail_block jsb)) bd) (\<lambda>(r, bd1).
            case r of Inl e \<Rightarrow> Ret (Inl (Block e), bd1) | Inr res \<Rightarrow>
            (case (if txs_applied res > 0
                   then write_blocking beh j_lba
                          (splice_at 0 (journal_sb_bytes (updated_jsb (jsb_block_count jsb)
                             (rr_next_seq res) (rr_next_block res))) (replicate 4096 0)) FUA bd1
                   else (Inr (), bd1)) of
               (Inl e, bd2) \<Rightarrow> Ret (Inl (Block e), bd2)
             | (Inr _, bd2) \<Rightarrow>
                 Ret (Inr (journal_new dev start_lba first (unat (jsb_block_count jsb))
                        (unat (rr_next_seq res)) (unat (rr_next_seq res)) (rr_next_block res)), bd2))))"

section \<open>What replay writes\<close>

definition replay_list :: "(u64 \<rightharpoonup> u64) \<Rightarrow> ScannedTx list \<Rightarrow> (nat \<times> bytes) list" where
  "replay_list revokes txs = map (\<lambda>(b, d). (unat b, d))
     (concat (map (\<lambda>tx. List.map_filter (\<lambda>i. replay_write tx i revokes) [0..<length (st_entries tx)]) txs))"

definition home_sectors :: "(nat \<times> bytes) list \<Rightarrow> (nat \<times> bytes) list" where
  "home_sectors ws = concat (map (\<lambda>(b, d). sector_writes (b * 8) d) ws)"

lemma home_sectors_simps [simp]:
  "home_sectors [] = []" "home_sectors ((b, d) # ws) = sector_writes (b * 8) d @ home_sectors ws"
  "home_sectors (ws @ vs) = home_sectors ws @ home_sectors vs"
  by (simp_all add: home_sectors_def)

lemma apply_home_sectors: "apply_sectors (home_sectors ws) d = home.put_all ws d"
proof (induction ws arbitrary: d)
  case Nil
  then show ?case by (simp add: home.put_all_def)
next
  case (Cons w ws)
  then show ?case
    by (cases w) (simp add: home.put_all_def apply_sectors_append flip: put_block_def)
qed

definition st_clean :: "ReplayState \<Rightarrow> bool" where
  "st_clean st \<longleftrightarrow> rs_failure st = None \<and> (\<forall>c \<in> set (rs_inflight st). iw_outcome c = None)"

lemma replay_reap_clean:
  "\<forall>c \<in> set cs. iw_outcome c = None \<Longrightarrow>
     \<exists>cs'. replay_reap beh cs bd = (cs', None, bd) \<and> set cs' \<subseteq> set cs"
  by (induction cs) (auto simp: reap_write_clean)

text \<open>On a device without faults the replay appends its writes to the cache in order.\<close>

lemma replay_block_ok:
  assumes "dev_ok beh" "st_clean st" "unat b * 8 < 2 ^ 64"
  shows "\<exists>st'. replay_block beh b d st = Ret st' \<and> st_clean st' \<and>
    bd_platter (rs_dev st') = bd_platter (rs_dev st) \<and>
    bd_cache (rs_dev st') = bd_cache (rs_dev st) @ sector_writes (unat b * 8) d"
proof -
  obtain cs where r: "replay_reap beh (rs_inflight st) (rs_dev st) = (cs, None, rs_dev st)"
    "set cs \<subseteq> set (rs_inflight st)"
    using replay_reap_clean assms(2) unfolding st_clean_def by blast
  then show ?thesis
    using assms by (auto simp: replay_block_def dev_ok_issue SECTORS_PER_BLOCK_def st_clean_def Let_def)
qed

definition appended :: "(nat \<times> bytes) list \<Rightarrow> ReplayState \<Rightarrow> ReplayState \<Rightarrow> bool" where
  "appended ws st st' \<longleftrightarrow> st_clean st' \<and> bd_platter (rs_dev st') = bd_platter (rs_dev st) \<and>
     bd_cache (rs_dev st') = bd_cache (rs_dev st) @ home_sectors ws"

lemma map_filter_Cons:
  "List.map_filter f (x # xs) = (case f x of None \<Rightarrow> List.map_filter f xs | Some y \<Rightarrow> y # List.map_filter f xs)"
  by (simp add: List.map_filter_def split: option.split)

lemma replay_tx_ok:
  assumes "dev_ok beh" "st_clean st"
    "\<forall>(b, d) \<in> set (List.map_filter (\<lambda>i. replay_write tx i m) is). unat b * 8 < 2 ^ 64"
  shows "\<exists>st'. replay_tx beh m tx is st = Ret st' \<and>
    appended (map (\<lambda>(b, d). (unat b, d)) (List.map_filter (\<lambda>i. replay_write tx i m) is)) st st'"
  using assms(2,3)
proof (induction "is" arbitrary: st)
  case Nil
  then show ?case by (simp add: appended_def List.map_filter_def)
next
  case (Cons i "is")
  show ?case
  proof (cases "replay_write tx i m")
    case None
    then show ?thesis using Cons by (simp add: map_filter_Cons)
  next
    case (Some w)
    obtain b d where w: "w = (b, d)" by fastforce
    obtain st1 where st1: "replay_block beh b d st = Ret st1" "st_clean st1"
      "bd_platter (rs_dev st1) = bd_platter (rs_dev st)"
      "bd_cache (rs_dev st1) = bd_cache (rs_dev st) @ sector_writes (unat b * 8) d"
      using replay_block_ok [OF assms(1) Cons.prems(1), of b d] Cons.prems(2) Some w
      by (auto simp: map_filter_Cons)
    then show ?thesis
      using Cons.IH [OF st1(2)] Cons.prems(2) Some w
      by (auto simp: map_filter_Cons st_clean_def appended_def)
  qed
qed

lemma replay_list_Cons: "replay_list m (tx # txs) = map (\<lambda>(b, d). (unat b, d))
    (List.map_filter (\<lambda>i. replay_write tx i m) [0..<length (st_entries tx)]) @ replay_list m txs"
  by (simp add: replay_list_def)

lemma replay_txs_ok:
  assumes "dev_ok beh" "st_clean st" "\<forall>(b, d) \<in> set (replay_list m txs). b * 8 < 2 ^ 64"
  shows "\<exists>st'. replay_txs beh m txs n st = Ret (n + length txs, st') \<and> appended (replay_list m txs) st st'"
  using assms(2,3)
proof (induction txs arbitrary: st n)
  case Nil
  then show ?case by (simp add: appended_def replay_list_def)
next
  case (Cons tx txs)
  have "\<forall>(b, d) \<in> set (List.map_filter (\<lambda>i. replay_write tx i m) [0..<length (st_entries tx)]).
      unat b * 8 < 2 ^ 64"
    using Cons.prems(2) by (fastforce simp: replay_list_Cons)
  then obtain st1 where st1: "replay_tx beh m tx [0..<length (st_entries tx)] st = Ret st1"
    "appended (map (\<lambda>(b, d). (unat b, d))
       (List.map_filter (\<lambda>i. replay_write tx i m) [0..<length (st_entries tx)])) st st1"
    using replay_tx_ok [OF assms(1) Cons.prems(1)] by blast
  have clean: "st_clean st1" using st1(2) by (simp add: appended_def)
  have bounds: "\<forall>(b, d) \<in> set (replay_list m txs). b * 8 < 2 ^ 64"
    using Cons.prems(2) by (auto simp: replay_list_Cons)
  obtain st2 where st2: "replay_txs beh m txs (n + 1) st1 = Ret (n + 1 + length txs, st2)"
    "appended (replay_list m txs) st1 st2"
    using Cons.IH [OF clean bounds] by blast
  have "rs_failure st1 = None" using clean by (simp add: st_clean_def)
  with st1 st2 show ?case by (auto simp: appended_def replay_list_Cons)
qed

lemma replay_ok:
  assumes "dev_ok beh" "0 < count"
    "scan_committed sq blk (count - 1) BLOCK_SIZE (\<lambda>rb. block_read rd_err
       (start + (first + rb) * SECTORS_PER_BLOCK) (bd_view bd)) = Inr s" "js_txs s \<noteq> []"
    "\<forall>(b, d) \<in> set (replay_list (js_revokes s) (js_txs s)). b * 8 < 2 ^ 64"
  shows "\<exists>bd'. replay beh rd_err first count start sq blk bd =
      Ret (Inr \<lparr>txs_applied = length (js_txs s), rr_next_seq = js_next_seq s,
        rr_next_block = js_next_block s\<rparr>, bd') \<and> bd_cache bd' = [] \<and>
      bd_platter bd' = home.put_all (replay_list (js_revokes s) (js_txs s)) (bd_view bd)"
proof -
  let ?st = "\<lparr>rs_inflight = [], rs_failure = None, rs_dev = bd\<rparr>"
  obtain st where st: "replay_txs beh (js_revokes s) (js_txs s) 0 ?st = Ret (length (js_txs s), st)"
    "appended (replay_list (js_revokes s) (js_txs s)) ?st st"
    using replay_txs_ok [OF assms(1) _ assms(5), of ?st 0] by (auto simp: st_clean_def)
  obtain cs where cs: "reap_while beh 0 (rs_inflight st) (rs_failure st) (rs_dev st) = (cs, None, rs_dev st)"
    using reap_while_clean [of "rs_inflight st" beh 0 "rs_failure st" "rs_dev st"] st(2)
    by (auto simp: appended_def st_clean_def)
  have "bd_view (rs_dev st) = home.put_all (replay_list (js_revokes s) (js_txs s)) (bd_view bd)"
    using st(2) by (simp add: appended_def bd_view_def apply_sectors_append apply_home_sectors)
  then show ?thesis
    using assms(2-4) st(1) cs
    by (simp add: replay_def flush_blocking_def dev_ok_retry_loop [OF assms(1)] apply_flush_def next_cmd_def)
qed

section \<open>The journal region and the home blocks\<close>

definition journal_block :: "Journal \<Rightarrow> nat \<Rightarrow> bool" where
  "journal_block j b \<longleftrightarrow> j_partition_start_lba j div 8 + j_first_block j \<le> b \<and>
     b < j_partition_start_lba j div 8 + j_first_block j + j_block_count j"

lemma aligned_region_block:
  assumes "j_partition_start_lba j mod 8 = 0"
  shows "region_block j p i = get_block (j_partition_start_lba j div 8 + j_first_block j + i) p"
proof -
  obtain q where "j_partition_start_lba j = q * 8" using assms by auto
  then have "j_partition_start_lba j + (j_first_block j + i) * 8 =
      (j_partition_start_lba j div 8 + j_first_block j + i) * 8" by simp
  then show ?thesis by (simp only: region_block_def get_block_def SECTORS_PER_BLOCK_def)
qed

lemma ring_block_region: "ring_block j p i = region_block j p (i mod ring_size j + 1)"
  by (simp add: ring_block_def region_block_def journal_block_lba_def)

lemma put_all_region:
  assumes "j_partition_start_lba j mod 8 = 0" "i < j_block_count j"
    "\<forall>(b, d) \<in> set ws. length d = 4096 \<and> \<not> journal_block j b"
  shows "region_block j (home.put_all ws p) i = region_block j p i"
  unfolding aligned_region_block [OF assms(1)]
  by (rule home.get_put_all_unwritten) (use assms(2,3) in \<open>auto simp: journal_block_def\<close>)

lemma put_all_ring_block:
  assumes "0 < ring_size j" "j_partition_start_lba j mod 8 = 0"
    "\<forall>(b, d) \<in> set ws. length d = 4096 \<and> \<not> journal_block j b"
  shows "ring_block j (home.put_all ws p) i = ring_block j p i"
proof -
  have "i mod ring_size j + 1 < j_block_count j" for i
    using mod_less_divisor [OF assms(1), of i] unfolding ring_size_def by linarith
  then show ?thesis
    unfolding ring_block_region using put_all_region [OF assms(2) _ assms(3)] by blast
qed

lemma put_all_ring_holds:
  assumes "ring_holds j p ts" "j_partition_start_lba j mod 8 = 0"
    "\<forall>(b, d) \<in> set ws. length d = 4096 \<and> \<not> journal_block j b"
  shows "ring_holds j (home.put_all ws p) ts"
proof -
  have r: "0 < ring_size j" using assms(1) by (simp add: ring_holds_def)
  note ring = put_all_ring_block [OF r assms(2,3)]
  have "region_block j (home.put_all ws p) 0 = region_block j p 0"
    using r by (intro put_all_region [OF assms(2) _ assms(3)]) (simp add: ring_size_def)
  then show ?thesis
    using assms(1) ring by (simp add: ring_holds_def stored_region commits_below_def jsb_anchors_def)
qed

lemma put_all_sectors_ok:
  "sectors_ok p \<Longrightarrow> \<forall>(b, d) \<in> set ws. length d = 4096 \<Longrightarrow> sectors_ok (home.put_all ws p)"
proof (induction ws arbitrary: p)
  case Nil
  then show ?case by (simp add: home.put_all_def)
next
  case (Cons w ws)
  then show ?case
    using sectors_ok_write [of p "snd w" 8 "fst w * 8"]
    by (cases w) (simp add: home.put_all_def flip: put_block_def)
qed

section \<open>The journal after a mount\<close>

lemma jsb_write_anchors:
  "jsb_anchors j (apply_sectors (sector_writes
     (j_partition_start_lba j + j_first_block j * SECTORS_PER_BLOCK) (jsb_block j)) p)"
proof -
  have "region_block j (apply_sectors (sector_writes
     (j_partition_start_lba j + j_first_block j * SECTORS_PER_BLOCK) (jsb_block j)) p) 0 = jsb_block j"
    using get_sectors_same [of "jsb_block j" 8] by (simp add: region_block_def jsb_block_read(1))
  then show ?thesis
    using current_jsb_fields [of j] by (simp add: jsb_anchors_def jsb_block_read(2) Let_def)
qed

text \<open>The journal that \<open>Journal::new\<close> builds behind the transactions \<open>ts\<close> of \<open>j\<close>.\<close>

definition restarted :: "nat \<Rightarrow> Journal \<Rightarrow> ring_tx list \<Rightarrow> Journal" where
  "restarted dev j ts = journal_new dev (j_partition_start_lba j) (j_first_block j) (j_block_count j)
     (tail_seq (j_state j) + length ts) (tail_seq (j_state j) + length ts)
     (tail_block (j_state j) + length (ring_images BLOCK_SIZE ts))"

lemma restarted_fields:
  "j_partition_start_lba (restarted dev j ts) = j_partition_start_lba j"
  "j_first_block (restarted dev j ts) = j_first_block j"
  "j_block_count (restarted dev j ts) = j_block_count j"
  "tail_seq (j_state (restarted dev j ts)) = tail_seq (j_state j) + length ts"
  "head_seq (j_state (restarted dev j ts)) = tail_seq (j_state j) + length ts"
  "tail_block (j_state (restarted dev j ts)) = tail_block (j_state j) + length (ring_images BLOCK_SIZE ts)"
  "head_block (j_state (restarted dev j ts)) = tail_block (j_state j) + length (ring_images BLOCK_SIZE ts)"
  "ring_size (restarted dev j ts) = ring_size j"
  by (simp_all add: restarted_def journal_new_def ring_size_def)

lemma restarted_blocks:
  "ring_block (restarted dev j ts) = ring_block j" "region_block (restarted dev j ts) = region_block j"
  "journal_sector (restarted dev j ts) = journal_sector j"
  by (intro ext; simp add: ring_block_def region_block_def journal_sector_def journal_block_lba_def
      restarted_fields)+

lemma restarted_holds:
  assumes "ring_holds j p ts" "jsb_anchors (restarted dev j ts) p"
    "tail_block (j_state j) + length (ring_images BLOCK_SIZE ts) < 2 ^ 64"
  shows "ring_holds (restarted dev j ts) p []"
  using assms
  by (simp add: ring_holds_def commits_below_def restarted_fields restarted_blocks stored_def)

lemma updated_jsb_restarted:
  "splice_at 0 (journal_sb_bytes (updated_jsb (word_of_nat (j_block_count j))
     (word_of_nat (tail_seq (j_state j) + length ts))
     (tail_block (j_state j) + length (ring_images BLOCK_SIZE ts)))) (replicate 4096 0) =
   jsb_block (restarted dev j ts)"
  by (simp add: jsb_block_def current_jsb_def updated_jsb_def restarted_fields BLOCK_SIZE_def)

lemma restarted_write_holds:
  assumes "ring_holds j p ts"
    "tail_block (j_state j) + length (ring_images BLOCK_SIZE ts) < 2 ^ 64"
  shows "ring_holds (restarted dev j ts) (apply_sectors (sector_writes
     (j_partition_start_lba j + j_first_block j * SECTORS_PER_BLOCK) (jsb_block (restarted dev j ts))) p) []"
proof -
  let ?j = "restarted dev j ts"
  let ?p = "apply_sectors (sector_writes
     (j_partition_start_lba ?j + j_first_block ?j * SECTORS_PER_BLOCK) (jsb_block ?j)) p"
  have "ring_block j ?p i = ring_block j p i" for i
    using jsb_write_ring_block [of ?j p i] by (simp only: restarted_blocks)
  then have "ring_holds ?j ?p []"
    using assms jsb_write_anchors [of ?j p]
    by (simp add: ring_holds_def commits_below_def restarted_fields restarted_blocks stored_def)
  then show ?thesis by (simp only: restarted_fields)
qed

section \<open>Mounting after a crash\<close>

lemma region_read_block_read:
  "(\<lambda>rb. block_read (\<lambda>_. None) (j_partition_start_lba j + (j_first_block j + rb) * SECTORS_PER_BLOCK) p)
   = region_read j p"
  by (simp add: fun_eq_iff block_read_def region_read_def region_block_def)

lemma recover_scan:
  assumes "ring_holds j p ts"
  shows "scan_committed (word_of_nat (tail_seq (j_state j))) (tail_block (j_state j)) (j_block_count j - 1)
      BLOCK_SIZE (region_read j p) = recover j p"
  using assms by (simp add: recover_def ring_holds_def jsb_anchors_def Let_def unat_word_of_nat ring_size_def)

text \<open>A device that has just been powered on.\<close>

definition power_on :: "sectors \<Rightarrow> blockdev" where
  "power_on p = \<lparr>bd_platter = p, bd_cache = [], bd_cmds = 0\<rparr>"

lemma power_on_simps [simp]:
  "bd_platter (power_on p) = p" "bd_cache (power_on p) = []" "bd_view (power_on p) = p"
  by (simp_all add: power_on_def bd_view_def)

lemma jsb_page:
  assumes "j_partition_start_lba j mod 8 = 0"
  shows "get_sectors ((j_partition_start_lba j + j_first_block j * SECTORS_PER_BLOCK) div SECTORS_PER_BLOCK
    * SECTORS_PER_BLOCK) 8 p = region_block j p 0"
proof -
  obtain q where "j_partition_start_lba j = q * 8" using assms by auto
  then have "j_partition_start_lba j + j_first_block j * 8 = (q + j_first_block j) * 8" by simp
  then have "(j_partition_start_lba j + j_first_block j * 8) div 8 * 8 = j_partition_start_lba j + j_first_block j * 8"
    by (metis nonzero_mult_div_cancel_right zero_neq_numeral)
  then show ?thesis by (simp only: region_block_def SECTORS_PER_BLOCK_def add_0_right)
qed

lemma anchored_jsb:
  assumes "ring_holds j p ts" "j_block_count j < 2 ^ 32"
  shows "check_jsb (journal_sb_of (region_block j p 0))"
    "jsb_block_count (journal_sb_of (region_block j p 0)) = word_of_nat (j_block_count j)"
    "unat (jsb_block_count (journal_sb_of (region_block j p 0))) = j_block_count j"
    "jsb_tail_seq (journal_sb_of (region_block j p 0)) = word_of_nat (tail_seq (j_state j))"
    "unat (jsb_tail_block (journal_sb_of (region_block j p 0))) = tail_block (j_state j)"
  using assms by (simp_all add: ring_holds_def jsb_anchors_def Let_def check_jsb_def unat_word_of_nat)

lemma jsb_write_other_block:
  assumes "j_partition_start_lba j mod 8 = 0" "\<not> journal_block j b" "0 < j_block_count j" "length d = 4096"
  shows "get_block b (apply_sectors (sector_writes
    (j_partition_start_lba j + j_first_block j * SECTORS_PER_BLOCK) d) p) = get_block b p"
proof -
  obtain q where q: "j_partition_start_lba j = 8 * q" "j_partition_start_lba j div 8 = q"
    using assms(1) by auto
  have "b < q + j_first_block j \<or> q + j_first_block j + j_block_count j \<le> b"
    using assms(2) unfolding journal_block_def q(2) by linarith
  then have "b * 8 + 8 \<le> j_partition_start_lba j + j_first_block j * 8 \<or>
      j_partition_start_lba j + j_first_block j * 8 + 8 \<le> b * 8"
    using assms(3) unfolding q(1) by linarith
  then show ?thesis
    using assms(4) unfolding get_block_def SECTORS_PER_BLOCK_def by (intro get_sectors_disjoint) simp
qed

lemma replay_power_on:
  assumes "dev_ok beh" "ring_holds j p ts" "recover j p = Inr s" "j_block_count j < 2 ^ 32"
    "\<forall>(b, d) \<in> set (replay_list (js_revokes s) (js_txs s)). b * 8 < 2 ^ 64"
  shows "\<exists>bd1. replay beh (\<lambda>_. None) (j_first_block j) (j_block_count j) (j_partition_start_lba j)
      (word_of_nat (tail_seq (j_state j))) (tail_block (j_state j)) (power_on p) =
      Ret (Inr \<lparr>txs_applied = length ts, rr_next_seq = word_of_nat (tail_seq (j_state j) + length ts),
        rr_next_block = tail_block (j_state j) + length (ring_images BLOCK_SIZE ts)\<rparr>, bd1) \<and>
    bd_cache bd1 = [] \<and> bd_platter bd1 = home.put_all (replay_list (js_revokes s) (js_txs s)) p"
proof -
  have s: "js_txs s = map scanned ts" "js_next_seq s = word_of_nat (tail_seq (j_state j) + length ts)"
    "js_next_block s = tail_block (j_state j) + length (ring_images BLOCK_SIZE ts)"
    using recover_ring_holds [OF assms(2)] assms(3) by auto
  have count: "0 < j_block_count j" using assms(2) by (auto simp: ring_holds_def ring_size_def)
  have scan: "scan_committed (word_of_nat (tail_seq (j_state j))) (tail_block (j_state j)) (j_block_count j - 1)
      BLOCK_SIZE (\<lambda>rb. block_read (\<lambda>_. None) (j_partition_start_lba j + (j_first_block j + rb) * SECTORS_PER_BLOCK)
        (bd_view (power_on p))) = Inr s"
    using recover_scan [OF assms(2)] assms(3) by (simp add: region_read_block_read)
  show ?thesis
  proof (cases "ts = []")
    case True
    have "replay_list (js_revokes s) (js_txs s) = []" using s(1) True by (simp add: replay_list_def)
    moreover have "js_txs s = []" using s(1) True by simp
    ultimately show ?thesis
      using count scan True by (simp add: replay_def home.put_all_def)
  next
    case False
    then have "js_txs s \<noteq> []" using s(1) by simp
    then show ?thesis
      using replay_ok [OF assms(1) count scan _ assms(5)] s by simp
  qed
qed

lemma mount_journal_replayed:
  assumes "block_read rd_err ((start + first * SECTORS_PER_BLOCK) div SECTORS_PER_BLOCK * SECTORS_PER_BLOCK)
      (bd_view bd) = Inr page" "check_jsb (journal_sb_of page)"
    "replay beh rd_err first (unat (jsb_block_count (journal_sb_of page))) start
       (jsb_tail_seq (journal_sb_of page)) (unat (jsb_tail_block (journal_sb_of page))) bd = Ret (Inr res, bd1)"
    "dev_ok beh"
  shows "mount_journal beh rd_err dev start first bd =
    Ret (Inr (journal_new dev start first (unat (jsb_block_count (journal_sb_of page)))
      (unat (rr_next_seq res)) (unat (rr_next_seq res)) (rr_next_block res)),
     if txs_applied res > 0 then next_cmd (apply_write FUA (start + first * SECTORS_PER_BLOCK)
       (splice_at 0 (journal_sb_bytes (updated_jsb (jsb_block_count (journal_sb_of page))
          (rr_next_seq res) (rr_next_block res))) (replicate 4096 0)) bd1) else bd1)"
  using assms(2)
  by (cases "txs_applied res > 0")
    (simp_all only: mount_journal_def Let_def assms(1,3) sum.case if_True if_False not_True_eq_False
      run_bind_simps prod.case write_blocking_def dev_ok_retry_loop [OF assms(4)])

lemma mount_result:
  assumes "dev_ok beh" "ring_holds j p ts" "recover j p = Inr s"
    "j_partition_start_lba j mod 8 = 0" "j_block_count j < 2 ^ 32"
    "\<forall>(b, d) \<in> set (replay_list (js_revokes s) (js_txs s)). b * 8 < 2 ^ 64"
  shows "\<exists>bd'. mount_journal beh (\<lambda>_. None) dev (j_partition_start_lba j) (j_first_block j) (power_on p) =
      Ret (Inr (restarted dev j ts), bd') \<and> bd_cache bd' = [] \<and>
    bd_platter bd' = (let d = home.put_all (replay_list (js_revokes s) (js_txs s)) p in
      if ts = [] then d else apply_sectors (sector_writes
        (j_partition_start_lba j + j_first_block j * SECTORS_PER_BLOCK) (jsb_block (restarted dev j ts))) d)"
proof -
  let ?ws = "replay_list (js_revokes s) (js_txs s)" and ?j = "restarted dev j ts"
  let ?lba = "j_partition_start_lba j + j_first_block j * SECTORS_PER_BLOCK"
  obtain bd1 where rp: "replay beh (\<lambda>_. None) (j_first_block j) (j_block_count j) (j_partition_start_lba j)
      (word_of_nat (tail_seq (j_state j))) (tail_block (j_state j)) (power_on p) =
      Ret (Inr \<lparr>txs_applied = length ts, rr_next_seq = word_of_nat (tail_seq (j_state j) + length ts),
        rr_next_block = tail_block (j_state j) + length (ring_images BLOCK_SIZE ts)\<rparr>, bd1)"
    "bd_cache bd1 = []" "bd_platter bd1 = home.put_all ?ws p"
    using replay_power_on [OF assms(1-3,5,6)] by blast
  define bd2 where "bd2 = (if length ts > 0 then next_cmd (apply_write FUA ?lba (jsb_block ?j) bd1) else bd1)"
  have seq: "unat (word_of_nat (tail_seq (j_state j) + length ts) :: u64) = tail_seq (j_state j) + length ts"
    using assms(2) by (intro unat_word_of_nat) (simp add: ring_holds_def)
  have page: "block_read (\<lambda>_. None) (?lba div SECTORS_PER_BLOCK * SECTORS_PER_BLOCK) (bd_view (power_on p)) =
      Inr (region_block j p 0)"
    by (simp only: block_read_def option.case jsb_page [OF assms(4)] power_on_simps)
  have count: "unat (word_of_nat (j_block_count j) :: u32) = j_block_count j"
    using assms(5) by (intro unat_word_of_nat) simp
  note a = anchored_jsb [OF assms(2,5)]
  have rp': "replay beh (\<lambda>_. None) (j_first_block j) (unat (jsb_block_count (journal_sb_of (region_block j p 0))))
      (j_partition_start_lba j) (jsb_tail_seq (journal_sb_of (region_block j p 0)))
      (unat (jsb_tail_block (journal_sb_of (region_block j p 0)))) (power_on p) =
      Ret (Inr \<lparr>txs_applied = length ts, rr_next_seq = word_of_nat (tail_seq (j_state j) + length ts),
        rr_next_block = tail_block (j_state j) + length (ring_images BLOCK_SIZE ts)\<rparr>, bd1)"
    unfolding a(3,4,5) by (rule rp(1))
  have m: "mount_journal beh (\<lambda>_. None) dev (j_partition_start_lba j) (j_first_block j) (power_on p) =
      Ret (Inr ?j, bd2)"
    using mount_journal_replayed [OF page a(1) rp' assms(1), of dev]
    by (simp only: a(2) count ReplayResult.select_convs seq updated_jsb_restarted [of j ts dev]
        restarted_def [symmetric] bd2_def)
  have "bd_cache bd2 = []" "bd_platter bd2 = (let d = home.put_all ?ws p in
      if ts = [] then d else apply_sectors (sector_writes ?lba (jsb_block ?j)) d)"
    using rp(2,3) by (simp_all add: bd2_def apply_write_def)
  with m show ?thesis by blast
qed

lemma mount_power_on:
  assumes "dev_ok beh" "ring_holds j p ts" "recover j p = Inr s" "sectors_ok p"
    "j_partition_start_lba j mod 8 = 0" "j_block_count j < 2 ^ 32"
    "tail_block (j_state j) + length (ring_images BLOCK_SIZE ts) < 2 ^ 64"
    "\<forall>(b, d) \<in> set (replay_list (js_revokes s) (js_txs s)).
       b * 8 < 2 ^ 64 \<and> length d = 4096 \<and> \<not> journal_block j b"
  shows "\<exists>bd'. mount_journal beh (\<lambda>_. None) dev (j_partition_start_lba j) (j_first_block j) (power_on p) =
      Ret (Inr (restarted dev j ts), bd') \<and> journal_on_disk (restarted dev j ts) bd' [] \<and>
    (\<forall>b. \<not> journal_block j b \<longrightarrow> get_block b (bd_platter bd') =
      get_block b (home.put_all (replay_list (js_revokes s) (js_txs s)) p))"
proof -
  let ?ws = "replay_list (js_revokes s) (js_txs s)" and ?j = "restarted dev j ts"
  let ?lba = "j_partition_start_lba j + j_first_block j * SECTORS_PER_BLOCK"
  have ws: "\<forall>(b, d) \<in> set ?ws. b * 8 < 2 ^ 64" "\<forall>(b, d) \<in> set ?ws. length d = 4096 \<and> \<not> journal_block j b"
    "\<forall>(b, d) \<in> set ?ws. length d = 4096"
    using assms(8) by auto
  obtain bd2 where m: "mount_journal beh (\<lambda>_. None) dev (j_partition_start_lba j) (j_first_block j)
      (power_on p) = Ret (Inr ?j, bd2)"
    and bd2: "bd_cache bd2 = []" "bd_platter bd2 = (if ts = [] then home.put_all ?ws p
      else apply_sectors (sector_writes ?lba (jsb_block ?j)) (home.put_all ?ws p))"
    using mount_result [OF assms(1-3,5,6) ws(1)] unfolding Let_def by blast
  have holds: "ring_holds j (home.put_all ?ws p) ts"
    by (rule put_all_ring_holds [OF assms(2,5) ws(2)])
  have ok: "sectors_ok (home.put_all ?ws p)" by (rule put_all_sectors_ok [OF assms(4) ws(3)])
  have "ring_holds ?j (bd_platter bd2) []"
  proof (cases "ts = []")
    case True
    then have "jsb_anchors ?j (home.put_all ?ws p)"
      using holds by (simp add: ring_holds_def jsb_anchors_def restarted_fields restarted_blocks)
    then show ?thesis using restarted_holds [OF holds _ assms(7)] True bd2(2) by simp
  next
    case False
    then show ?thesis using restarted_write_holds [OF holds assms(7)] bd2(2) by simp
  qed
  moreover have "sectors_ok (bd_platter bd2)"
    using ok sectors_ok_write [OF ok, of "jsb_block ?j" 8] by (simp add: bd2(2) jsb_block_read(1))
  ultimately have "journal_on_disk ?j bd2 []"
    by (simp add: journal_on_disk_def quiet_cache_def bd2(1) restarted_fields)
  moreover have "get_block b (bd_platter bd2) = get_block b (home.put_all ?ws p)" if "\<not> journal_block j b" for b
    using jsb_write_other_block [OF assms(5) that _ jsb_block_read(1)] assms(2)
    by (simp add: bd2(2) ring_holds_def ring_size_def)
  ultimately show ?thesis using m by blast
qed

end
