(* ===== verification/Journal_Mount.thy ===== *)
theory Journal_Mount
  imports Journal_Replay
begin

text \<open>
  What mounting after a crash gives back, end to end: the commit of
  \<open>kernel/src/fs/journal/mod.rs\<close>, the crash, the scan of \<open>libs/efs-common/src/journal_scan.rs\<close>,
  the replay of \<open>kernel/src/fs/journal/replay.rs\<close> and the journal part of
  \<open>kernel/src/fs/efs/mod.rs\<close>.  A journal is at rest when the ring holds exactly the
  transactions behind the tail and no block carries a sequence number that is still to be
  issued.
\<close>

section \<open>The pages of a committed transaction\<close>

lemma journal_copy_unescape:
  assumes "length page = 4096" "journal_copy b page = (e, d)"
  shows "(if desc_flags e AND DESC_FLAG_ESCAPED \<noteq> 0 \<and> length d \<ge> 4
      then splice_at 0 (put_u32 JOURNAL_BLOCK_MAGIC) d else d) = page"
    "desc_fs_block e = word_of_nat b" "length d = 4096"
proof -
  have magic: "put_u32 (get_u32 0 page) = take 4 page"
    using assms(1) by (simp add: put_u32_def get_u32_def get_le_def slice_at_def unat_word_of_nat
        le_bytes_of_le of_le_less [THEN order.strict_trans2])
  show "length d = 4096" "desc_fs_block e = word_of_nat b"
    using assms by (auto simp: journal_copy_def Let_def)
  show "(if desc_flags e AND DESC_FLAG_ESCAPED \<noteq> 0 \<and> length d \<ge> 4
      then splice_at 0 (put_u32 JOURNAL_BLOCK_MAGIC) d else d) = page"
  proof (cases "get_u32 0 page = JOURNAL_BLOCK_MAGIC")
    case True
    then have "splice_at 0 (put_u32 JOURNAL_BLOCK_MAGIC) d = page"
      using assms magic by (auto simp: journal_copy_def Let_def splice_at_def)
    moreover have "desc_flags e = DESC_FLAG_ESCAPED" "length d = 4096"
      using assms True by (auto simp: journal_copy_def Let_def)
    ultimately show ?thesis by (simp add: DESC_FLAG_ESCAPED_def)
  next
    case False
    then show ?thesis using assms by (auto simp: journal_copy_def Let_def)
  qed
qed

lemma replay_write_page:
  assumes "pages_ok c tx" "i < length (enrolled_blocks tx)" "enrolled_blocks tx ! i = ((dv, b), pg)"
  shows "replay_write (scanned (ring_tx_of c tx)) i m =
    (if vetoed m (word_of_nat b) (word_of_nat (tx_seq tx)) then None
     else Some (word_of_nat b, pg_data (bpc_pages c pg)))"
proof -
  obtain e d where ed: "journal_copy b (pg_data (bpc_pages c pg)) = (e, d)" by fastforce
  have len: "length (pg_data (bpc_pages c pg)) = 4096"
    using assms nth_mem [OF assms(2)] by (auto simp: pages_ok_def)
  have i: "st_entries (scanned (ring_tx_of c tx)) ! i = e" "st_data_blocks (scanned (ring_tx_of c tx)) ! i = d"
    "i < length (st_entries (scanned (ring_tx_of c tx)))"
    "length (st_data_blocks (scanned (ring_tx_of c tx))) = length (st_entries (scanned (ring_tx_of c tx)))"
    "st_seq (scanned (ring_tx_of c tx)) = word_of_nat (tx_seq tx)"
    using assms(2,3) ed by (simp_all add: scanned_def ring_tx_of_def tx_copies_def)
  show ?thesis
    unfolding replay_write_alt [OF i(4,3)] i using journal_copy_unescape [OF len ed] by simp
qed

text \<open>The last copy of a block in the replay list is the one that stays.\<close>

lemma map_of_rev_append_unique:
  assumes "(k, x) \<in> set ys" "\<And>y. (k, y) \<in> set ys \<Longrightarrow> y = x"
  shows "map_of (rev (xs @ ys)) k = Some x"
proof -
  obtain y where y: "map_of (rev ys) k = Some y"
    using weak_map_of_SomeI [of k x "rev ys"] assms(1) by auto
  then have "y = x" using assms(2) map_of_SomeD [of "rev ys" k y] by simp
  with y show ?thesis by simp
qed

lemma replay_list_append: "replay_list m (xs @ ys) = replay_list m xs @ replay_list m ys"
  by (simp add: replay_list_def)

lemma set_replay_list_tx:
  assumes "pages_ok c tx" "\<forall>x \<in> set (enrolled_blocks tx). snd (fst x) < 2 ^ 64"
  shows "(b, x) \<in> set (replay_list m [scanned (ring_tx_of c tx)]) \<longleftrightarrow>
    (\<exists>dv pg. ((dv, b), pg) \<in> set (enrolled_blocks tx) \<and> x = pg_data (bpc_pages c pg) \<and>
       \<not> vetoed m (word_of_nat b) (word_of_nat (tx_seq tx)))"
proof -
  have len: "length (st_entries (scanned (ring_tx_of c tx))) = length (enrolled_blocks tx)"
    by (simp add: scanned_def ring_tx_of_def tx_copies_def)
  have un: "((dv, k), pg) \<in> set (enrolled_blocks tx) \<Longrightarrow> unat (word_of_nat k :: u64) = k" for dv k pg
    using bspec [OF assms(2), of "((dv, k), pg)"] by (simp add: unat_word_of_nat)
  have "(b, x) \<in> set (replay_list m [scanned (ring_tx_of c tx)]) \<longleftrightarrow>
    (\<exists>i < length (enrolled_blocks tx). \<exists>k. replay_write (scanned (ring_tx_of c tx)) i m = Some (k, x) \<and> b = unat k)"
    by (force simp: replay_list_def List.map_filter_def len)
  also have "\<dots> \<longleftrightarrow> (\<exists>dv pg. ((dv, b), pg) \<in> set (enrolled_blocks tx) \<and> x = pg_data (bpc_pages c pg) \<and>
       \<not> vetoed m (word_of_nat b) (word_of_nat (tx_seq tx)))" (is "?L \<longleftrightarrow> ?R")
  proof
    assume ?L
    then obtain i k where i: "i < length (enrolled_blocks tx)"
      "replay_write (scanned (ring_tx_of c tx)) i m = Some (k, x)" "b = unat k" by blast
    obtain dv b' pg where e: "enrolled_blocks tx ! i = ((dv, b'), pg)" by (metis prod_cases3 surj_pair)
    have mem: "((dv, b'), pg) \<in> set (enrolled_blocks tx)" using nth_mem [OF i(1)] e by simp
    have "b' = b" "x = pg_data (bpc_pages c pg)" "\<not> vetoed m (word_of_nat b') (word_of_nat (tx_seq tx))"
      using i(2,3) replay_write_page [OF assms(1) i(1) e, of m] un [OF mem] by (auto split: if_splits)
    with mem show ?R by blast
  next
    assume ?R
    then obtain dv pg where r: "((dv, b), pg) \<in> set (enrolled_blocks tx)" "x = pg_data (bpc_pages c pg)"
      "\<not> vetoed m (word_of_nat b) (word_of_nat (tx_seq tx))" by blast
    then obtain i where i: "i < length (enrolled_blocks tx)" "enrolled_blocks tx ! i = ((dv, b), pg)"
      by (metis in_set_conv_nth)
    have "replay_write (scanned (ring_tx_of c tx)) i m = Some (word_of_nat b, x)"
      using replay_write_page [OF assms(1) i, of m] r(2,3) by simp
    then show ?L using i(1) un [OF r(1)] by (intro exI [of _ i] exI [of _ "word_of_nat b"] conjI) simp_all
  qed
  finally show ?thesis .
qed

lemma last_copy_stays:
  assumes "pages_ok c tx" "\<forall>x \<in> set (enrolled_blocks tx). snd (fst x) < 2 ^ 64"
    "distinct (map (snd \<circ> fst) (enrolled_blocks tx))" "((dv, b), pg) \<in> set (enrolled_blocks tx)"
    "\<not> vetoed m (word_of_nat b) (word_of_nat (tx_seq tx))"
    "\<forall>(b, d) \<in> set (replay_list m (map scanned (ts @ [ring_tx_of c tx]))). length d = 4096"
  shows "get_block b (home.put_all (replay_list m (map scanned (ts @ [ring_tx_of c tx]))) p) =
    pg_data (bpc_pages c pg)"
proof -
  have y: "y = pg_data (bpc_pages c pg)" if "(b, y) \<in> set (replay_list m [scanned (ring_tx_of c tx)])" for y
  proof -
    from that obtain dv' pg' where y: "((dv', b), pg') \<in> set (enrolled_blocks tx)"
      "y = pg_data (bpc_pages c pg')"
      unfolding set_replay_list_tx [OF assms(1,2)] by blast
    have "inj_on (snd \<circ> fst) (set (enrolled_blocks tx))" using assms(3) by (simp add: distinct_map)
    then have "((dv', b), pg') = ((dv, b), pg)" by (rule inj_onD [OF _ _ y(1) assms(4)]) simp
    with y(2) show ?thesis by simp
  qed
  have mem: "(b, pg_data (bpc_pages c pg)) \<in> set (replay_list m [scanned (ring_tx_of c tx)])"
    unfolding set_replay_list_tx [OF assms(1,2)] using assms(4,5) by blast
  have "replay_list m (map scanned (ts @ [ring_tx_of c tx])) =
      replay_list m (map scanned ts) @ replay_list m [scanned (ring_tx_of c tx)]"
    by (simp only: map_append list.map replay_list_append)
  then have "map_of (rev (replay_list m (map scanned (ts @ [ring_tx_of c tx])))) b = Some (pg_data (bpc_pages c pg))"
    using map_of_rev_append_unique [OF mem y] by simp
  moreover have "\<forall>w \<in> set (replay_list m (map scanned (ts @ [ring_tx_of c tx]))). length (snd w) = 4096"
    using assms(6) by auto
  ultimately show ?thesis by (simp only: home.get_put_all option.case)
qed

section \<open>A journal at rest\<close>

text \<open>Between commits no header of the ring carries the next sequence number or a later one.
  The scan then ends at the head without looking at anything behind it, and the revokes it
  has collected are those of the committed transactions.\<close>

definition headers_below :: "Journal \<Rightarrow> sectors \<Rightarrow> nat \<Rightarrow> bool" where
  "headers_below j p n \<longleftrightarrow> (\<forall>i. case parse_header (ring_block j p i) of
       None \<Rightarrow> True | Some h \<Rightarrow> unat (jh_seq h) < n)"

definition at_rest :: "Journal \<Rightarrow> blockdev \<Rightarrow> ring_tx list \<Rightarrow> bool" where
  "at_rest j bd ts \<longleftrightarrow> journal_on_disk j bd ts \<and>
     headers_below j (bd_platter bd) (tail_seq (j_state j) + length ts)"

lemma headers_below_mono: "headers_below j p n \<Longrightarrow> n \<le> m \<Longrightarrow> headers_below j p m"
  by (fastforce simp: headers_below_def split: option.splits)

lemma formatted_at_rest:
  assumes "0 < ring_size j" "head_block (j_state j) = tail_block (j_state j)"
    "tail_seq (j_state j) < 2 ^ 64" "tail_block (j_state j) < 2 ^ 64"
  shows "at_rest j (formatted j) []"
proof -
  have "ring_block j (bd_platter (formatted j)) i = replicate (512 * 8) 0" for i
    unfolding formatted_def by (simp only: blockdev.select_convs jsb_write_ring_block)
      (simp only: ring_block_def get_sectors_zero)
  then show ?thesis
    using formatted_on_disk [OF assms] by (simp add: at_rest_def headers_below_def)
qed

lemma batch_header_seq:
  assumes "\<forall>b \<in> set (rt_data rt). parse_header b = None" "b \<in> set (batch_blocks rt)"
    "parse_header b = Some h"
  shows "jh_seq h = rt_seq rt"
proof -
  have "b = descriptor_image BLOCK_SIZE (rt_seq rt) (rt_tx_id rt) (rt_entries rt) \<or>
    b = revoke_image BLOCK_SIZE (rt_seq rt) (rt_tx_id rt) (rt_revokes rt)"
    using assms by (auto simp: batch_blocks_def split: if_splits)
  then show ?thesis
    using assms(3) by (auto simp: BLOCK_SIZE_def simp del: kind_byte.simps)
qed

lemma commit_headers_below:
  assumes "at_rest j bd ts" "committable j ts rt"
    "cached (set (ring_writes j (head_block (j_state j)) (batch_blocks rt))) True bd bd1"
  shows "headers_below j (apply_sectors (sector_writes (commit_target j rt) (commit_block_of rt)) (bd_view bd1))
    (tail_seq (j_state j) + length (ts @ [rt]))"
  unfolding headers_below_def commit_target_def ring_block_write [OF length_commit_block_of]
proof
  fix i
  let ?n = "tail_seq (j_state j) + length ts"
  have q: "quiet_cache j bd" "0 < ring_size j"
    and d: "\<forall>b \<in> set (rt_data rt). parse_header b = None" "\<forall>b \<in> set (rt_data rt). length b = 4096"
    and seq: "unat (rt_seq rt) = ?n"
    using assms(1,2) by (auto simp: at_rest_def journal_on_disk_def ring_holds_def committable_def
        unat_word_of_nat simp del: of_nat_add)
  have view: "unat (jh_seq h) < ?n + 1" if "parse_header (ring_block j (bd_view bd1) i) = Some h" for h
  proof -
    have "parse_header (ring_block j (bd_platter bd) i) = Some h \<or>
        (\<exists>b \<in> set (batch_blocks rt). parse_header b = Some h)"
      using crashed_batch_header [OF q(1) cached_some_writes [OF assms(3)] view_crashed
          batch_blocks_length [OF d(2)] q(2), of i] that by auto
    then show ?thesis
    proof
      assume "parse_header (ring_block j (bd_platter bd) i) = Some h"
      then show ?thesis
        using assms(1) by (auto simp: at_rest_def headers_below_def dest!: spec [of _ i])
    next
      assume "\<exists>b \<in> set (batch_blocks rt). parse_header b = Some h"
      then show ?thesis using batch_header_seq [OF d(1)] seq by auto
    qed
  qed
  have "parse_header (commit_block_of rt) = Some h \<Longrightarrow> unat (jh_seq h) = ?n" for h
    using seq by (auto simp: commit_block_of_def BLOCK_SIZE_def simp del: kind_byte.simps of_nat_add)
  with view show "case parse_header (if i mod ring_size j =
        (head_block (j_state j) + ring_needed rt - 1) mod ring_size j
      then commit_block_of rt else ring_block j (bd_view bd1) i) of None \<Rightarrow> True
    | Some h \<Rightarrow> unat (jh_seq h) < tail_seq (j_state j) + length (ts @ [rt])"
    by (auto split: option.splits)
qed

lemma same_ring_headers: "same_ring j j' \<Longrightarrow> headers_below j' p n \<longleftrightarrow> headers_below j p n"
  using same_ring_blocks [of j j'] by (simp add: headers_below_def)

lemma write_journal_sb_headers:
  assumes "write_journal_sb beh j bd = (r, bd')" "bd_cache bd = []"
  shows "headers_below j (bd_platter bd') n \<longleftrightarrow> headers_below j (bd_platter bd) n"
  using fua_effect [OF assms(1) [unfolded write_journal_sb_def] assms(2)]
  by (auto simp: headers_below_def jsb_write_ring_block)

text \<open>A commit that reports success leaves the journal at rest.\<close>

lemma commit_at_rest:
  assumes "at_rest (w_journal w) (w_dev w) ts" "committable (w_journal w) ts rt"
    "commit_at beh tx rt (head_block (j_state (w_journal w))) w = Ret (Inr (), w')"
  shows "at_rest (w_journal w') (w_dev w') (ts @ [rt])"
proof -
  let ?j = "w_journal w" and ?h = "head_block (j_state (w_journal w))"
  let ?j' = "publish_commit (tx_seq tx) (?h + ring_needed rt) (ring_needed rt) ?j"
  have on: "journal_on_disk ?j (w_dev w) ts" using assms(1) by (simp add: at_rest_def)
  have d: "\<forall>b \<in> set (rt_data rt). length b = 4096" and r: "0 < ring_size ?j"
    using on assms(2) by (auto simp: committable_def journal_on_disk_def ring_holds_def)
  obtain r1 bd1 where c: "ring_commit beh ?j ?h rt (w_dev w) = Ret (r1, bd1)"
    using assms(3) by (auto simp: commit_at_def run_bind_eq_Ret)
  have r1: "r1 = Inr ()" using assms(3) c by (cases r1) (auto simp: commit_at_def)
  have b1: "headers_below ?j (bd_platter bd1) (tail_seq (j_state ?j) + length (ts @ [rt]))" "bd_cache bd1 = []"
    using ring_commit_effect [OF c r d] commit_headers_below [OF assms(1,2)] r1 by auto
  obtain r2 bd2 where jsb: "write_journal_sb beh ?j' bd1 = (r2, bd2)"
    and w': "w' = w\<lparr>w_journal := ?j', w_dev := bd2\<rparr>"
    using assms(3) c r1 by (auto simp: commit_at_def Let_def split: prod.splits)
  have "headers_below ?j' (bd_platter bd2) (tail_seq (j_state ?j') + length (ts @ [rt]))"
    using b1(1) write_journal_sb_headers [OF jsb b1(2)] same_ring_headers [OF publish_commit_same_ring]
      publish_commit_same_ring [of ?j] by (simp add: same_ring_def)
  then show ?thesis
    using commit_at_crash(2) [OF on assms(2,3) view_crashed refl] w' by (simp add: at_rest_def)
qed

lemma recover_at_rest:
  assumes "ring_holds j p ts" "headers_below j p (tail_seq (j_state j) + length ts)"
  shows "\<exists>s. recover j p = Inr s \<and> js_txs s = map scanned ts \<and>
    js_revokes s = foldl merge_revoke Map.empty (concat (map (revokes_read BLOCK_SIZE) ts))"
proof -
  let ?n = "tail_seq (j_state j)" and ?t = "tail_block (j_state j)"
  let ?stop = "?t + length (ring_images BLOCK_SIZE ts)"
  have h: "0 < ring_size j" "\<forall>t \<in> set ts. ring_tx_ok BLOCK_SIZE t" "seqs_from (word_of_nat ?n) ts"
    "stored (region_read j p) (ring_size j) ?t (ring_images BLOCK_SIZE ts)"
    "length (ring_images BLOCK_SIZE ts) \<le> ring_size j" "?n + length ts < 2 ^ 64"
    using assms(1) by (auto simp: ring_holds_def)
  have "unat (word_of_nat (?n + length ts) :: u64) = ?n + length ts"
    using h(6) by (intro unat_word_of_nat) simp
  then have "clean_end (region_read j p) (ring_size j) ?stop (word_of_nat (?n + length ts))"
    using assms(2) unfolding clean_end_def read_ring_region headers_below_def
    by (auto split: option.splits dest!: spec [of _ ?stop] simp del: of_nat_add kind_byte.simps)
  then have "clean_end (region_read j p) (ring_size j) ?stop (word_of_nat ?n + of_nat (length ts))"
    by simp
  from scan_clean [OF h(1-5) this] show ?thesis
    using recover_scan [OF assms(1)] by (auto simp: ring_size_def)
qed

section \<open>Transactions that can be replayed\<close>

text \<open>Every copy has its own data block and a home outside the journal, and the revokes
  carry the transaction's own sequence number, as \<open>seal_and_commit\<close> writes them.\<close>

definition home_ok :: "Journal \<Rightarrow> ring_tx \<Rightarrow> bool" where
  "home_ok j t \<longleftrightarrow> length (rt_data t) = length (rt_entries t) \<and> (\<forall>d \<in> set (rt_data t). length d = 4096) \<and>
     (\<forall>e \<in> set (rt_entries t). unat (desc_fs_block e) * 8 < 2 ^ 64 \<and> \<not> journal_block j (unat (desc_fs_block e))) \<and>
     (\<forall>e \<in> set (rt_revokes t). rev_seq e = rt_seq t)"

definition tx_home_ok :: "Journal \<Rightarrow> Transaction \<Rightarrow> bool" where
  "tx_home_ok j tx \<longleftrightarrow> distinct (map (snd \<circ> fst) (enrolled_blocks tx)) \<and>
     (\<forall>x \<in> set (enrolled_blocks tx). snd (fst x) * 8 < 2 ^ 64 \<and> \<not> journal_block j (snd (fst x))) \<and>
     (\<forall>x \<in> set (tx_revokes tx). snd (fst x) < 2 ^ 64)"

lemma tx_home_ok_blocks:
  assumes "tx_home_ok j tx"
  shows "\<forall>x \<in> set (enrolled_blocks tx). snd (fst x) < 2 ^ 64"
    "distinct (map (snd \<circ> fst) (enrolled_blocks tx))"
    "((dv, b), pg) \<in> set (enrolled_blocks tx) \<Longrightarrow> \<not> journal_block j b"
proof -
  have h: "\<forall>x \<in> set (enrolled_blocks tx). snd (fst x) * 8 < 2 ^ 64 \<and> \<not> journal_block j (snd (fst x))"
    using assms unfolding tx_home_ok_def by blast
  show "\<forall>x \<in> set (enrolled_blocks tx). snd (fst x) < 2 ^ 64"
  proof
    fix x assume "x \<in> set (enrolled_blocks tx)"
    from bspec [OF h this] show "snd (fst x) < 2 ^ 64" by simp
  qed
  show "distinct (map (snd \<circ> fst) (enrolled_blocks tx))" using assms by (simp add: tx_home_ok_def)
  show "\<not> journal_block j b" if "((dv, b), pg) \<in> set (enrolled_blocks tx)" using bspec [OF h that] by simp
qed

lemma ring_tx_of_home_ok:
  assumes "pages_ok c tx" "tx_home_ok j tx"
  shows "home_ok j (ring_tx_of c tx)"
proof -
  have "unat (desc_fs_block e) * 8 < 2 ^ 64 \<and> \<not> journal_block j (unat (desc_fs_block e))"
    if "e \<in> set (rt_entries (ring_tx_of c tx))" for e
  proof -
    have "map desc_fs_block (rt_entries (ring_tx_of c tx)) =
        map (\<lambda>x. word_of_nat (snd (fst x))) (enrolled_blocks tx)"
      by (simp add: ring_tx_of_def tx_copies_def journal_copy_def Let_def case_prod_beta)
    then have "desc_fs_block ` set (rt_entries (ring_tx_of c tx)) =
        (\<lambda>x. word_of_nat (snd (fst x))) ` set (enrolled_blocks tx)"
      by (metis list.set_map)
    with that obtain x where x: "x \<in> set (enrolled_blocks tx)" "desc_fs_block e = word_of_nat (snd (fst x))"
      by (metis (no_types, lifting) image_iff)
    have b: "snd (fst x) * 8 < 2 ^ 64" "\<not> journal_block j (snd (fst x))"
      using bspec [OF _ x(1)] assms(2) unfolding tx_home_ok_def by blast+
    then have "unat (desc_fs_block e) = snd (fst x)" by (simp add: x(2) unat_word_of_nat)
    with b show ?thesis by simp
  qed
  then show ?thesis
    using ring_tx_of_data [OF assms(1)] unfolding home_ok_def
    by (auto simp: ring_tx_of_def tx_copies_def tx_revoke_entries_def)
qed

lemma replay_list_home:
  assumes "\<forall>t \<in> set ts. home_ok j t"
  shows "\<forall>(b, d) \<in> set (replay_list m (map scanned ts)).
    b * 8 < 2 ^ 64 \<and> length d = 4096 \<and> \<not> journal_block j b"
proof -
  have "unat b * 8 < 2 ^ 64 \<and> length d = 4096 \<and> \<not> journal_block j (unat b)"
    if t: "t \<in> set ts" and i: "i < length (rt_entries t)" and w: "replay_write (scanned t) i m = Some (b, d)"
    for t i b d
  proof -
    have h: "home_ok j t" using assms t by blast
    then have "rt_data t ! i \<in> set (rt_data t)" "rt_entries t ! i \<in> set (rt_entries t)"
      using i by (auto simp: home_ok_def)
    moreover have "b = desc_fs_block (rt_entries t ! i)" "length d = length (rt_data t ! i)"
      using w i h by (auto simp: replay_write_alt scanned_def home_ok_def put_u32_def split: if_splits)
    ultimately show ?thesis using h by (auto simp: home_ok_def)
  qed
  then show ?thesis
    by (fastforce simp: replay_list_def List.map_filter_def scanned_def)
qed

lemma seqs_from_nth:
  "seqs_from e ts \<Longrightarrow> k < length ts \<Longrightarrow> rt_seq (ts ! k) = e + of_nat k"
  by (induction ts arbitrary: e k) (auto simp: nth_Cons algebra_simps split: nat.splits)

text \<open>A copy of the newest transaction is vetoed only by that transaction itself.\<close>

lemma newest_not_vetoed:
  assumes "ring_holds j p (ts @ [rt])" "\<forall>t \<in> set (ts @ [rt]). home_ok j t"
    "\<forall>e \<in> set (rt_revokes rt). rev_fs_block e \<noteq> b"
  shows "\<not> vetoed (foldl merge_revoke Map.empty (concat (map (revokes_read BLOCK_SIZE) (ts @ [rt])))) b (rt_seq rt)"
proof
  assume "vetoed (foldl merge_revoke Map.empty (concat (map (revokes_read BLOCK_SIZE) (ts @ [rt])))) b (rt_seq rt)"
  then obtain t e where t: "t \<in> set (ts @ [rt])" "e \<in> set (revokes_read BLOCK_SIZE t)" "rev_fs_block e = b"
    "rt_seq rt \<le> rev_seq e"
    by (auto simp: vetoed_foldl_merge)
  have e: "e \<in> set (rt_revokes t)"
    using t(2) by (auto simp: revokes_read_def dest!: set_takeWhileD in_set_takeD)
  then have "t \<in> set ts" using t(1,3) assms(3) by auto
  then obtain k where k: "k < length ts" "t = ts ! k" by (metis in_set_conv_nth)
  let ?n = "tail_seq (j_state j)"
  have seqs: "seqs_from (word_of_nat ?n) (ts @ [rt])" "?n + length ts + 1 < 2 ^ 64"
    using assms(1) by (auto simp: ring_holds_def)
  have "rt_seq t = word_of_nat (?n + k)" "rt_seq rt = word_of_nat (?n + length ts)"
    using seqs_from_nth [OF seqs(1), of k] seqs_from_nth [OF seqs(1), of "length ts"] k
    by (simp_all add: nth_append)
  moreover have "unat (word_of_nat (?n + k) :: u64) = ?n + k"
    "unat (word_of_nat (?n + length ts) :: u64) = ?n + length ts"
    using seqs(2) k(1) by (intro unat_word_of_nat; simp)+
  moreover have "rev_seq e = rt_seq t" using assms(2) t(1) e by (auto simp: home_ok_def)
  ultimately show False using t(4) k(1) by (simp add: word_le_nat_alt del: of_nat_add)
qed

lemma at_rest_crashed:
  assumes "at_rest j bd ts" "crashed bd p"
  shows "ring_holds j p ts" "headers_below j p (tail_seq (j_state j) + length ts)" "sectors_ok p"
proof -
  have on: "journal_on_disk j bd ts" using assms(1) by (simp add: at_rest_def)
  have q: "quiet_cache j bd" "0 < ring_size j" using on by (auto simp: journal_on_disk_def ring_holds_def)
  have none: "some_writes (ring_writes j 0 []) bd bd" by (simp add: some_writes_def)
  show "ring_holds j p ts" by (rule journal_on_disk_crashed [OF on assms(2)])
  have "ring_block j p i = ring_block j (bd_platter bd) i" for i
    by (rule crashed_batch_other [OF q(1) none assms(2) _ q(2)]) simp_all
  then show "headers_below j p (tail_seq (j_state j) + length ts)"
    using assms(1) by (simp add: at_rest_def headers_below_def)
  show "sectors_ok p" by (rule crashed_batch_sectors_ok [OF q(1) none assms(2)]) simp
qed

lemma commit_at_same_ring:
  "commit_at beh tx rt pos w = Ret (Inr u, w') \<Longrightarrow> same_ring (w_journal w) (w_journal w')"
proof -
  assume c: "commit_at beh tx rt pos w = Ret (Inr u, w')"
  then obtain r1 bd1 where r: "ring_commit beh (w_journal w) pos rt (w_dev w) = Ret (r1, bd1)"
    by (auto simp: commit_at_def run_bind_eq_Ret)
  with c have "r1 = Inr ()" by (cases r1) (auto simp: commit_at_def)
  with c r publish_commit_same_ring show ?thesis
    by (auto simp: commit_at_def Let_def split: prod.splits)
qed

text \<open>The image of a crash after a successful commit, in terms of the journal before it.\<close>

lemma committed_image:
  assumes "at_rest (w_journal w) (w_dev w) ts" "committable (w_journal w) ts rt"
    "commit_at beh tx rt (head_block (j_state (w_journal w))) w = Ret (Inr (), w')" "crashed (w_dev w') p"
  shows "ring_holds (w_journal w) p (ts @ [rt])" "sectors_ok p"
    "headers_below (w_journal w) p (tail_seq (j_state (w_journal w)) + length (ts @ [rt]))"
proof -
  note same = commit_at_same_ring [OF assms(3)]
  note r = at_rest_crashed [OF commit_at_rest [OF assms(1-3)] assms(4)]
  show "ring_holds (w_journal w) p (ts @ [rt])" using r(1) same_ring_holds [OF same] by simp
  show "sectors_ok p" by (rule r(3))
  show "headers_below (w_journal w) p (tail_seq (j_state (w_journal w)) + length (ts @ [rt]))"
    using r(2) same_ring_headers [OF same] same by (simp add: same_ring_def)
qed

lemma word_of_nat_eq: "a < 2 ^ 64 \<Longrightarrow> b < 2 ^ 64 \<Longrightarrow> (word_of_nat a :: u64) = word_of_nat b \<longleftrightarrow> a = b"
proof -
  assume "a < 2 ^ 64" "b < 2 ^ 64"
  then have "unat (word_of_nat a :: u64) = a" "unat (word_of_nat b :: u64) = b"
    by (simp_all add: unat_word_of_nat)
  then show ?thesis by metis
qed

lemma own_revokes:
  assumes "tx_home_ok j tx" "((dv, b), pg) \<in> set (enrolled_blocks tx)"
    "\<forall>k \<in> set (tx_revokes tx). snd (fst k) \<noteq> b"
  shows "\<forall>e \<in> set (rt_revokes (ring_tx_of c tx)). rev_fs_block e \<noteq> word_of_nat b"
proof
  fix e assume "e \<in> set (rt_revokes (ring_tx_of c tx))"
  then obtain k where k: "k \<in> set (tx_revokes tx)" "rev_fs_block e = word_of_nat (snd (fst k))"
    by (auto simp: ring_tx_of_def tx_revoke_entries_def case_prod_beta)
  have "snd (fst ((dv, b), pg)) * 8 < 2 ^ 64"
    using bspec [OF _ assms(2)] assms(1) unfolding tx_home_ok_def by blast
  then have "b < 2 ^ 64" by simp
  moreover have "snd (fst k) < 2 ^ 64"
    using bspec [OF _ k(1)] assms(1) unfolding tx_home_ok_def by blast
  ultimately show "rev_fs_block e \<noteq> word_of_nat b"
    using assms(3) k word_of_nat_eq [of "snd (fst k)" b] by simp
qed

section \<open>Properties\<close>


text \<open>C2. What a successful commit promises.  Take a journal at rest, commit a transaction for
  which the ring has room, let the commit report success, cut the power and mount again on
  a working device: every page of the transaction, escaped or not, is at its home block
  with the content it had when it was committed, unless the transaction itself revoked
  that block.\<close>

theorem committed_pages_survive:
  assumes "at_rest (w_journal w) (w_dev w) ts" "\<forall>t \<in> set ts. home_ok (w_journal w) t"
    "\<not> tx_is_empty tx" "pages_ok (w_cache w) tx" "tx_home_ok (w_journal w) tx"
    "length (enrolled_blocks tx) \<le> entries_fit BLOCK_SIZE"
    "tx_seq tx = tail_seq (j_state (w_journal w)) + length ts" "tx_seq tx + 1 < 2 ^ 64"
    "length (ring_images BLOCK_SIZE ts) + ring_needed (ring_tx_of (w_cache w) tx) \<le> ring_size (w_journal w)"
    "j_partition_start_lba (w_journal w) mod 8 = 0" "j_block_count (w_journal w) < 2 ^ 32"
    "head_block (j_state (w_journal w)) + ring_size (w_journal w) < 2 ^ 64"
    "commit_one beh tx w = Ret (Inr (), w')" "crashed (w_dev w') p" "dev_ok beh'"
    "((dv, b), pg) \<in> set (enrolled_blocks tx)" "\<forall>k \<in> set (tx_revokes tx). snd (fst k) \<noteq> b"
  shows "\<exists>j' bd'. mount_journal beh' (\<lambda>_. None) dev (j_partition_start_lba (w_journal w))
      (j_first_block (w_journal w)) (power_on p) = Ret (Inr j', bd') \<and>
    get_block b (bd_platter bd') = pg_data (bpc_pages (w_cache w) pg)"
proof -
  let ?j = "w_journal w" and ?rt = "ring_tx_of (w_cache w) tx"
  let ?s = "foldl merge_revoke Map.empty (concat (map (revokes_read BLOCK_SIZE) (ts @ [?rt])))"
  have on: "journal_on_disk ?j (w_dev w) ts" using assms(1) by (simp add: at_rest_def)
  have c: "committable ?j ts ?rt" using assms(4,6-9) by (intro ring_tx_of_committable) auto
  note img = committed_image [OF assms(1) c _ assms(14), of beh tx]
  have ca: "commit_at beh tx ?rt (head_block (j_state ?j)) w = Ret (Inr (), w')"
    using assms(13) commit_one_room [OF on assms(3,9)] by simp
  note home = ring_tx_of_home_ok [OF assms(4,5)]
  have all: "\<forall>t \<in> set (ts @ [?rt]). home_ok ?j t" using assms(2) home by simp
  obtain s where s: "recover ?j p = Inr s" "js_txs s = map scanned (ts @ [?rt])" "js_revokes s = ?s"
    using recover_at_rest [OF img(1,3) [OF ca]] by blast
  have "\<forall>e \<in> set (rt_revokes ?rt). rev_fs_block e \<noteq> word_of_nat b"
    by (rule own_revokes [OF assms(5,16,17)])
  from newest_not_vetoed [OF img(1) [OF ca] all this]
  have veto: "\<not> vetoed ?s (word_of_nat b) (word_of_nat (tx_seq tx))" by (simp add: ring_tx_of_def)
  have "tail_block (j_state ?j) + length (ring_images BLOCK_SIZE (ts @ [?rt])) < 2 ^ 64"
    using on assms(9,12) by (simp add: journal_on_disk_def length_ring_tx_image)
  from mount_power_on [OF assms(15) img(1) [OF ca] s(1) img(2) [OF ca] assms(10,11) this,
      unfolded s(2,3), OF replay_list_home [OF all], of dev]
  obtain bd' where bd': "mount_journal beh' (\<lambda>_. None) dev (j_partition_start_lba ?j) (j_first_block ?j)
      (power_on p) = Ret (Inr (restarted dev ?j (ts @ [?rt])), bd')"
    "\<forall>b. \<not> journal_block ?j b \<longrightarrow> get_block b (bd_platter bd') =
      get_block b (home.put_all (replay_list ?s (map scanned (ts @ [?rt]))) p)" by blast
  note b = tx_home_ok_blocks [OF assms(5)]
  have "\<forall>(b, d) \<in> set (replay_list ?s (map scanned (ts @ [?rt]))). length d = 4096"
    using replay_list_home [OF all, of ?s] by auto
  from last_copy_stays [OF assms(4) b(1,2) assms(16) veto this, of p]
  have "get_block b (bd_platter bd') = pg_data (bpc_pages (w_cache w) pg)"
    using bd'(2) b(3) [OF assms(16)] by simp
  with bd'(1) show ?thesis by blast
qed

section \<open>A commit behind a gap\<close>

lemma live_region_after_commit:
  assumes "journal_on_disk j bd ts" "0 < length (batch_blocks rt)"
    "\<forall>b \<in> set (rt_data rt). length b = 4096"
    "length (ring_images BLOCK_SIZE ts) + ring_needed rt \<le> ring_size j"
    "cached (set (ring_writes j (head_block (j_state j)) (batch_blocks rt))) True bd bd1"
    "p = apply_sectors (sector_writes (commit_target j rt) (commit_block_of rt)) (bd_view bd1)"
  shows "i < length (ring_images BLOCK_SIZE ts) \<Longrightarrow>
      ring_block j p (tail_block (j_state j) + i) = ring_block j (bd_platter bd) (tail_block (j_state j) + i)"
    "ring_block j p (head_block (j_state j)) = batch_blocks rt ! 0"
    "region_block j p 0 = region_block j (bd_platter bd) 0"
proof -
  let ?h = "head_block (j_state j)" and ?r = "ring_size j" and ?t = "tail_block (j_state j)"
  have q: "quiet_cache j bd" "0 < ?r" and h: "?t + length (ring_images BLOCK_SIZE ts) = ?h"
    using assms(1) by (auto simp: journal_on_disk_def ring_holds_def)
  note some = cached_some_writes [OF assms(5)]
  have rb: "ring_block j p i = (if i mod ?r = (?h + ring_needed rt - 1) mod ?r then commit_block_of rt
      else ring_block j (bd_view bd1) i)" for i
    unfolding assms(6) commit_target_def by (rule ring_block_write [OF length_commit_block_of])
  show "ring_block j p (?t + i) = ring_block j (bd_platter bd) (?t + i)"
    if "i < length (ring_images BLOCK_SIZE ts)"
  proof -
    have "(?t + i) mod ?r \<noteq> (?h + ring_needed rt - 1) mod ?r"
      using that h assms(4) ring_needed_ge [of rt] by (intro ring_pos_distinct) auto
    then show ?thesis
      using crashed_live_region [OF q(1) some view_crashed assms(3) q(2) h assms(4) that] by (simp add: rb)
  qed
  have "?h mod ?r \<noteq> (?h + ring_needed rt - 1) mod ?r"
    using assms(4) ring_needed_ge [of rt] by (intro ring_pos_distinct) auto
  moreover have "bd_view bd1 = apply_sectors (ring_writes j ?h (batch_blocks rt)) (bd_view bd)"
    by (rule cached_view [OF assms(5) ring_writes_single_valued [OF batch_blocks_length [OF assms(3)]]])
      (use assms(4) length_batch_blocks [of rt] in simp)
  ultimately show "ring_block j p ?h = batch_blocks rt ! 0"
    using ring_block_writes_at [OF batch_blocks_length [OF assms(3)] _ assms(2), of j ?h "bd_view bd"]
      assms(4) length_batch_blocks [of rt] by (simp add: rb)
  show "region_block j p 0 = region_block j (bd_platter bd) 0"
    using crashed_batch_jsb [OF q(1) some view_crashed batch_blocks_length [OF assms(3)] q(2)]
    by (simp add: assms(6) commit_target_def region_block_0_write [OF length_commit_block_of])
qed

text \<open>The device states of a commit that reported success.\<close>

lemma commit_at_device:
  assumes "commit_at beh tx rt (head_block (j_state (w_journal w))) w = Ret (Inr (), w')"
    "0 < ring_size (w_journal w)" "\<forall>b \<in> set (rt_data rt). length b = 4096"
  shows "\<exists>bd1 bd2. cached (set (ring_writes (w_journal w) (head_block (j_state (w_journal w))) (batch_blocks rt)))
      True (w_dev w) bd1 \<and> bd_cache bd2 = [] \<and>
    bd_platter bd2 = apply_sectors (sector_writes (commit_target (w_journal w) rt) (commit_block_of rt)) (bd_view bd1) \<and>
    write_journal_sb beh (publish_commit (tx_seq tx) (head_block (j_state (w_journal w)) + ring_needed rt)
      (ring_needed rt) (w_journal w)) bd2 = (Inr (), w_dev w')"
proof -
  obtain r bd2 where c: "ring_commit beh (w_journal w) (head_block (j_state (w_journal w))) rt (w_dev w) = Ret (r, bd2)"
    using assms(1) by (auto simp: commit_at_def run_bind_eq_Ret)
  have r: "r = Inr ()" using assms(1) c by (cases r) (auto simp: commit_at_def)
  obtain r2 bd3 where jsb: "write_journal_sb beh (publish_commit (tx_seq tx) (head_block (j_state (w_journal w)) +
      ring_needed rt) (ring_needed rt) (w_journal w)) bd2 = (r2, bd3)" by fastforce
  have "r2 = Inr ()" "w_dev w' = bd3"
    using assms(1) c r jsb by (auto simp: commit_at_def Let_def)
  then show ?thesis using ring_commit_effect [OF c assms(2,3)] r jsb by auto
qed

lemma descriptor_header:
  "parse_header (batch_blocks rt ! 0) = Some h \<Longrightarrow> jh_seq h = rt_seq rt"
  by (auto simp: batch_blocks_def BLOCK_SIZE_def simp del: kind_byte.simps)

lemma recover_clean:
  assumes "jsb_anchors j p" "0 < ring_size j" "\<forall>t \<in> set ts. ring_tx_ok BLOCK_SIZE t"
    "seqs_from (word_of_nat (tail_seq (j_state j))) ts"
    "\<forall>i < length (ring_images BLOCK_SIZE ts).
       ring_block j p (tail_block (j_state j) + i) = ring_images BLOCK_SIZE ts ! i"
    "length (ring_images BLOCK_SIZE ts) \<le> ring_size j" "tail_block (j_state j) < 2 ^ 64"
    "\<And>h. parse_header (ring_block j p (tail_block (j_state j) + length (ring_images BLOCK_SIZE ts))) = Some h
       \<Longrightarrow> jh_seq h \<noteq> word_of_nat (tail_seq (j_state j)) + of_nat (length ts)"
  shows "\<exists>s. recover j p = Inr s \<and> js_txs s = map scanned ts"
proof -
  have "stored (region_read j p) (ring_size j) (tail_block (j_state j)) (ring_images BLOCK_SIZE ts)"
    using assms(5) by (simp add: stored_region)
  moreover have "clean_end (region_read j p) (ring_size j)
      (tail_block (j_state j) + length (ring_images BLOCK_SIZE ts))
      (word_of_nat (tail_seq (j_state j)) + of_nat (length ts))"
    using assms(8) by (auto simp: clean_end_def read_ring_region split: option.splits simp del: kind_byte.simps)
  ultimately have "\<exists>s. scan_committed (word_of_nat (tail_seq (j_state j))) (tail_block (j_state j))
      (ring_size j) BLOCK_SIZE (region_read j p) = Inr s \<and> js_txs s = map scanned ts"
    using scan_clean [OF assms(2-4) _ assms(6)] by blast
  then show ?thesis
    using assms(1,7) by (simp add: recover_def jsb_anchors_def Let_def unat_word_of_nat)
qed

text \<open>C20. A commit behind a gap is lost.  When the sequence number of the transaction is not the
  one after the transactions in the ring, a commit that reports success is not found by
  recovery: the scan stops at its descriptor.  A failed commit leaves exactly this gap,
  because the transaction has left the sealed queue and its number is not issued again.\<close>

theorem gapped_commit_not_recovered:
  assumes "journal_on_disk (w_journal w) (w_dev w) ts" "\<not> tx_is_empty tx" "pages_ok (w_cache w) tx"
    "length (ring_images BLOCK_SIZE ts) + ring_needed (ring_tx_of (w_cache w) tx) \<le> ring_size (w_journal w)"
    "tx_seq tx < 2 ^ 64" "tx_seq tx \<noteq> tail_seq (j_state (w_journal w)) + length ts"
    "commit_one beh tx w = Ret (Inr (), w')" "crashed (w_dev w') p"
  shows "\<exists>s. recover (w_journal w) p = Inr s \<and> js_txs s = map scanned ts"
proof -
  let ?j = "w_journal w" and ?rt = "ring_tx_of (w_cache w) tx" and ?h = "head_block (j_state (w_journal w))"
  let ?j' = "publish_commit (tx_seq tx) (?h + ring_needed ?rt) (ring_needed ?rt) ?j"
  have holds: "ring_holds ?j (bd_platter (w_dev w)) ts" and h: "tail_block (j_state ?j) +
      length (ring_images BLOCK_SIZE ts) = ?h"
    using assms(1) by (auto simp: journal_on_disk_def)
  have d: "\<forall>b \<in> set (rt_data ?rt). length b = 4096" using ring_tx_of_data [OF assms(3)] by blast
  have ca: "commit_at beh tx ?rt ?h w = Ret (Inr (), w')"
    using assms(7) commit_one_room [OF assms(1,2,4)] by simp
  obtain bd1 bd2 where b1: "cached (set (ring_writes ?j ?h (batch_blocks ?rt))) True (w_dev w) bd1"
    and b2: "bd_cache bd2 = []" "bd_platter bd2 =
      apply_sectors (sector_writes (commit_target ?j ?rt) (commit_block_of ?rt)) (bd_view bd1)"
    and jsb: "write_journal_sb beh ?j' bd2 = (Inr (), w_dev w')"
    using commit_at_device [OF ca _ d] holds by (auto simp: ring_holds_def)
  have p: "p = apply_sectors (sector_writes (j_partition_start_lba ?j' + j_first_block ?j' * SECTORS_PER_BLOCK)
      (jsb_block ?j')) (bd_platter bd2)"
    using fua_effect [OF jsb [unfolded write_journal_sb_def] b2(1)] assms(8) by (auto simp: crashed_no_cache)
  have same: "same_ring ?j ?j'" by (rule publish_commit_same_ring)
  have ring: "ring_block ?j p i = ring_block ?j (bd_platter bd2) i" for i
    using jsb_write_ring_block [of ?j' "bd_platter bd2" i] same_ring_blocks(2) [OF same] p by simp
  have "jsb_anchors ?j p"
    using jsb_write_anchors [of ?j' "bd_platter bd2"] same same_ring_blocks(3) [OF same] p
    by (simp add: jsb_anchors_def same_ring_def)
  moreover note live = live_region_after_commit [OF assms(1) _ d assms(4) b1 b2(2)]
  moreover have "jh_seq hd \<noteq> word_of_nat (tail_seq (j_state ?j)) + of_nat (length ts)"
    if "parse_header (ring_block ?j p ?h) = Some hd" for hd
  proof -
    have "ring_block ?j p ?h = batch_blocks ?rt ! 0"
      using live(2) by (simp add: ring batch_blocks_def)
    then have "jh_seq hd = word_of_nat (tx_seq tx)"
      using that descriptor_header [of ?rt hd] by (simp add: ring_tx_of_def)
    moreover have "(word_of_nat (tx_seq tx) :: u64) \<noteq> word_of_nat (tail_seq (j_state ?j) + length ts)"
      using assms(5,6) holds word_of_nat_eq by (simp add: ring_holds_def del: of_nat_add)
    ultimately show ?thesis by simp
  qed
  ultimately show ?thesis
    using holds h length_batch_blocks [of ?rt] ring_needed_ge [of ?rt]
    by (intro recover_clean) (auto simp: ring_holds_def stored_region ring)
qed

definition older_copy_tx :: "u64 \<Rightarrow> bytes \<Rightarrow> ScannedTx" where
  "older_copy_tx seq data = \<lparr>st_seq = seq, st_entries = [\<lparr>desc_fs_block = 42, desc_flags = 0, desc_reserved = 0\<rparr>],
     st_data_blocks = [data]\<rparr>"



section \<open>Revoked blocks\<close>

lemma ring_holds_seq_le:
  assumes "ring_holds j p ts" "i \<le> k" "k < length ts"
  shows "rt_seq (ts ! i) \<le> rt_seq (ts ! k)"
proof -
  let ?n = "tail_seq (j_state j)"
  have "seqs_from (word_of_nat ?n) ts" "?n + length ts < 2 ^ 64" using assms(1) by (auto simp: ring_holds_def)
  then have "rt_seq (ts ! i) = word_of_nat (?n + i)" "rt_seq (ts ! k) = word_of_nat (?n + k)" "?n + k < 2 ^ 64"
    using assms(2,3) seqs_from_nth [of "word_of_nat ?n" ts] by simp_all
  then show ?thesis using assms(2) by (simp add: word_le_nat_alt unat_word_of_nat del: of_nat_add)
qed

lemma replay_listE:
  assumes "(b, d) \<in> set (replay_list m (map scanned ts))"
  obtains t i b' where "t \<in> set ts" "i < length (rt_entries t)" "b = unat b'"
    "replay_write (scanned t) i m = Some (b', d)"
  using assms by (fastforce simp: replay_list_def List.map_filter_def scanned_def)

lemma replay_list_skips:
  assumes "ring_holds j p (ts1 @ t # ts2)" "\<forall>t \<in> set (ts1 @ t # ts2). home_ok j t"
    "e \<in> set (revokes_read BLOCK_SIZE t)" "rev_fs_block e = b"
    "\<forall>t' \<in> set ts2. \<forall>e' \<in> set (rt_entries t'). desc_fs_block e' \<noteq> b"
  shows "(unat b, d) \<notin> set (replay_list (foldl merge_revoke Map.empty
    (concat (map (revokes_read BLOCK_SIZE) (ts1 @ t # ts2)))) (map scanned (ts1 @ t # ts2)))"
    (is "_ \<notin> set (replay_list ?m (map scanned ?ts))")
proof
  assume "(unat b, d) \<in> set (replay_list ?m (map scanned ?ts))"
  then obtain u i b' where u: "u \<in> set ?ts" "i < length (rt_entries u)" "unat b = unat b'"
    and wu: "replay_write (scanned u) i ?m = Some (b', d)"
    by (rule replay_listE)
  have "b' = b" using u(3) by (simp add: word_unat_eq_iff)
  moreover obtain k where "k < length ?ts" "u = ?ts ! k" using u(1) unfolding in_set_conv_nth by blast
  ultimately have k: "k < length ?ts" "i < length (rt_entries (?ts ! k))"
    and w: "replay_write (scanned (?ts ! k)) i ?m = Some (b, d)"
    using u(2) wu by simp_all
  have "home_ok j (?ts ! k)" using assms(2) nth_mem [OF k(1)] by blast
  then have wr: "\<not> vetoed ?m b (rt_seq (?ts ! k))" "b = desc_fs_block (rt_entries (?ts ! k) ! i)"
    using w k(2) by (auto simp: replay_write_alt scanned_def home_ok_def split: if_splits)
  have "k \<le> length ts1"
  proof (rule ccontr)
    assume "\<not> k \<le> length ts1"
    then have "?ts ! k \<in> set ts2" using k(1) by (auto simp: nth_append nth_Cons' intro!: nth_mem)
    then show False using assms(5) wr(2) k(2) nth_mem by blast
  qed
  then have "rt_seq (?ts ! k) \<le> rt_seq t"
    using ring_holds_seq_le [OF assms(1), of k "length ts1"] by simp
  moreover have "e \<in> set (rt_revokes t)"
    using assms(3) by (auto simp: revokes_read_def dest!: set_takeWhileD in_set_takeD)
  then have "rev_seq e = rt_seq t" using assms(2) by (auto simp: home_ok_def)
  ultimately have "vetoed ?m b (rt_seq (?ts ! k))"
    using assms(3,4) by (auto simp: vetoed_foldl_merge)
  with wr(1) show False by blast
qed

text \<open>C6. A revoke holds back every copy up to and including its own transaction.  When one of
  the committed transactions revokes a block and no later one carries a copy of it, mounting
  after the crash leaves the block as the crash left it.  This protects a block that was
  freed and reused for file data.  It also holds back a copy in the revoking transaction
  itself, so a block that one compound transaction freed and allocated again is not
  recovered.\<close>

theorem revoked_block_not_replayed:
  assumes "at_rest j bd (ts1 @ t # ts2)" "crashed bd p" "\<forall>t \<in> set (ts1 @ t # ts2). home_ok j t"
    "j_partition_start_lba j mod 8 = 0" "j_block_count j < 2 ^ 32"
    "tail_block (j_state j) + length (ring_images BLOCK_SIZE (ts1 @ t # ts2)) < 2 ^ 64" "dev_ok beh"
    "e \<in> set (revokes_read BLOCK_SIZE t)" "rev_fs_block e = b" "\<not> journal_block j (unat b)"
    "\<forall>t' \<in> set ts2. \<forall>e' \<in> set (rt_entries t'). desc_fs_block e' \<noteq> b"
  shows "\<exists>j' bd'. mount_journal beh (\<lambda>_. None) dev (j_partition_start_lba j) (j_first_block j) (power_on p) =
      Ret (Inr j', bd') \<and> get_block (unat b) (bd_platter bd') = get_block (unat b) p"
proof -
  note img = at_rest_crashed [OF assms(1,2)]
  let ?m = "foldl merge_revoke Map.empty (concat (map (revokes_read BLOCK_SIZE) (ts1 @ t # ts2)))"
  let ?l = "replay_list ?m (map scanned (ts1 @ t # ts2))"
  obtain s where s: "recover j p = Inr s" "js_txs s = map scanned (ts1 @ t # ts2)" "js_revokes s = ?m"
    using recover_at_rest [OF img(1,2)] by blast
  have "map_of (rev ?l) (unat b) = None"
    using replay_list_skips [OF img(1) assms(3,8,9,11)] by (force simp: map_of_eq_None_iff)
  moreover have "\<forall>w \<in> set ?l. length (snd w) = 4096" using replay_list_home [OF assms(3), of ?m] by auto
  ultimately have "get_block (unat b) (home.put_all ?l p) = get_block (unat b) p"
    by (simp only: home.get_put_all option.case)
  then show ?thesis
    using mount_power_on [OF assms(7) img(1) s(1) img(3) assms(4-6), unfolded s(2,3),
        OF replay_list_home [OF assms(3)], of dev] assms(10) by metis
qed

section \<open>Examples\<close>

definition example_late :: Transaction where
  "example_late = \<lparr>tx_seq = 11, tx_id = 11, enrolled_blocks = [((0, 900), 0)], tx_revokes = []\<rparr>"

definition example_realloc :: Transaction where
  "example_realloc = \<lparr>tx_seq = 10, tx_id = 10, enrolled_blocks = [((0, 900), 0)], tx_revokes = [((0, 900), ())]\<rparr>"

lemma example_at_rest: "at_rest (w_journal example_commit_world) (w_dev example_commit_world) []"
  unfolding example_commit_world_def World.select_convs
  by (rule formatted_at_rest) (simp_all add: example_journal_def journal_new_def ring_size_def)

lemmas example_defs = example_commit_def example_late_def example_realloc_def example_commit_world_def
  example_cache_def example_journal_def tx_is_empty_def pages_ok_def entries_fit_def BLOCK_SIZE_def
  journal_new_def ring_needed_def ring_tx_of_def tx_copies_def tx_revoke_entries_def ring_size_def
  tx_home_ok_def journal_block_def

lemma example_late_facts:
  "\<not> tx_is_empty example_late" "pages_ok (w_cache example_commit_world) example_late"
  "length (ring_images BLOCK_SIZE []) + ring_needed (ring_tx_of (w_cache example_commit_world) example_late)
    \<le> ring_size (w_journal example_commit_world)"
  "tx_seq example_late < 2 ^ 64"
  "tx_seq example_late \<noteq> tail_seq (j_state (w_journal example_commit_world)) + length []"
  by (simp_all add: example_defs)

lemma example_realloc_facts:
  "\<not> tx_is_empty example_realloc" "pages_ok (w_cache example_commit_world) example_realloc"
  "length (ring_images BLOCK_SIZE []) + ring_needed (ring_tx_of (w_cache example_commit_world) example_realloc)
    \<le> ring_size (w_journal example_commit_world)"
  "length (enrolled_blocks example_realloc) \<le> entries_fit BLOCK_SIZE"
  "tx_seq example_realloc = tail_seq (j_state (w_journal example_commit_world)) + length []"
  "tx_seq example_realloc + 1 < 2 ^ 64"
  "tx_home_ok (w_journal example_commit_world) example_realloc"
  by (simp_all add: example_defs)

lemma example_geometry:
  "j_partition_start_lba (w_journal example_commit_world) mod 8 = 0"
  "j_block_count (w_journal example_commit_world) < 2 ^ 32"
  "head_block (j_state (w_journal example_commit_world)) + ring_size (w_journal example_commit_world) < 2 ^ 64"
  "tail_block (j_state (w_journal example_commit_world)) + length (ring_images BLOCK_SIZE []) < 2 ^ 64"
  "tx_home_ok (w_journal example_commit_world) example_commit"
  "((0, 900), 0) \<in> set (enrolled_blocks example_commit)" "\<forall>k \<in> set (tx_revokes example_commit). snd (fst k) \<noteq> 900"
  by (simp_all add: example_defs)

lemma working_commit_ok:
  assumes "\<not> tx_is_empty tx" "pages_ok (w_cache example_commit_world) tx"
    "length (ring_images BLOCK_SIZE []) + ring_needed (ring_tx_of (w_cache example_commit_world) tx)
      \<le> ring_size (w_journal example_commit_world)"
  shows "\<exists>w'. commit_one working_device tx example_commit_world = Ret (Inr (), w') \<and>
    commit_at working_device tx (ring_tx_of (w_cache example_commit_world) tx)
      (head_block (j_state (w_journal example_commit_world))) example_commit_world = Ret (Inr (), w')"
  unfolding commit_one_room [OF example_on_disk assms(1,3)]
  using ring_tx_of_data [OF assms(2)] commit_at_dev_ok [OF working_device_ok] by blast


theorem committed_pages_survive_witness:
  "\<exists>w' j' bd'. commit_one working_device example_commit example_commit_world = Ret (Inr (), w') \<and>
     mount_journal working_device (\<lambda>_. None) 0 (j_partition_start_lba (w_journal example_commit_world))
       (j_first_block (w_journal example_commit_world)) (power_on (bd_view (w_dev w'))) = Ret (Inr j', bd') \<and>
     get_block 900 (bd_platter bd') = pg_data (bpc_pages (w_cache example_commit_world) 0)"
proof -
  obtain w' where w': "commit_one working_device example_commit example_commit_world = Ret (Inr (), w')"
    using example_commit_ok by blast
  from committed_pages_survive [OF example_at_rest _ example_tx_facts(1,2) example_geometry(5) example_tx_facts(3-6)
      example_geometry(1-3) w' view_crashed working_device_ok example_geometry(6,7), of 0]
  show ?thesis using w' by auto
qed

theorem gapped_commit_not_recovered_witness:
  "\<exists>w' s. commit_one working_device example_late example_commit_world = Ret (Inr (), w') \<and>
     recover (w_journal example_commit_world) (bd_view (w_dev w')) = Inr s \<and> js_txs s = map scanned []"
proof -
  obtain w' where w': "commit_one working_device example_late example_commit_world = Ret (Inr (), w')"
    using working_commit_ok [OF example_late_facts(1-3)] by blast
  from gapped_commit_not_recovered [OF example_on_disk example_late_facts w' view_crashed] w'
  show ?thesis by blast
qed

theorem revoked_block_not_replayed_witness:
  "\<exists>w' j' bd'. commit_one working_device example_realloc example_commit_world = Ret (Inr (), w') \<and>
     mount_journal working_device (\<lambda>_. None) 0 16 4 (power_on (bd_view (w_dev w'))) = Ret (Inr j', bd') \<and>
     get_block 900 (bd_platter bd') = get_block 900 (bd_view (w_dev w'))"
proof -
  let ?rt = "ring_tx_of (w_cache example_commit_world) example_realloc"
  obtain w' where w': "commit_one working_device example_realloc example_commit_world = Ret (Inr (), w')"
    and ca: "commit_at working_device example_realloc ?rt
      (head_block (j_state (w_journal example_commit_world))) example_commit_world = Ret (Inr (), w')"
    using working_commit_ok [OF example_realloc_facts(1-3)] by blast
  have c: "committable (w_journal example_commit_world) [] ?rt"
    using example_realloc_facts by (intro ring_tx_of_committable) auto
  have same: "same_ring (w_journal example_commit_world) (w_journal w')"
    by (rule commit_at_same_ring [OF ca])
  have rest: "at_rest (w_journal w') (w_dev w') ([] @ [?rt])" by (rule commit_at_rest [OF example_at_rest c ca])
  have home: "\<forall>t \<in> set ([] @ [?rt]). home_ok (w_journal w') t"
    using ring_tx_of_home_ok [OF example_realloc_facts(2,7)] same
    by (simp add: home_ok_def journal_block_def same_ring_def)
  have e: "\<lparr>rev_fs_block = 900, rev_seq = 10\<rparr> \<in> set (revokes_read BLOCK_SIZE ?rt)"
    by (simp add: revokes_read_def live_revoke_def example_defs)
  have len: "length (ring_images BLOCK_SIZE ([] @ [?rt])) < 100"
    using example_realloc_facts(3) by (simp add: length_ring_tx_image) (simp add: example_defs)
  have g: "j_partition_start_lba (w_journal w') = 16" "j_first_block (w_journal w') = 4"
    "j_block_count (w_journal w') = 64" "tail_block (j_state (w_journal w')) = 0"
    using same by (simp_all add: same_ring_def example_defs)
  from revoked_block_not_replayed [OF rest view_crashed home _ _ _ working_device_ok e, of 900 0]
    len g w' show ?thesis by (auto simp: journal_block_def)
qed


end
