(* ===== verification/Efs_Extents.thy ===== *)
theory Efs_Extents
  imports Efs_Layout
begin

text \<open>
  Extents: \<open>libs/efs-common/src/extent.rs\<close> and the in-memory block map of
  \<open>kernel/src/fs/efs/extents.rs\<close>.  A node is a twelve-byte header followed by
  twelve-byte entries, extents in a leaf and child blocks in an index node.  The map of a
  file is the list of its extents in logical order; \<open>em_abs\<close> is the partial function from
  logical to physical blocks that such a list stands for, and \<open>em_wf\<close> the invariant of the
  list.  Arithmetic on logical block numbers is 32 bits wide and panics on overflow.
  \<open>partition_point\<close> and \<open>binary_search_by_key\<close> are the functions of the standard library on
  slices that are partitioned and sorted, which is where their result is specified.
\<close>

section \<open>Nodes\<close>

record EfsExtentHeader =
  eh_magic :: u16
  eh_entries :: u16
  eh_max_entries :: u16
  eh_depth :: u16
  eh_reserved :: u32

record EfsExtent =
  ext_logical_block :: u32
  ext_length :: u16
  ext_start_hi :: u16
  ext_start_lo :: u32

record EfsExtentIndex =
  idx_logical_block :: u32
  idx_reserved :: u16
  idx_leaf_hi :: u16
  idx_leaf_lo :: u32

definition extent_header_bytes :: "EfsExtentHeader \<Rightarrow> bytes" where
  "extent_header_bytes h = put_u16 (eh_magic h) @ put_u16 (eh_entries h) @ put_u16 (eh_max_entries h) @
     put_u16 (eh_depth h) @ put_u32 (eh_reserved h)"

definition extent_header_of :: "bytes \<Rightarrow> EfsExtentHeader" where
  "extent_header_of d = \<lparr>eh_magic = get_u16 0 d, eh_entries = get_u16 2 d, eh_max_entries = get_u16 4 d,
     eh_depth = get_u16 6 d, eh_reserved = get_u32 8 d\<rparr>"

definition extent_bytes :: "EfsExtent \<Rightarrow> bytes" where
  "extent_bytes e = put_u32 (ext_logical_block e) @ put_u16 (ext_length e) @ put_u16 (ext_start_hi e) @
     put_u32 (ext_start_lo e)"

definition extent_of :: "bytes \<Rightarrow> EfsExtent" where
  "extent_of d = \<lparr>ext_logical_block = get_u32 0 d, ext_length = get_u16 4 d, ext_start_hi = get_u16 6 d,
     ext_start_lo = get_u32 8 d\<rparr>"

definition extent_index_bytes :: "EfsExtentIndex \<Rightarrow> bytes" where
  "extent_index_bytes e = put_u32 (idx_logical_block e) @ put_u16 (idx_reserved e) @ put_u16 (idx_leaf_hi e) @
     put_u32 (idx_leaf_lo e)"

definition extent_index_of :: "bytes \<Rightarrow> EfsExtentIndex" where
  "extent_index_of d = \<lparr>idx_logical_block = get_u32 0 d, idx_reserved = get_u16 4 d, idx_leaf_hi = get_u16 6 d,
     idx_leaf_lo = get_u32 8 d\<rparr>"

definition physical_start :: "EfsExtent \<Rightarrow> nat" where
  "physical_start e = unat (push_bit 32 (ucast (ext_start_hi e)) OR ucast (ext_start_lo e) :: u64)"

definition child_block :: "EfsExtentIndex \<Rightarrow> nat" where
  "child_block e = unat (push_bit 32 (ucast (idx_leaf_hi e)) OR ucast (idx_leaf_lo e) :: u64)"

definition entries_per_node :: "nat \<Rightarrow> nat" where
  "entries_per_node bytes = (bytes - 12) div 12"

definition MAX_INLINE_EXTENTS :: nat where
  "MAX_INLINE_EXTENTS = (INODE_DATA_AREA_SIZE - 12) div 12"

definition max_extents :: "nat \<Rightarrow> nat" where
  "max_extents bs = MAX_INLINE_EXTENTS * entries_per_node bs"

definition read_node_header :: "bytes \<Rightarrow> EfsExtentHeader option" where
  "read_node_header node = (if length node < 12 then None else Some (extent_header_of node))"

definition write_node_header :: "bytes \<Rightarrow> EfsExtentHeader \<Rightarrow> bytes run" where
  "write_node_header node hdr =
     (if length node < 12 then Panic else Ret (splice_at 0 (extent_header_bytes hdr) node))"

text \<open>Both kinds of entries are twelve bytes long; the codec is the parameter.\<close>

definition read_node_entry :: "(bytes \<Rightarrow> 't) \<Rightarrow> bytes \<Rightarrow> nat \<Rightarrow> 't option" where
  "read_node_entry dec node index =
     (let off = 12 + index * 12 in if off + 12 > length node then None else Some (dec (drop off node)))"

definition write_node_entry :: "('t \<Rightarrow> bytes) \<Rightarrow> bytes \<Rightarrow> nat \<Rightarrow> 't \<Rightarrow> bytes run" where
  "write_node_entry enc node index entry =
     (let off = 12 + index * 12 in if off + 12 > length node then Panic else Ret (splice_at off (enc entry) node))"

section \<open>The block map\<close>

type_synonym ExtentMap = "EfsExtent list"

datatype BlockRun = Mapped nat nat | Hole "nat option"

definition partition_point :: "('a \<Rightarrow> bool) \<Rightarrow> 'a list \<Rightarrow> nat" where
  "partition_point P xs = length (takeWhile P xs)"

definition binary_search_by_key :: "('k::linorder) \<Rightarrow> ('a \<Rightarrow> 'k) \<Rightarrow> 'a list \<Rightarrow> nat + nat" where
  "binary_search_by_key k f xs =
     (let i = partition_point (\<lambda>x. f x < k) xs
      in if i < length xs \<and> f (xs ! i) = k then Inr i else Inl i)"

definition block_count :: "ExtentMap \<Rightarrow> nat" where
  "block_count m = sum_list (map (\<lambda>e. unat (ext_length e)) m)"

text \<open>\<open>e.logical_block + e.length as u32\<close>\<close>

definition ext_end :: "EfsExtent \<Rightarrow> nat run" where
  "ext_end e = (let n = unat (ext_logical_block e) + unat (ext_length e) in if n \<ge> 2 ^ 32 then Panic else Ret n)"

definition lookup_at :: "ExtentMap \<Rightarrow> u32 \<Rightarrow> nat \<Rightarrow> nat option run" where
  "lookup_at m logical_block i = (let e = m ! i in
     run_bind (ext_end e) (\<lambda>end_logical.
       Ret (if unat logical_block < end_logical
            then Some (physical_start e + (unat logical_block - unat (ext_logical_block e))) else None)))"

definition lookup :: "ExtentMap \<Rightarrow> u32 \<Rightarrow> nat option run" where
  "lookup m logical_block =
     (case binary_search_by_key logical_block ext_logical_block m of
        Inr i \<Rightarrow> lookup_at m logical_block i
      | Inl i \<Rightarrow> if i = 0 then Ret None else lookup_at m logical_block (i - 1))"

definition run_at :: "ExtentMap \<Rightarrow> u32 \<Rightarrow> BlockRun run" where
  "run_at m logical_block =
     (let pos = partition_point (\<lambda>e. ext_logical_block e \<le> logical_block) m;
          hole = Hole (if pos < length m
                       then Some (unat (ext_logical_block (m ! pos)) - unat logical_block) else None)
      in if pos > 0
         then let e = m ! (pos - 1) in
           run_bind (ext_end e) (\<lambda>end_logical.
             Ret (if unat logical_block < end_logical
                  then Mapped (physical_start e + (unat logical_block - unat (ext_logical_block e)))
                         (end_logical - unat logical_block)
                  else hole))
         else Ret hole)"

definition goal_for :: "ExtentMap \<Rightarrow> u32 \<Rightarrow> nat option run" where
  "goal_for m logical_block =
     (let pos = partition_point (\<lambda>e. ext_logical_block e \<le> logical_block) m
      in if pos = 0 then Ret None
         else let prev = m ! (pos - 1) in
           run_bind (ext_end prev) (\<lambda>end_logical.
             Ret (if unat logical_block < end_logical then None
                  else Some (physical_start prev + unat (ext_length prev) + (unat logical_block - end_logical)))))"

definition merge_forward :: "nat \<Rightarrow> ExtentMap \<Rightarrow> ExtentMap run" where
  "merge_forward i m =
     (if i + 1 \<ge> length m then Ret m
      else let next = m ! (i + 1); cur = m ! i in
        run_bind (ext_end cur) (\<lambda>end_logical.
          Ret (if end_logical = unat (ext_logical_block next) \<and>
                  physical_start cur + unat (ext_length cur) = physical_start next \<and>
                  unat (ext_length cur) + unat (ext_length next) \<le> 32767
               then take (i + 1) (m[i := cur\<lparr>ext_length := ext_length cur + ext_length next\<rparr>]) @ drop (i + 2) m
               else m)))"

definition new_extent :: "u32 \<Rightarrow> u16 \<Rightarrow> nat \<Rightarrow> EfsExtent" where
  "new_extent logical_block len phys_block = \<lparr>ext_logical_block = logical_block, ext_length = len,
     ext_start_hi = word_of_nat (phys_block div 2 ^ 32), ext_start_lo = word_of_nat phys_block\<rparr>"

text \<open>The part of \<open>insert\<close> behind the attempt to extend the previous extent.\<close>

definition insert_at :: "nat \<Rightarrow> u32 \<Rightarrow> nat \<Rightarrow> ExtentMap \<Rightarrow> ExtentMap run" where
  "insert_at pos logical_block phys_block m =
     (let fresh = take pos m @ new_extent logical_block 1 phys_block # drop pos m
      in if pos < length m
         then if unat logical_block + 1 \<ge> 2 ^ 32 then Panic
           else let next = m ! pos in
             if logical_block + 1 = ext_logical_block next \<and> phys_block + 1 = physical_start next \<and>
                ext_length next < 32767
             then let m' = m[pos := new_extent logical_block (ext_length next + 1) phys_block]
                  in if pos > 0 then merge_forward (pos - 1) m' else Ret m'
             else Ret fresh
         else Ret fresh)"

definition insert_block :: "u32 \<Rightarrow> nat \<Rightarrow> ExtentMap \<Rightarrow> ExtentMap run" where
  "insert_block logical_block phys_block m =
     (let pos = partition_point (\<lambda>e. ext_logical_block e \<le> logical_block) m
      in if pos > 0
         then let prev = m ! (pos - 1) in
           run_bind (ext_end prev) (\<lambda>end_logical.
             if end_logical = unat logical_block \<and>
                physical_start prev + unat (ext_length prev) = phys_block \<and> ext_length prev < 32767
             then merge_forward (pos - 1) (m[pos - 1 := prev\<lparr>ext_length := ext_length prev + 1\<rparr>])
             else insert_at pos logical_block phys_block m)
         else insert_at pos logical_block phys_block m)"

section \<open>Arithmetic\<close>

lemma join_hi_lo: "unat (push_bit 32 (ucast (hi :: u16)) OR ucast (lo :: u32) :: u64) = unat hi * 2 ^ 32 + unat lo"
proof -
  have lt: "unat hi < 2 ^ 16" "unat lo < 2 ^ 32" using unat_less2p [of hi] unat_less2p [of lo] by simp_all
  have "push_bit 32 (ucast hi) AND (ucast lo :: u64) = 0"
    by (rule bit_word_eqI) (auto simp: bit_simps dest: bit_imp_le_length)
  then have "push_bit 32 (ucast hi) OR ucast lo = (push_bit 32 (ucast hi) + ucast lo :: u64)"
    by (simp add: disjunctive_add_eq_or)
  also have "\<dots> = word_of_nat (unat hi * 2 ^ 32 + unat lo)"
    by (simp add: push_bit_eq_mult)
  finally show ?thesis using lt by (simp add: unat_of_nat del: of_nat_add)
qed

lemma physical_start_nat: "physical_start e = unat (ext_start_hi e) * 2 ^ 32 + unat (ext_start_lo e)"
  by (simp add: physical_start_def join_hi_lo)

lemma unat_word_of_nat_less: "n < 2 ^ LENGTH('a) \<Longrightarrow> unat (word_of_nat n :: 'a::len word) = n"
  by (simp add: unat_of_nat)

lemma physical_start_new [simp]: "p < 2 ^ 48 \<Longrightarrow> physical_start (new_extent l n p) = p"
proof -
  assume "p < 2 ^ 48"
  then have "p div 2 ^ 32 < 2 ^ 16" by (simp add: less_mult_imp_div_less)
  then show ?thesis
    by (simp add: physical_start_nat new_extent_def unat_of_nat)
qed

lemma new_extent_fields [simp]:
  "ext_logical_block (new_extent l n p) = l" "ext_length (new_extent l n p) = n"
  by (simp_all add: new_extent_def)

section \<open>What a block map stands for\<close>

definition ext_abs :: "EfsExtent \<Rightarrow> nat \<rightharpoonup> nat" where
  "ext_abs e l = (if unat (ext_logical_block e) \<le> l \<and> l < unat (ext_logical_block e) + unat (ext_length e)
     then Some (physical_start e + (l - unat (ext_logical_block e))) else None)"

primrec em_abs :: "ExtentMap \<Rightarrow> nat \<rightharpoonup> nat" where
  "em_abs [] = Map.empty"
| "em_abs (e # m) = em_abs m ++ ext_abs e"

definition ext_ok :: "EfsExtent \<Rightarrow> bool" where
  "ext_ok e \<longleftrightarrow> 0 < unat (ext_length e) \<and> unat (ext_length e) \<le> 32767 \<and>
     unat (ext_logical_block e) + unat (ext_length e) < 2 ^ 32"

definition em_wf :: "ExtentMap \<Rightarrow> bool" where
  "em_wf m \<longleftrightarrow> (\<forall>e \<in> set m. ext_ok e) \<and>
     sorted_wrt (\<lambda>a b. unat (ext_logical_block a) + unat (ext_length a) \<le> unat (ext_logical_block b)) m"

lemma em_wf_simps [simp]:
  "em_wf []"
  "em_wf (e # m) \<longleftrightarrow> ext_ok e \<and> em_wf m \<and>
     (\<forall>b \<in> set m. unat (ext_logical_block e) + unat (ext_length e) \<le> unat (ext_logical_block b))"
  "em_wf (xs @ ys) \<longleftrightarrow> em_wf xs \<and> em_wf ys \<and> (\<forall>a \<in> set xs. \<forall>b \<in> set ys.
     unat (ext_logical_block a) + unat (ext_length a) \<le> unat (ext_logical_block b))"
  by (auto simp: em_wf_def sorted_wrt_append)

lemma em_abs_append [simp]: "em_abs (xs @ ys) = em_abs ys ++ em_abs xs"
  by (induction xs) simp_all

lemma ext_ok_end [simp]: "ext_ok e \<Longrightarrow> ext_end e = Ret (unat (ext_logical_block e) + unat (ext_length e))"
  by (simp add: ext_end_def ext_ok_def)

lemma em_abs_above:
  "(\<forall>e \<in> set m. l < unat (ext_logical_block e)) \<Longrightarrow> em_abs m l = None"
  by (induction m) (auto simp: ext_abs_def map_add_def)

lemma em_abs_below:
  "(\<forall>e \<in> set m. unat (ext_logical_block e) + unat (ext_length e) \<le> l) \<Longrightarrow> em_abs m l = None"
  by (induction m) (auto simp: ext_abs_def map_add_def)

text \<open>A position splits the map into the extents that start at or before a block and those
  behind it.\<close>

lemma em_split:
  assumes "em_wf m"
  obtains xs ys where "m = xs @ ys" "partition_point (\<lambda>e. ext_logical_block e \<le> l) m = length xs"
    "\<forall>e \<in> set xs. unat (ext_logical_block e) \<le> unat l" "\<forall>e \<in> set ys. unat l < unat (ext_logical_block e)"
proof -
  let ?P = "\<lambda>e. ext_logical_block e \<le> l"
  have later: "\<forall>e \<in> set (dropWhile ?P m). unat l < unat (ext_logical_block e)"
  proof (cases "dropWhile ?P m")
    case Nil
    then show ?thesis by (simp only: list.set ball_empty)
  next
    case (Cons x rest)
    then have "\<not> ?P x" by (metis hd_dropWhile list.discI list.sel(1))
    moreover have "em_wf (takeWhile ?P m @ x # rest)" using assms takeWhile_dropWhile_id [of ?P m] Cons by simp
    ultimately show ?thesis using Cons by (auto simp: word_le_nat_alt)
  qed
  show thesis
    by (rule that [of "takeWhile ?P m" "dropWhile ?P m"])
      (use later in \<open>auto simp: partition_point_def word_le_nat_alt dest: set_takeWhileD\<close>)
qed

text \<open>Only the last extent that starts at or before a block can cover it.\<close>

lemma em_abs_at:
  assumes "em_wf (zs @ [e] @ ys)" "unat (ext_logical_block e) \<le> l" "\<forall>e \<in> set ys. l < unat (ext_logical_block e)"
  shows "em_abs (zs @ [e] @ ys) l = ext_abs e l"
proof -
  have "em_abs zs l = None" by (rule em_abs_below) (use assms in fastforce)
  moreover have "em_abs ys l = None" by (rule em_abs_above) (use assms in blast)
  ultimately show ?thesis by (simp add: map_add_def split: option.splits)
qed

lemma em_wf_before:
  assumes "a \<in> set zs" "em_wf (zs @ [e] @ ys)"
  shows "unat (ext_logical_block a) < unat (ext_logical_block e)"
proof -
  have "ext_ok a" "unat (ext_logical_block a) + unat (ext_length a) \<le> unat (ext_logical_block e)"
    using assms by (auto simp: em_wf_def sorted_wrt_append)
  then show ?thesis by (simp add: ext_ok_def)
qed

lemma lookup_at_abs:
  assumes "em_wf (zs @ [e] @ ys)" "unat (ext_logical_block e) \<le> unat l"
    "\<forall>e \<in> set ys. unat l < unat (ext_logical_block e)"
  shows "lookup_at (zs @ [e] @ ys) l (length zs) = Ret (em_abs (zs @ [e] @ ys) (unat l))"
  using assms by (simp only: em_abs_at) (simp add: lookup_at_def ext_abs_def)

lemma lookup_ok:
  assumes "em_wf m"
  shows "lookup m l = Ret (em_abs m (unat l))"
proof -
  obtain xs ys where m: "m = xs @ ys" and xs: "\<forall>e \<in> set xs. unat (ext_logical_block e) \<le> unat l"
    and ys: "\<forall>e \<in> set ys. unat l < unat (ext_logical_block e)"
    using em_split [OF assms, of l] by metis
  have ys0: "takeWhile (\<lambda>x. ext_logical_block x < l) ys = []"
    using ys by (cases ys) (auto simp: word_less_nat_alt)
  show ?thesis
  proof (cases xs rule: rev_cases)
    case Nil
    then have "em_abs m (unat l) = None" using ys m by (auto intro: em_abs_above)
    then show ?thesis
      using ys Nil m ys0 by (cases ys) (auto simp: lookup_def binary_search_by_key_def partition_point_def map_add_def)
  next
    case (snoc zs e)
    have "\<forall>a \<in> set zs. ext_logical_block a < l"
    proof
      fix a assume "a \<in> set zs"
      moreover have "em_wf (zs @ [e] @ ys)" using assms m snoc by simp
      ultimately have "unat (ext_logical_block a) < unat (ext_logical_block e)" by (rule em_wf_before)
      moreover have "unat (ext_logical_block e) \<le> unat l" using xs snoc by simp
      ultimately show "ext_logical_block a < l" by (simp add: word_less_nat_alt)
    qed
    then have tw: "takeWhile (\<lambda>x. ext_logical_block x < l) m =
        (if ext_logical_block e < l then zs @ [e] else zs)"
      using ys0 by (simp add: m snoc)
    have at: "lookup_at m l (length zs) = Ret (em_abs m (unat l))"
      using lookup_at_abs [of zs e ys l] assms xs ys by (simp add: m snoc)
    have "ext_logical_block e \<le> l" using xs snoc by (simp add: word_le_nat_alt)
    moreover have "ext_logical_block ((zs @ [e] @ ys) ! (length zs + 1)) \<noteq> l" if "ys \<noteq> []"
      using ys that by (cases ys) (auto simp: nth_append)
    ultimately have "binary_search_by_key l ext_logical_block m =
        (if ext_logical_block e < l then Inl (length zs + 1) else Inr (length zs))"
      unfolding binary_search_by_key_def partition_point_def tw Let_def
      by (cases ys) (auto simp: m snoc nth_append)
    then show ?thesis using at by (simp add: lookup_def)
  qed
qed

text \<open>C26. Looking a block up gives what the map stands for.  The binary search of \<open>lookup\<close> finds
  the physical block of every mapped logical block and nothing for the others, and does not
  overflow.\<close>

theorem lookup_correct:
  assumes "em_wf m"
  shows "lookup m l = Ret (em_abs m (unat l))"
  using assms by (rule lookup_ok)

lemma ext_abs_run:
  assumes "em_wf (zs @ [e] @ ys)" "unat (ext_logical_block e) \<le> l"
    "l + i < unat (ext_logical_block e) + unat (ext_length e)"
  shows "em_abs (zs @ [e] @ ys) (l + i) = Some (physical_start e + (l - unat (ext_logical_block e)) + i)"
  using em_abs_at [OF assms(1), of "l + i"] assms by (fastforce simp: ext_abs_def)

lemma hole_before:
  assumes "em_wf (xs @ ys)" "\<forall>e \<in> set xs. unat (ext_logical_block e) + unat (ext_length e) \<le> l"
    "\<forall>e \<in> set ys. l + i < unat (ext_logical_block e)"
  shows "em_abs (xs @ ys) (l + i) = None"
  using em_abs_below [of xs "l + i"] em_abs_above [of ys "l + i"] assms by (fastforce simp: map_add_def)

lemma run_at_ok:
  assumes "em_wf m"
  shows "\<exists>r. run_at m l = Ret r \<and> (case r of
      Mapped p n \<Rightarrow> 0 < n \<and> (\<forall>i < n. em_abs m (unat l + i) = Some (p + i))
    | Hole (Some n) \<Rightarrow> 0 < n \<and> (\<forall>i < n. em_abs m (unat l + i) = None) \<and> em_abs m (unat l + n) \<noteq> None
    | Hole None \<Rightarrow> \<forall>i. em_abs m (unat l + i) = None)"
proof -
  obtain xs ys where m: "m = xs @ ys" and pos: "partition_point (\<lambda>e. ext_logical_block e \<le> l) m = length xs"
    and xs: "\<forall>e \<in> set xs. unat (ext_logical_block e) \<le> unat l"
    and ys: "\<forall>e \<in> set ys. unat l < unat (ext_logical_block e)"
    by (rule em_split [OF assms, of l])
  show ?thesis
  proof (cases "\<exists>zs e. xs = zs @ [e] \<and> unat l < unat (ext_logical_block e) + unat (ext_length e)")
    case True
    then obtain zs e where e: "xs = zs @ [e]" "unat l < unat (ext_logical_block e) + unat (ext_length e)" by blast
    then have "ext_ok e" using assms m by simp
    with e have "run_at m l = Ret (Mapped (physical_start e + (unat l - unat (ext_logical_block e)))
        (unat (ext_logical_block e) + unat (ext_length e) - unat l))"
      unfolding run_at_def pos Let_def by (simp add: m nth_append)
    then show ?thesis
      using ext_abs_run [of zs e ys "unat l"] e assms xs m by (auto simp: less_diff_conv add.commute)
  next
    case False
    have below: "\<forall>e \<in> set xs. unat (ext_logical_block e) + unat (ext_length e) \<le> unat l"
    proof (cases xs rule: rev_cases)
      case (snoc zs e)
      then show ?thesis using False assms xs by (fastforce simp: m)
    qed simp
    have run: "run_at m l = Ret (Hole (if ys = [] then None else Some (unat (ext_logical_block (hd ys)) - unat l)))"
    proof (cases xs rule: rev_cases)
      case (snoc zs e)
      then have "ext_ok e" using assms m by simp
      with False snoc show ?thesis
        unfolding run_at_def pos Let_def by (cases ys) (simp_all add: m nth_append)
    next
      case Nil
      then show ?thesis unfolding run_at_def pos Let_def by (cases ys) (simp_all add: m)
    qed
    show ?thesis
    proof (cases ys)
      case Nil
      then show ?thesis using run hole_before [of xs ys "unat l"] assms below m by simp
    next
      case (Cons n rest)
      let ?n = "unat (ext_logical_block n)"
      have rest: "\<forall>e \<in> set ys. ?n \<le> unat (ext_logical_block e)" and n: "ext_ok n" "unat l < ?n"
        using assms ys by (auto simp: m Cons)
      have "em_abs m ?n \<noteq> None"
        using em_abs_at [of xs n rest ?n] assms n by (fastforce simp: m Cons ext_abs_def ext_ok_def)
      moreover have "em_abs m (unat l + i) = None" if "i < ?n - unat l" for i
        using hole_before [of xs ys "unat l" i] assms below rest that unfolding m by fastforce
      ultimately show ?thesis using run n(2) Cons by simp
    qed
  qed
qed

text \<open>C27. The run at a block.  \<open>run_at\<close> returns the physical run that backs the following logical
  blocks, or the length of the hole up to the next mapped block, or that nothing is mapped
  from here on.\<close>

theorem run_at_correct:
  assumes "em_wf m"
  shows "\<exists>r. run_at m l = Ret r \<and> (case r of
      Mapped p n \<Rightarrow> 0 < n \<and> (\<forall>i < n. em_abs m (unat l + i) = Some (p + i))
    | Hole (Some n) \<Rightarrow> 0 < n \<and> (\<forall>i < n. em_abs m (unat l + i) = None) \<and> em_abs m (unat l + n) \<noteq> None
    | Hole None \<Rightarrow> \<forall>i. em_abs m (unat l + i) = None)"
  using assms by (rule run_at_ok)

section \<open>Inserting a block\<close>

lemma unat_len_plus: "unat (ext_length e) + n < 65536 \<Longrightarrow> unat (ext_length e + word_of_nat n) = unat (ext_length e) + n"
  by (simp add: unat_word_ariths unat_of_nat)

lemma ext_abs_append:
  assumes "ext_length e < 32767" "unat l = unat (ext_logical_block e) + unat (ext_length e)"
    "p = physical_start e + unat (ext_length e)"
  shows "ext_abs (e\<lparr>ext_length := ext_length e + 1\<rparr>) = (ext_abs e)(unat l \<mapsto> p)"
  using assms unat_len_plus [of e 1]
  by (auto simp: ext_abs_def physical_start_def word_less_nat_alt fun_eq_iff)

lemma ext_abs_prepend:
  assumes "ext_length e < 32767" "unat l + 1 = unat (ext_logical_block e)" "p + 1 = physical_start e" "p < 2 ^ 48"
  shows "ext_abs (new_extent l (ext_length e + 1) p) = (ext_abs e)(unat l \<mapsto> p)"
  using assms unat_len_plus [of e 1]
  by (auto simp: ext_abs_def word_less_nat_alt fun_eq_iff)

lemma ext_abs_new: "p < 2 ^ 48 \<Longrightarrow> ext_abs (new_extent l 1 p) = [unat l \<mapsto> p]"
  by (auto simp: ext_abs_def fun_eq_iff)

lemma em_abs_upd:
  assumes "em_abs zs l = None" "ext_abs e' = (ext_abs e)(l \<mapsto> p)"
  shows "em_abs (zs @ e' # ys) = (em_abs (zs @ e # ys))(l \<mapsto> p)"
  using assms by (simp add: map_add_upd_left domIff)

lemma merge_forward_correct:
  assumes "em_wf m" "i < length m"
  shows "\<exists>m'. merge_forward i m = Ret m' \<and> em_wf m' \<and> em_abs m' = em_abs m"
proof (cases "i + 1 < length m")
  case False
  then show ?thesis using assms by (simp add: merge_forward_def)
next
  case True
  then have "drop i m = m ! i # m ! (i + 1) # drop (i + 2) m"
    by (simp add: Cons_nth_drop_Suc)
  then obtain xs a b ys where m: "m = xs @ a # b # ys" and i: "i = length xs"
    using assms(2) by (metis append_take_drop_id length_take min.absorb4)
  let ?c = "a\<lparr>ext_length := ext_length a + ext_length b\<rparr>"
  show ?thesis
  proof (cases "unat (ext_logical_block a) + unat (ext_length a) = unat (ext_logical_block b) \<and>
      physical_start a + unat (ext_length a) = physical_start b \<and>
      unat (ext_length a) + unat (ext_length b) \<le> 32767")
    case True
    have len: "unat (ext_length a + ext_length b) = unat (ext_length a) + unat (ext_length b)"
      using unat_len_plus [of a "unat (ext_length b)"] True by simp
    have "merge_forward i m = Ret (xs @ ?c # ys)"
      using True assms by (simp add: merge_forward_def m i nth_append)
    moreover have "em_wf (xs @ ?c # ys)"
      using assms(1) True by (auto simp: m ext_ok_def len)
    moreover have "ext_abs ?c = ext_abs b ++ ext_abs a"
      using True by (auto simp: ext_abs_def len physical_start_def map_add_def fun_eq_iff)
    then have "em_abs (xs @ ?c # ys) = em_abs m" by (simp add: m)
    ultimately show ?thesis by blast
  next
    case False
    then have "merge_forward i m = Ret m" using assms by (auto simp: merge_forward_def m i nth_append)
    then show ?thesis using assms(1) by blast
  qed
qed

text \<open>An unmapped block lies behind every extent that starts before it.\<close>

lemma unmapped_below:
  assumes "em_wf (xs @ ys)" "em_abs (xs @ ys) l = None" "\<forall>e \<in> set xs. unat (ext_logical_block e) \<le> l"
    "\<forall>e \<in> set ys. l < unat (ext_logical_block e)"
  shows "\<forall>e \<in> set xs. unat (ext_logical_block e) + unat (ext_length e) \<le> l"
proof (cases xs rule: rev_cases)
  case (snoc zs e)
  have "ext_abs e l = None" using em_abs_at [of zs e ys l] assms snoc by simp
  then have "unat (ext_logical_block e) + unat (ext_length e) \<le> l"
    using assms(3) snoc by (auto simp: ext_abs_def split: if_splits)
  then show ?thesis using assms(1,3) snoc by fastforce
qed simp

lemma insert_at_correct:
  assumes "em_wf (xs @ ys)" "\<forall>e \<in> set xs. unat (ext_logical_block e) + unat (ext_length e) \<le> unat l"
    "\<forall>e \<in> set ys. unat l < unat (ext_logical_block e)" "unat l + 1 < 2 ^ 32" "p < 2 ^ 48"
  shows "\<exists>m'. insert_at (length xs) l p (xs @ ys) = Ret m' \<and> em_wf m' \<and>
    em_abs m' = (em_abs (xs @ ys))(unat l \<mapsto> p)"
proof -
  have xs0: "em_abs xs (unat l) = None" by (rule em_abs_below) (use assms in blast)
  let ?f = "xs @ new_extent l 1 p # ys"
  have fresh: "em_wf ?f" "em_abs ?f = (em_abs (xs @ ys))(unat l \<mapsto> p)"
    using assms xs0 by (auto simp: ext_ok_def ext_abs_new map_add_upd_left domIff)
  have l1: "unat (l + 1) = unat l + 1" using assms(4) by (simp add: unat_word_ariths)
  show ?thesis
  proof (cases ys)
    case Nil
    then show ?thesis using fresh by (simp add: insert_at_def)
  next
    case (Cons n rest)
    let ?n = "new_extent l (ext_length n + 1) p" and ?c = "l + 1 = ext_logical_block n \<and>
      p + 1 = physical_start n \<and> ext_length n < 32767"
    show ?thesis
    proof (cases ?c)
      case False
      then have "insert_at (length xs) l p (xs @ ys) = Ret ?f"
        using assms(4) Cons by (auto simp: insert_at_def Let_def)
      then show ?thesis using fresh by blast
    next
      case True
      have len: "unat (ext_length n + 1) = unat (ext_length n) + 1"
        using True unat_len_plus [of n 1] by (simp add: word_less_nat_alt)
      have "unat l + 1 = unat (ext_logical_block n)" using True l1 by metis
      then have wf: "em_wf (xs @ ?n # rest)" "em_abs (xs @ ?n # rest) = (em_abs (xs @ ys))(unat l \<mapsto> p)"
        using assms True em_abs_upd [OF xs0 ext_abs_prepend [of n l p]]
        by (auto simp: Cons len ext_ok_def word_less_nat_alt)
      have "insert_at (length xs) l p (xs @ ys) = (if length xs > 0 then merge_forward (length xs - 1)
          (xs @ ?n # rest) else Ret (xs @ ?n # rest))"
        using assms(4) True Cons by (simp add: insert_at_def Let_def)
      then show ?thesis using merge_forward_correct [OF wf(1), of "length xs - 1"] wf by (cases "xs = []") auto
    qed
  qed
qed

lemma insert_block_ok:
  assumes "em_wf m" "em_abs m (unat l) = None" "unat l + 1 < 2 ^ 32" "p < 2 ^ 48"
  shows "\<exists>m'. insert_block l p m = Ret m' \<and> em_wf m' \<and> em_abs m' = (em_abs m)(unat l \<mapsto> p)"
proof -
  obtain xs ys where m: "m = xs @ ys" and pos: "partition_point (\<lambda>e. ext_logical_block e \<le> l) m = length xs"
    and xs: "\<forall>e \<in> set xs. unat (ext_logical_block e) \<le> unat l"
    and ys: "\<forall>e \<in> set ys. unat l < unat (ext_logical_block e)"
    by (rule em_split [OF assms(1), of l])
  have below: "\<forall>e \<in> set xs. unat (ext_logical_block e) + unat (ext_length e) \<le> unat l"
    by (rule unmapped_below) (use assms m xs ys in auto)
  note at = insert_at_correct [OF _ below ys assms(3,4)]
  show ?thesis
  proof (cases xs rule: rev_cases)
    case Nil
    then show ?thesis using at assms(1) unfolding insert_block_def pos Let_def by (simp add: m)
  next
    case (snoc zs e)
    let ?c = "unat (ext_logical_block e) + unat (ext_length e) = unat l \<and>
      physical_start e + unat (ext_length e) = p \<and> ext_length e < 32767"
    let ?e = "e\<lparr>ext_length := ext_length e + 1\<rparr>"
    have e: "ext_ok e" using assms(1) m snoc by simp
    show ?thesis
    proof (cases ?c)
      case False
      then have "insert_block l p m = insert_at (length xs) l p (xs @ ys)"
        using e unfolding insert_block_def pos Let_def by (auto simp: m snoc nth_append)
      then show ?thesis using at assms(1) m by simp
    next
      case True
      have len: "unat (ext_length e + 1) = unat (ext_length e) + 1"
        using True unat_len_plus [of e 1] by (simp add: word_less_nat_alt)
      have zs0: "em_abs zs (unat l) = None" by (rule em_abs_below) (use below snoc in simp)
      have up: "ext_abs ?e = (ext_abs e)(unat l \<mapsto> p)" by (rule ext_abs_append) (use True in auto)
      have "m = zs @ e # ys" by (simp add: m snoc)
      then have abs: "em_abs (zs @ ?e # ys) = (em_abs m)(unat l \<mapsto> p)"
        by (simp only: em_abs_upd [OF zs0 up])
      have "\<forall>b \<in> set ys. unat (ext_logical_block e) + (unat (ext_length e) + 1) \<le> unat (ext_logical_block b)"
        using ys True by auto
      moreover have "ext_ok ?e" using assms(3) True by (simp add: ext_ok_def len word_less_nat_alt)
      ultimately have wf: "em_wf (zs @ ?e # ys)" using assms(1) by (simp add: m snoc len)
      have "insert_block l p m = merge_forward (length zs) (zs @ ?e # ys)"
        using e True unfolding insert_block_def pos Let_def by (simp add: m snoc nth_append)
      then show ?thesis using merge_forward_correct [OF wf, of "length zs"] abs by simp
    qed
  qed
qed

text \<open>C24. Inserting a block.  Recording that a block which is not mapped yet lives at a physical
  block changes the map at exactly this block, whether the new block extends the extent
  before it, the one behind it, joins the two, or opens an extent of its own; the list stays
  sorted, without overlap, and within the format's lengths, and nothing overflows.\<close>

theorem insert_block_correct:
  assumes "em_wf m" "em_abs m (unat l) = None" "unat l + 1 < 2 ^ 32" "p < 2 ^ 48"
  shows "\<exists>m'. insert_block l p m = Ret m' \<and> em_wf m' \<and> em_abs m' = (em_abs m)(unat l \<mapsto> p)"
  using assms by (rule insert_block_ok)

lemma goal_for_correct:
  assumes "em_wf m" "0 < unat l" "em_abs m (unat l - 1) = Some q" "em_abs m (unat l) = None"
  shows "goal_for m l = Ret (Some (q + 1))"
proof -
  obtain xs ys where m: "m = xs @ ys" and pos: "partition_point (\<lambda>e. ext_logical_block e \<le> l) m = length xs"
    and xs: "\<forall>e \<in> set xs. unat (ext_logical_block e) \<le> unat l"
    and ys: "\<forall>e \<in> set ys. unat l < unat (ext_logical_block e)"
    by (rule em_split [OF assms(1), of l])
  have below: "\<forall>e \<in> set xs. unat (ext_logical_block e) + unat (ext_length e) \<le> unat l"
    by (rule unmapped_below) (use assms m xs ys in auto)
  have "em_abs ys (unat l - 1) = None" by (rule em_abs_above) (use ys in auto)
  with assms(3) have some: "em_abs xs (unat l - 1) = Some q" by (auto simp: m map_add_def split: option.splits)
  then obtain zs e where e: "xs = zs @ [e]" by (cases xs rule: rev_cases) auto
  have wf: "em_wf (zs @ [e] @ [])" and ok: "ext_ok e" using assms(1) by (simp_all add: m e)
  have "unat (ext_logical_block e) \<le> unat l - 1" using below e ok by (auto simp: ext_ok_def)
  from em_abs_at [OF wf this] some have "ext_abs e (unat l - 1) = Some q" by (simp add: e)
  then have "unat l = unat (ext_logical_block e) + unat (ext_length e)"
    "q = physical_start e + (unat l - 1 - unat (ext_logical_block e))"
    using below e assms(2) by (auto simp: ext_abs_def split: if_splits)
  then show ?thesis
    using ok assms(2) unfolding goal_for_def pos Let_def by (auto simp: m e nth_append ext_ok_def)
qed

lemma goal_for_total:
  assumes "em_wf m"
  shows "\<exists>g. goal_for m l = Ret g"
proof -
  obtain xs ys where m: "m = xs @ ys" and pos: "partition_point (\<lambda>e. ext_logical_block e \<le> l) m = length xs"
    by (rule em_split [OF assms, of l])
  show ?thesis
  proof (cases xs rule: rev_cases)
    case (snoc zs e)
    then have "ext_ok e" using assms m by simp
    then show ?thesis unfolding goal_for_def pos Let_def by (simp add: m snoc nth_append)
  qed (simp add: goal_for_def pos Let_def)
qed

lemma insert_block_length: "insert_block l p m = Ret m' \<Longrightarrow> length m' \<le> length m + 1"
proof -
  have fwd: "merge_forward i k = Ret k' \<Longrightarrow> length k' \<le> length k" for i k k'
    by (auto simp: merge_forward_def Let_def run_bind_eq_Ret split: if_splits)
  have at: "insert_at pos l p k = Ret k' \<Longrightarrow> length k' \<le> length k + 1" for pos k k'
    by (fastforce simp: insert_at_def Let_def split: if_splits dest!: fwd)
  show "insert_block l p m = Ret m' \<Longrightarrow> length m' \<le> length m + 1"
    by (fastforce simp: insert_block_def Let_def run_bind_eq_Ret split: if_splits dest!: fwd at)
qed

section \<open>Examples\<close>

text \<open>A file whose blocks 0 to 3 are contiguous, with a hole of one block behind them.\<close>

definition example_map :: ExtentMap where
  "example_map = [new_extent 0 4 100, new_extent 5 2 105]"

lemma example_map_wf: "em_wf example_map"
  by (simp add: example_map_def ext_ok_def)

theorem lookup_correct_witness: "lookup example_map 6 = Ret (em_abs example_map (unat (6 :: u32)))"
  by (rule lookup_correct [OF example_map_wf])

theorem run_at_correct_witness:
  "\<exists>r. run_at example_map 4 = Ret r \<and> (case r of
      Mapped p n \<Rightarrow> 0 < n \<and> (\<forall>i < n. em_abs example_map (unat (4 :: u32) + i) = Some (p + i))
    | Hole (Some n) \<Rightarrow> 0 < n \<and> (\<forall>i < n. em_abs example_map (unat (4 :: u32) + i) = None) \<and>
        em_abs example_map (unat (4 :: u32) + n) \<noteq> None
    | Hole None \<Rightarrow> \<forall>i. em_abs example_map (unat (4 :: u32) + i) = None)"
  by (rule run_at_correct [OF example_map_wf])

theorem insert_block_correct_witness:
  "\<exists>m'. insert_block 4 104 example_map = Ret m' \<and> em_wf m' \<and>
     em_abs m' = (em_abs example_map)(unat (4 :: u32) \<mapsto> 104)"
  by (rule insert_block_correct [OF example_map_wf])
    (simp_all add: example_map_def ext_abs_def map_add_def)

end
