(* ===== verification/Efs_Driver.thy ===== *)
theory Efs_Driver
  imports Efs_Extents Block_Device Journal_State
begin

text \<open>
  The state of the EFS driver (\<open>kernel/src/fs/efs/mod.rs\<close>) and its access to blocks and
  inodes.  The driver sees the device through the block page cache: a read of a page that is
  not cached loads it, a write leaves it in the cache and enrols it in the transaction of the
  operation; writing back and evicting are the business of the cache.  What the cache answers
  when it cannot read or take a page, and the device when it is asked directly for the
  sectors from an address on, is the parameter \<open>io\<close>.  The cached page of a block is
  named by its page index.  The mutexes of the driver make each operation below one critical
  section, so an operation is a function of the driver state; \<open>ef_bind\<close> sequences two of them
  and stops at the first error.
\<close>

section \<open>Operations\<close>

record EfsDriver =
  ed_device_id :: nat
  ed_starting_lba :: nat
  ed_inodes_per_group :: nat
  ed_superblock :: EfsSuperblock
  ed_bgd_table :: "EfsBlockGroupDesc list"
  ed_orphan_prev :: "(nat, nat) btree"
  ed_cache :: "nat \<rightharpoonup> bytes"
  ed_disk :: "nat \<Rightarrow> bytes"
  ed_tx :: TxHandle

record page_io =
  pio_read :: "nat \<Rightarrow> Error option"
  pio_write :: "nat \<Rightarrow> Error option"
  dio_read :: "nat \<Rightarrow> Error option"
  dio_write :: "nat \<Rightarrow> Error option"

type_synonym 'a efs = "EfsDriver \<Rightarrow> ((Error + 'a) \<times> EfsDriver) run"

definition ef_ret :: "'a \<Rightarrow> 'a efs" where "ef_ret a s = Ret (Inr a, s)"

definition ef_fail :: "Error \<Rightarrow> 'a efs" where "ef_fail e s = Ret (Inl e, s)"

definition ef_bind :: "'a efs \<Rightarrow> ('a \<Rightarrow> 'b efs) \<Rightarrow> 'b efs" where
  "ef_bind m f s = (case m s of Panic \<Rightarrow> Panic
     | Ret (Inl e, s') \<Rightarrow> Ret (Inl e, s') | Ret (Inr a, s') \<Rightarrow> f a s')"

definition ef_run :: "'a run \<Rightarrow> 'a efs" where
  "ef_run m s = (case m of Panic \<Rightarrow> Panic | Ret a \<Rightarrow> Ret (Inr a, s))"

definition ef_get :: "(EfsDriver \<Rightarrow> 'a) \<Rightarrow> 'a efs" where "ef_get f s = Ret (Inr (f s), s)"

definition ef_upd :: "(EfsDriver \<Rightarrow> EfsDriver) \<Rightarrow> unit efs" where "ef_upd f s = Ret (Inr (), f s)"

text \<open>An assertion, a range check or an overflow check of the language.\<close>

definition ef_assert :: "bool \<Rightarrow> unit efs" where
  "ef_assert b s = (if b then Ret (Inr (), s) else Panic)"

section \<open>Pages and blocks\<close>

definition page_view :: "EfsDriver \<Rightarrow> nat \<Rightarrow> bytes" where
  "page_view s idx = (case ed_cache s idx of Some p \<Rightarrow> p | None \<Rightarrow> ed_disk s idx)"

definition read_page :: "page_io \<Rightarrow> nat \<Rightarrow> bytes efs" where
  "read_page io idx s = (case ed_cache s idx of
       Some p \<Rightarrow> Ret (Inr p, s)
     | None \<Rightarrow> (case pio_read io idx of
         Some e \<Rightarrow> Ret (Inl e, s)
       | None \<Rightarrow> Ret (Inr (ed_disk s idx), s\<lparr>ed_cache := (ed_cache s)(idx \<mapsto> ed_disk s idx)\<rparr>)))"

definition write_page :: "page_io \<Rightarrow> nat \<Rightarrow> bytes \<Rightarrow> unit efs" where
  "write_page io idx data s = (case pio_write io idx of
       Some e \<Rightarrow> Ret (Inl e, s)
     | None \<Rightarrow> Ret (Inr (), s\<lparr>ed_cache := (ed_cache s)(idx \<mapsto> data)\<rparr>))"

definition block_to_lba :: "EfsDriver \<Rightarrow> nat \<Rightarrow> nat" where
  "block_to_lba s block = ed_starting_lba s + block * (BLOCK_SIZE div 512)"

definition block_page :: "EfsDriver \<Rightarrow> nat \<Rightarrow> nat" where
  "block_page s block = block_to_lba s block div 8"

definition enroll_page :: "nat \<Rightarrow> EfsDriver \<Rightarrow> EfsDriver" where
  "enroll_page idx s = s\<lparr>ed_tx := enroll_block (ed_device_id s, idx) idx (ed_tx s)\<rparr>"

definition read_block :: "page_io \<Rightarrow> nat \<Rightarrow> bytes efs" where
  "read_block io block s = read_page io (block_page s block) s"

definition write_block :: "page_io \<Rightarrow> nat \<Rightarrow> bytes \<Rightarrow> unit efs" where
  "write_block io block data s =
     (let idx = block_page s block;
          buf = splice_at 0 (take 4096 data) (replicate 4096 0)
      in ef_bind (write_page io idx buf) (\<lambda>_. ef_upd (enroll_page idx)) s)"

section \<open>Inodes\<close>

definition INODE_SIZE :: nat where "INODE_SIZE = 256"

definition inode_location :: "nat \<Rightarrow> EfsDriver \<Rightarrow> (nat \<times> nat) run" where
  "inode_location ino s =
     (if ino = 0 \<or> ed_inodes_per_group s = 0 then Panic
      else Ret ((ino - 1) div ed_inodes_per_group s, (ino - 1) mod ed_inodes_per_group s))"

definition inode_position :: "nat \<Rightarrow> (nat \<times> nat) efs" where
  "inode_position ino =
     ef_bind (\<lambda>s. ef_run (inode_location ino s) s) (\<lambda>(group, idx).
       ef_bind (ef_get ed_bgd_table) (\<lambda>bgds.
         if group \<ge> length bgds then ef_fail Corrupted
         else let inodes_per_block = BLOCK_SIZE div INODE_SIZE
           in ef_ret (unat (bgd_inode_table_block (bgds ! group)) + idx div inodes_per_block,
                      (idx mod inodes_per_block) * INODE_SIZE)))"

definition read_inode :: "page_io \<Rightarrow> nat \<Rightarrow> EfsInode efs" where
  "read_inode io ino =
     ef_bind (inode_position ino) (\<lambda>(block, offset_in_block).
       ef_bind (read_block io block) (\<lambda>block_data. ef_ret (inode_of (drop offset_in_block block_data))))"

definition write_inode :: "page_io \<Rightarrow> nat \<Rightarrow> EfsInode \<Rightarrow> unit efs" where
  "write_inode io ino inode =
     ef_bind (inode_position ino) (\<lambda>(block, offset_in_block).
       ef_bind (read_block io block) (\<lambda>block_data.
         write_block io block (splice_at offset_in_block (inode_bytes inode) block_data)))"

section \<open>What the operations do\<close>

lemma ef_simps [simp]:
  "ef_bind (ef_ret a) f = f a" "ef_bind (ef_fail e) f = ef_fail e"
  "ef_ret a s = Ret (Inr a, s)" "ef_fail e s = Ret (Inl e, s)" "ef_get g s = Ret (Inr (g s), s)"
  "ef_upd h s = Ret (Inr (), h s)"
  by (simp_all add: ef_ret_def ef_bind_def ef_fail_def ef_get_def ef_upd_def fun_eq_iff)

lemma ef_assert_simps [simp]: "ef_assert True = ef_ret ()" "ef_assert False s = Panic"
  by (simp_all add: ef_assert_def ef_ret_def fun_eq_iff)

lemma ef_run_simps [simp]: "ef_run (Ret a) = ef_ret a" "ef_run Panic s = Panic"
  by (simp_all add: ef_run_def ef_ret_def fun_eq_iff)

lemma ef_bind_Inr [simp]: "m s = Ret (Inr a, s') \<Longrightarrow> ef_bind m f s = f a s'"
  and ef_bind_Inl [simp]: "m s = Ret (Inl e, s') \<Longrightarrow> ef_bind m f s = Ret (Inl e, s')"
  by (simp_all add: ef_bind_def)

lemma ef_bind_eq_Inr:
  "ef_bind m f s = Ret (Inr b, s'') \<longleftrightarrow> (\<exists>a s'. m s = Ret (Inr a, s') \<and> f a s' = Ret (Inr b, s''))"
  by (auto simp: ef_bind_def split: run.splits sum.splits prod.splits)

text \<open>A cache that always answers, and what a block holds.\<close>

definition io_ok :: "page_io \<Rightarrow> bool" where
  "io_ok io \<longleftrightarrow> (\<forall>idx. pio_read io idx = None \<and> pio_write io idx = None) \<and>
     (\<forall>lba. dio_read io lba = None \<and> dio_write io lba = None)"

definition view :: "EfsDriver \<Rightarrow> nat \<Rightarrow> bytes" where
  "view s block = page_view s (block_page s block)"

definition pages_4k :: "EfsDriver \<Rightarrow> bool" where
  "pages_4k s \<longleftrightarrow> (\<forall>b. length (view s b) = 4096)"

definition touch :: "nat \<Rightarrow> EfsDriver \<Rightarrow> EfsDriver" where
  "touch idx s = s\<lparr>ed_cache := (ed_cache s)(idx \<mapsto> page_view s idx)\<rparr>"

definition put_page :: "nat \<Rightarrow> bytes \<Rightarrow> EfsDriver \<Rightarrow> EfsDriver" where
  "put_page idx data s = enroll_page idx (s\<lparr>ed_cache := (ed_cache s)(idx \<mapsto> data)\<rparr>)"

lemma block_page_alt: "block_page s b = ed_starting_lba s div 8 + b"
  by (simp add: block_page_def block_to_lba_def BLOCK_SIZE_def)

lemma block_page_inj [simp]: "block_page s a = block_page s b \<longleftrightarrow> a = b"
  by (simp add: block_page_alt)

lemma block_page_cong: "ed_starting_lba s' = ed_starting_lba s \<Longrightarrow> block_page s' b = block_page s b"
  by (simp add: block_page_alt)

lemma touch_fields [simp]:
  "ed_device_id (touch idx s) = ed_device_id s" "ed_starting_lba (touch idx s) = ed_starting_lba s"
  "ed_inodes_per_group (touch idx s) = ed_inodes_per_group s" "ed_superblock (touch idx s) = ed_superblock s"
  "ed_bgd_table (touch idx s) = ed_bgd_table s" "ed_disk (touch idx s) = ed_disk s" "ed_tx (touch idx s) = ed_tx s"
  "ed_orphan_prev (touch idx s) = ed_orphan_prev s"
  by (simp_all add: touch_def)

lemma block_page_touch [simp]: "block_page (touch idx s) b = block_page s b"
  by (rule block_page_cong) simp

lemma page_view_touch [simp]: "page_view (touch idx s) k = page_view s k"
  by (simp add: touch_def page_view_def split: option.split)

lemma view_touch [simp]: "view (touch idx s) b = view s b"
  by (simp add: view_def)

lemma put_page_fields [simp]:
  "ed_device_id (put_page idx d s) = ed_device_id s" "ed_starting_lba (put_page idx d s) = ed_starting_lba s"
  "ed_inodes_per_group (put_page idx d s) = ed_inodes_per_group s" "ed_superblock (put_page idx d s) = ed_superblock s"
  "ed_bgd_table (put_page idx d s) = ed_bgd_table s" "ed_disk (put_page idx d s) = ed_disk s"
  "ed_orphan_prev (put_page idx d s) = ed_orphan_prev s"
  by (simp_all add: put_page_def enroll_page_def)

lemma block_page_put [simp]: "block_page (put_page idx d s) b = block_page s b"
  by (rule block_page_cong) simp

lemma view_put_page [simp]:
  "ed_starting_lba s = ed_starting_lba t \<Longrightarrow>
     view (put_page (block_page t b) d s) c = (if c = b then d else view s c)"
  by (simp add: view_def block_page_cong [of t s])
    (simp add: put_page_def enroll_page_def page_view_def split: option.split)

lemma view_tx [simp]: "view (s\<lparr>ed_tx := t\<rparr>) b = view s b"
  by (simp add: view_def page_view_def block_page_alt split: option.split)

lemma read_page_ok [simp]: "io_ok io \<Longrightarrow> read_page io idx s = Ret (Inr (page_view s idx), touch idx s)"
  by (auto simp: read_page_def io_ok_def page_view_def touch_def map_upd_triv split: option.splits)

lemma read_block_ok [simp]: "io_ok io \<Longrightarrow> read_block io b s = Ret (Inr (view s b), touch (block_page s b) s)"
  by (simp add: read_block_def view_def)

lemma write_block_ok [simp]:
  "io_ok io \<Longrightarrow> length d = 4096 \<Longrightarrow> write_block io b d s = Ret (Inr (), put_page (block_page s b) d s)"
  by (simp add: write_block_def write_page_def io_ok_def ef_bind_def put_page_def splice_at_def Let_def)

lemma dom_cache [simp]:
  "dom (ed_cache (touch idx s)) = insert idx (dom (ed_cache s))" "dom (ed_cache (put_page idx d s)) = insert idx (dom (ed_cache s))"
  by (auto simp: touch_def put_page_def enroll_page_def)

text \<open>Two states that agree in everything but the cached pages and the transaction.\<close>

definition same_meta :: "EfsDriver \<Rightarrow> EfsDriver \<Rightarrow> bool" where
  "same_meta s s' \<longleftrightarrow> ed_device_id s' = ed_device_id s \<and> ed_starting_lba s' = ed_starting_lba s \<and>
     ed_inodes_per_group s' = ed_inodes_per_group s \<and> ed_superblock s' = ed_superblock s \<and>
     ed_bgd_table s' = ed_bgd_table s \<and> ed_disk s' = ed_disk s \<and> ed_orphan_prev s' = ed_orphan_prev s"

lemma same_meta_simps [simp]: "same_meta s s" "same_meta s (touch idx s)" "same_meta s (put_page idx d s)"
  by (simp_all add: same_meta_def)

lemma same_meta_trans [trans]: "same_meta a b \<Longrightarrow> same_meta b c \<Longrightarrow> same_meta a c"
  by (simp add: same_meta_def)

text \<open>Two states between which pages have only been read.\<close>

definition quiet :: "EfsDriver \<Rightarrow> EfsDriver \<Rightarrow> bool" where
  "quiet s s' \<longleftrightarrow> same_meta s s' \<and> (\<forall>b. view s' b = view s b) \<and> dom (ed_cache s) \<subseteq> dom (ed_cache s')"

lemma quiet_simps [simp]: "quiet s s" "quiet s (touch idx s)"
  by (auto simp: quiet_def)

lemma quiet_trans: "quiet a b \<Longrightarrow> quiet b c \<Longrightarrow> quiet a c"
  unfolding quiet_def using same_meta_trans by (metis order_trans)

section \<open>Reading back an inode\<close>

definition inode_home :: "EfsDriver \<Rightarrow> nat \<Rightarrow> nat \<times> nat" where
  "inode_home s ino = (let k = (ino - 1) mod ed_inodes_per_group s in
     (unat (bgd_inode_table_block (ed_bgd_table s ! ((ino - 1) div ed_inodes_per_group s))) + k div 16, k mod 16 * 256))"

definition ino_ok :: "EfsDriver \<Rightarrow> nat \<Rightarrow> bool" where
  "ino_ok s ino \<longleftrightarrow> 0 < ino \<and> 0 < ed_inodes_per_group s \<and>
     (ino - 1) div ed_inodes_per_group s < length (ed_bgd_table s)"

definition the_inode :: "EfsDriver \<Rightarrow> nat \<Rightarrow> EfsInode" where
  "the_inode s ino = (case inode_home s ino of (b, off) \<Rightarrow> inode_of (drop off (view s b)))"

lemma quiet_inodes:
  assumes "quiet s s'"
  shows "inode_home s' ino = inode_home s ino" "ino_ok s' ino \<longleftrightarrow> ino_ok s ino" "the_inode s' ino = the_inode s ino"
  using assms by (auto simp: quiet_def same_meta_def inode_home_def ino_ok_def the_inode_def Let_def)

lemma inode_position_ok:
  "ino_ok s ino \<Longrightarrow> inode_position ino s = Ret (Inr (inode_home s ino), s)"
  unfolding inode_position_def ino_ok_def inode_home_def
  by (simp add: inode_location_def Let_def BLOCK_SIZE_def INODE_SIZE_def)

lemma read_inode_ok:
  assumes "io_ok io" "ino_ok s ino"
  shows "read_inode io ino s = Ret (Inr (the_inode s ino), touch (block_page s (fst (inode_home s ino))) s)"
proof -
  obtain b off where h: "inode_home s ino = (b, off)" by fastforce
  then show ?thesis
    using assms(1) inode_position_ok [OF assms(2)] by (simp add: read_inode_def the_inode_def)
qed

text \<open>The inode tables lie apart and no table block is out of range: two inodes share a slot
  only when they are the same.\<close>

definition tables_ok :: "EfsDriver \<Rightarrow> bool" where
  "tables_ok s \<longleftrightarrow> (\<forall>g < length (ed_bgd_table s). \<forall>h < length (ed_bgd_table s). g \<noteq> h \<longrightarrow>
     (\<forall>i < ed_inodes_per_group s. \<forall>k < ed_inodes_per_group s.
        unat (bgd_inode_table_block (ed_bgd_table s ! g)) + i div 16 \<noteq>
        unat (bgd_inode_table_block (ed_bgd_table s ! h)) + k div 16))"

lemma inode_home_inj:
  assumes "tables_ok s" "ino_ok s i" "ino_ok s k" "inode_home s i = inode_home s k"
  shows "i = k"
proof -
  let ?n = "ed_inodes_per_group s"
  have n: "0 < ?n" "0 < i" "0 < k" using assms(2,3) by (simp_all add: ino_ok_def)
  have h: "(i - 1) div ?n = (k - 1) div ?n"
    using assms n unfolding tables_ok_def ino_ok_def inode_home_def Let_def by (metis fst_conv mod_less_divisor)
  then have "(i - 1) mod ?n div 16 = (k - 1) mod ?n div 16" "(i - 1) mod ?n mod 16 = (k - 1) mod ?n mod 16"
    using assms(4) by (simp_all add: inode_home_def Let_def)
  then have "(i - 1) mod ?n = (k - 1) mod ?n" by (metis div_mod_decomp)
  with h have "i - 1 = k - 1" by (metis div_mod_decomp)
  then show ?thesis using n by simp
qed

lemma inode_slot:
  assumes "inode_home s ino = (b, off)"
  shows "off + 256 \<le> 4096" "off mod 256 = 0"
  using assms by (auto simp: inode_home_def Let_def)

lemma inode_of_slot: "inode_of (drop off d) = inode_of (slice_at off 256 d)"
  by (simp add: inode_of_def codec_simps) (simp add: get_u16_def get_u32_def get_u64_def get_le_def slice_at_def drop_take add.commute)

text \<open>What \<open>write_inode\<close> leaves in the cache, and what this means for the inodes.\<close>

definition inode_written :: "nat \<Rightarrow> EfsInode \<Rightarrow> EfsDriver \<Rightarrow> EfsDriver \<Rightarrow> bool" where
  "inode_written ino inode s s' \<longleftrightarrow> same_meta s s' \<and> (\<forall>c. view s' c = (if c = fst (inode_home s ino)
     then splice_at (snd (inode_home s ino)) (inode_bytes inode) (view s c) else view s c)) \<and>
     dom (ed_cache s) \<subseteq> dom (ed_cache s')"

lemma the_inode_written:
  assumes "inode_written ino inode s s'" "inode_wf inode" "pages_4k s"
  shows "the_inode s' ino = inode"
proof -
  obtain b off where h: "inode_home s ino = (b, off)" by fastforce
  have home: "inode_home s' ino = (b, off)" using assms(1) h by (simp add: inode_written_def same_meta_def inode_home_def)
  have len: "length (inode_bytes inode) = 256" using assms(2) by (simp add: struct_sizes)
  have "slice_at off 256 (splice_at off (inode_bytes inode) (view s b)) = inode_bytes inode @ []"
    using inode_slot [OF h] assms(3) len by (simp add: slice_splice_same pages_4k_def)
  then show ?thesis using assms(1) h home inode_roundtrip_ok [OF assms(2), of "[]"]
    by (simp add: the_inode_def inode_written_def inode_of_slot)
qed

lemma the_inode_other:
  assumes "inode_written ino inode s s'" "inode_wf inode" "pages_4k s" "tables_ok s" "ino_ok s ino" "ino_ok s k" "k \<noteq> ino"
  shows "the_inode s' k = the_inode s k"
proof -
  obtain b off where h: "inode_home s ino = (b, off)" by fastforce
  obtain c off' where h': "inode_home s k = (c, off')" by fastforce
  have home: "inode_home s' k = (c, off')" using assms(1) h' by (simp add: inode_written_def same_meta_def inode_home_def)
  have len: "length (inode_bytes inode) = 256" using assms(2) by (simp add: struct_sizes)
  note slots = inode_slot [OF h] inode_slot [OF h']
  have "slice_at off' 256 (view s' c) = slice_at off' 256 (view s c)"
  proof (cases "c = b")
    case True
    then have "off \<noteq> off'" using inode_home_inj [OF assms(4,6,5)] h h' assms(7) by auto
    then have "off + 256 \<le> off' \<or> off' + 256 \<le> off" using slots by (auto elim!: dvdE simp: mod_eq_0_iff_dvd)
    then show ?thesis using assms(1,3) h slots len True
      by (auto simp: inode_written_def pages_4k_def slice_splice_before slice_splice_after)
  qed (use assms(1) h in \<open>simp add: inode_written_def\<close>)
  then show ?thesis by (simp add: the_inode_def h' home inode_of_slot)
qed

lemma write_inode_ok:
  assumes "io_ok io" "ino_ok s ino" "inode_wf inode" "pages_4k s"
  shows "\<exists>s'. write_inode io ino inode s = Ret (Inr (), s') \<and> inode_written ino inode s s'"
proof -
  obtain b off where h: "inode_home s ino = (b, off)" by fastforce
  have len: "length (splice_at off (inode_bytes inode) (view s b)) = 4096"
    using inode_slot [OF h] assms(3,4) by (simp add: struct_sizes pages_4k_def)
  let ?s = "put_page (block_page s b) (splice_at off (inode_bytes inode) (view s b)) (touch (block_page s b) s)"
  show ?thesis
    by (intro exI [of _ ?s]) (use h len assms(1) inode_position_ok [OF assms(2)] in
      \<open>auto simp: write_inode_def inode_written_def same_meta_def\<close>)
qed

text \<open>C28. Writing an inode and reading it back.  After \<open>write_inode\<close> the slot of the inode holds
  what was written, every other inode is as before, and \<open>read_inode\<close> returns them.\<close>

theorem inode_write_read:
  assumes "io_ok io" "tables_ok s" "ino_ok s ino" "ino_ok s k" "inode_wf inode" "pages_4k s"
  shows "\<exists>s' s''. write_inode io ino inode s = Ret (Inr (), s') \<and>
    read_inode io k s' = Ret (Inr (if k = ino then inode else the_inode s k), s'')"
proof -
  obtain s' where w: "write_inode io ino inode s = Ret (Inr (), s')" "inode_written ino inode s s'"
    using write_inode_ok [OF assms(1,3,5,6)] by blast
  have "ino_ok s' k" using w(2) assms(4) by (simp add: inode_written_def same_meta_def ino_ok_def)
  moreover have "the_inode s' k = (if k = ino then inode else the_inode s k)"
    using the_inode_written [OF w(2) assms(5,6)] the_inode_other [OF w(2) assms(5,6,2,3,4)] by simp
  ultimately show ?thesis using w(1) read_inode_ok [OF assms(1)] by simp
qed

text \<open>A small formatted filesystem: one group of 4096 blocks and 64 inodes, with the block bitmap
  in block 3, the inode bitmap in block 4 and the inode table in blocks 5 to 8, which the
  block bitmap marks as used.\<close>

definition example_group :: EfsBlockGroupDesc where
  "example_group = \<lparr>bgd_block_bitmap_block = 3, bgd_inode_bitmap_block = 4, bgd_inode_table_block = 5,
     bgd_free_blocks_count = 4080, bgd_free_inodes_count = 64, bgd_used_dirs_count = 0,
     bgd_checksum = 0, bgd_reserved = replicate 12 0\<rparr>"

definition example_driver :: EfsDriver where
  "example_driver = \<lparr>ed_device_id = 0, ed_starting_lba = 16, ed_inodes_per_group = 64,
     ed_superblock = example_superblock\<lparr>sb_blocks_per_group := 4096, sb_inodes_per_group := 64,
       sb_free_blocks := 4080, sb_free_inodes := 64\<rparr>,
     ed_bgd_table = [example_group], ed_orphan_prev = [], ed_cache = Map.empty,
     ed_disk = (\<lambda>idx. if idx = 5 then [0xFF, 0xFF] @ replicate 4094 0 else replicate 4096 0),
     ed_tx = begin_tx\<rparr>"

definition good_io :: page_io where
  "good_io = \<lparr>pio_read = \<lambda>_. None, pio_write = \<lambda>_. None, dio_read = \<lambda>_. None, dio_write = \<lambda>_. None\<rparr>"

lemma good_io_ok: "io_ok good_io"
  by (simp add: io_ok_def good_io_def)

lemma example_driver_pages: "pages_4k example_driver" "tables_ok example_driver"
  "0 < i \<Longrightarrow> i \<le> 64 \<Longrightarrow> ino_ok example_driver i"
  by (auto simp: pages_4k_def view_def page_view_def example_driver_def tables_ok_def ino_ok_def)

theorem inode_write_read_witness:
  "\<exists>s' s''. write_inode good_io 7 (inode_new S_IFREG (100, 5)) example_driver = Ret (Inr (), s') \<and>
     read_inode good_io 7 s' = Ret (Inr (if (7 :: nat) = 7 then inode_new S_IFREG (100, 5)
       else the_inode example_driver 7), s'')"
  by (rule inode_write_read [OF good_io_ok example_driver_pages(2)])
    (simp_all add: example_driver_pages inode_wf_def inode_new_def)

end
