(* ===== verification/Efs_Bitmap.thy ===== *)
theory Efs_Bitmap
  imports Edos_Prelude
begin

text \<open>
  The allocation bitmaps of EFS: the helpers at the end of \<open>kernel/src/fs/efs/mod.rs\<close>.  A
  bitmap is a byte string, bit \<open>i\<close> of it being bit \<open>i mod 8\<close> of byte \<open>i div 8\<close>; a clear bit
  means free.  An index past the end of the bitmap panics.  The loops are recursive
  functions that advance through the bits, so they terminate.
\<close>

section \<open>Bits\<close>

definition bit_mask :: "nat \<Rightarrow> byte" where "bit_mask i = push_bit (i mod 8) 1"

definition set_bit_at :: "bytes \<Rightarrow> nat \<Rightarrow> bytes run" where
  "set_bit_at bitmap i =
     (if i div 8 < length bitmap then Ret (bitmap[i div 8 := bitmap ! (i div 8) OR bit_mask i]) else Panic)"

definition clear_bit :: "bytes \<Rightarrow> nat \<Rightarrow> bytes run" where
  "clear_bit bitmap i =
     (if i div 8 < length bitmap then Ret (bitmap[i div 8 := bitmap ! (i div 8) AND NOT (bit_mask i)]) else Panic)"

definition bit_clear :: "bytes \<Rightarrow> nat \<Rightarrow> bool" where
  "bit_clear bitmap i \<longleftrightarrow> bitmap ! (i div 8) AND bit_mask i = 0"

section \<open>Searching\<close>

fun trailing_ones :: "nat \<Rightarrow> 'a::len word \<Rightarrow> nat" where
  "trailing_ones 0 w = 0"
| "trailing_ones (Suc n) w = (if bit w 0 then 1 + trailing_ones n (drop_bit 1 w) else 0)"

text \<open>\<open>find_free_bit\<close> scans eight bytes at a time, and the remaining bytes one by one.\<close>

fun find_in_bytes :: "bytes \<Rightarrow> nat \<Rightarrow> nat \<Rightarrow> nat option" where
  "find_in_bytes [] base max_bits = None"
| "find_in_bytes (b # bs) base max_bits =
     (if b = 0xFF then find_in_bytes bs (base + 1) max_bits
      else let abs_bit = base * 8 + trailing_ones 8 b in if abs_bit < max_bits then Some abs_bit else None)"

fun find_in_chunks :: "bytes \<Rightarrow> nat \<Rightarrow> nat \<Rightarrow> nat option" where
  "find_in_chunks (b0 # b1 # b2 # b3 # b4 # b5 # b6 # b7 # rest) chunk_idx max_bits =
     (let val = word_of_nat (of_le [b0, b1, b2, b3, b4, b5, b6, b7]) :: u64
      in if val = - 1 then find_in_chunks rest (chunk_idx + 1) max_bits
         else let abs_bit = chunk_idx * 64 + trailing_ones 64 val
              in if abs_bit < max_bits then Some abs_bit else None)"
| "find_in_chunks remainder chunk_idx max_bits = find_in_bytes remainder (chunk_idx * 8) max_bits"

definition find_free_bit :: "bytes \<Rightarrow> nat \<Rightarrow> nat option" where
  "find_free_bit bitmap max_bits = find_in_chunks bitmap 0 max_bits"

function run_end :: "bytes \<Rightarrow> nat \<Rightarrow> nat \<Rightarrow> nat \<Rightarrow> nat \<Rightarrow> nat run" where
  "run_end bitmap max_bits want start i =
     (if i < max_bits \<and> i - start < want
      then if i div 8 \<ge> length bitmap then Panic
        else if bit_clear bitmap i then run_end bitmap max_bits want start (i + 1) else Ret i
      else Ret i)"
  by pat_completeness auto
termination by (relation "measure (\<lambda>(_, m, _, _, i). m - i)") auto

declare run_end.simps [simp del]

definition free_run_at :: "bytes \<Rightarrow> nat \<Rightarrow> nat \<Rightarrow> nat \<Rightarrow> nat run" where
  "free_run_at bitmap max_bits want start =
     run_bind (run_end bitmap max_bits want start start) (\<lambda>i. Ret (i - start))"

lemma run_end_ge: "run_end bitmap max_bits want start i = Ret j \<Longrightarrow> i \<le> j"
  by (induction bitmap max_bits want start i rule: run_end.induct)
    (subst (asm) (2) run_end.simps, auto split: if_splits)

definition better_run :: "(nat \<times> nat) option \<Rightarrow> nat \<Rightarrow> nat \<Rightarrow> (nat \<times> nat) option" where
  "better_run best start len =
     (case best of None \<Rightarrow> Some (start, len)
      | Some (s, best_len) \<Rightarrow> if len > best_len then Some (start, len) else best)"

function free_run_loop :: "bytes \<Rightarrow> nat \<Rightarrow> nat \<Rightarrow> nat \<Rightarrow> (nat \<times> nat) option \<Rightarrow> (nat \<times> nat) option run" where
  "free_run_loop bitmap max_bits want i best =
     (if i < max_bits
      then if i div 8 \<ge> length bitmap then Panic
        else if i mod 8 = 0 \<and> bitmap ! (i div 8) = 0xFF then free_run_loop bitmap max_bits want (i + 8) best
        else if \<not> bit_clear bitmap i then free_run_loop bitmap max_bits want (i + 1) best
        else (case run_end bitmap max_bits want i i of
            Panic \<Rightarrow> Panic
          | Ret j \<Rightarrow> if j - i \<ge> want then Ret (Some (i, j - i))
                      else free_run_loop bitmap max_bits want (j + 1) (better_run best i (j - i)))
      else Ret best)"
  by pat_completeness auto
termination
  by (relation "measure (\<lambda>(_, m, _, i, _). m - i)") (auto dest: run_end_ge)

declare free_run_loop.simps [simp del]

definition find_free_run :: "bytes \<Rightarrow> nat \<Rightarrow> nat \<Rightarrow> (nat \<times> nat) option run" where
  "find_free_run bitmap max_bits want = free_run_loop bitmap max_bits want 0 None"

section \<open>Setting and clearing\<close>

lemma bit_clear_iff: "bit_clear bitmap i \<longleftrightarrow> \<not> bit (bitmap ! (i div 8)) (i mod 8)"
  by (simp add: bit_clear_def bit_mask_def and_exp_eq_0_iff_not_bit)

lemma div_mod_eq_iff: "(i :: nat) = k \<longleftrightarrow> i div 8 = k div 8 \<and> i mod 8 = k mod 8"
  by (metis div_mod_decomp)

lemma bit_clear_upd:
  assumes "i div 8 < length bitmap"
  shows "bit_clear (bitmap[i div 8 := bitmap ! (i div 8) OR bit_mask i]) k \<longleftrightarrow> bit_clear bitmap k \<and> k \<noteq> i"
    "bit_clear (bitmap[i div 8 := bitmap ! (i div 8) AND NOT (bit_mask i)]) k \<longleftrightarrow> bit_clear bitmap k \<or> k = i"
  using assms div_mod_eq_iff [of k i]
  by (auto simp: bit_clear_iff bit_mask_def nth_list_update bit_simps)

lemma set_bit_at_ok:
  assumes "i < 8 * length bitmap"
  obtains b where "set_bit_at bitmap i = Ret b" "length b = length bitmap"
    "\<And>k. bit_clear b k \<longleftrightarrow> bit_clear bitmap k \<and> k \<noteq> i"
  using assms bit_clear_upd(1) [of i bitmap] by (force simp: set_bit_at_def less_mult_imp_div_less mult.commute)

lemma clear_bit_ok:
  assumes "i < 8 * length bitmap"
  obtains b where "clear_bit bitmap i = Ret b" "length b = length bitmap"
    "\<And>k. bit_clear b k \<longleftrightarrow> bit_clear bitmap k \<or> k = i"
  using assms bit_clear_upd(2) [of i bitmap] by (force simp: clear_bit_def less_mult_imp_div_less mult.commute)

section \<open>The first free bit\<close>

definition bits_of :: "bytes \<Rightarrow> bool list" where
  "bits_of bs = concat (map (\<lambda>b. map (bit b) [0..<8]) bs)"

lemma bits_of_simps [simp]: "bits_of [] = []" "bits_of (b # bs) = map (bit b) [0..<8] @ bits_of bs"
  by (simp_all add: bits_of_def)

lemma length_bits_of [simp]: "length (bits_of bs) = 8 * length bs"
  by (induction bs) simp_all

lemma bits_of_nth: "i < 8 * length bs \<Longrightarrow> bits_of bs ! i \<longleftrightarrow> \<not> bit_clear bs i"
proof (induction bs arbitrary: i)
  case (Cons b bs)
  show ?case
  proof (cases "i < 8")
    case False
    then have "i div 8 = Suc ((i - 8) div 8)" "i mod 8 = (i - 8) mod 8" by (simp_all add: le_div_geq le_mod_geq)
    with False Cons show ?thesis by (simp add: nth_append bit_clear_iff)
  qed (simp add: nth_append bit_clear_iff)
qed simp

definition first_clear :: "bool list \<Rightarrow> nat" where "first_clear bs = length (takeWhile id bs)"

lemma trailing_ones_first_clear: "trailing_ones n w = first_clear (map (bit w) [0..<n])"
proof (induction n arbitrary: w)
  case (Suc n)
  have "map (bit w) [1..<Suc n] = map (bit (drop_bit 1 w)) [0..<n]"
    by (simp add: list_eq_iff_nth_eq bit_simps del: upt_Suc)
  then show ?case using Suc
    by (simp add: first_clear_def upt_conv_Cons [of 0 "Suc n"] del: upt_Suc)
qed (simp add: first_clear_def)

lemma word_all_ones: "w = - 1 \<longleftrightarrow> list_all id (map (bit (w :: 'a::len word)) [0..<LENGTH('a)])"
  by (auto simp: list_all_iff bit_eq_iff)

lemma all_ones:
  "b = (0xFF :: byte) \<longleftrightarrow> list_all id (map (bit b) [0..<8])"
  "w = (- 1 :: u64) \<longleftrightarrow> list_all id (map (bit w) [0..<64])"
proof -
  have ff: "(0xFF :: byte) = - 1" by simp
  show "b = (0xFF :: byte) \<longleftrightarrow> list_all id (map (bit b) [0..<8])" unfolding ff using word_all_ones [of b] by simp
  show "w = (- 1 :: u64) \<longleftrightarrow> list_all id (map (bit w) [0..<64])" using word_all_ones [of w] by simp
qed

lemma bit_of_le: "bit (of_le bs) i \<longleftrightarrow> i < 8 * length bs \<and> bits_of bs ! i"
proof (induction bs arbitrary: i)
  case (Cons b bs)
  have b: "bit b n \<Longrightarrow> n < 8" for n using bit_imp_le_length [of b n] by simp
  then have "unat b AND push_bit 8 (of_le bs) = 0"
    by (intro bit_eqI) (fastforce simp: bit_simps dest: b)
  then have "unat b + push_bit 8 (of_le bs) = unat b OR push_bit 8 (of_le bs)" by (rule disjunctive_add_eq_or)
  moreover have "of_le (b # bs) = unat b + push_bit 8 (of_le bs)" by (simp add: push_bit_eq_mult)
  ultimately have "bit (of_le (b # bs)) i \<longleftrightarrow> bit b i \<or> 8 \<le> i \<and> bit (of_le bs) (i - 8)"
    by (simp only: bit_or_iff bit_push_bit_iff bit_unsigned_iff) (auto simp: bit_simps)
  then show ?case using Cons.IH [of "i - 8"] b [of i] by (auto simp: nth_append)
qed simp

lemma bits_of_chunk:
  assumes "length bs = 8"
  shows "map (bit (word_of_nat (of_le bs) :: u64)) [0..<64] = bits_of bs"
  using assms by (auto simp: list_eq_iff_nth_eq bit_simps bit_of_le)

lemma first_clear_append:
  "first_clear (xs @ ys) = (if list_all id xs then length xs + first_clear ys else first_clear xs)"
  by (induction xs) (auto simp: first_clear_def)

lemma first_clear_less: "\<not> list_all id xs \<Longrightarrow> first_clear xs < length xs"
  by (induction xs) (auto simp: first_clear_def)

lemma first_clear_iff: "i < length xs \<Longrightarrow> first_clear xs = i \<longleftrightarrow> \<not> xs ! i \<and> (\<forall>k < i. xs ! k)"
proof (induction xs arbitrary: i)
  case (Cons x xs)
  then show ?case by (cases i) (auto simp: first_clear_def All_less_Suc2)
qed simp

lemma find_in_bytes_first:
  "find_in_bytes bs base max_bits =
     (let t = first_clear (bits_of bs)
      in if t < 8 * length bs \<and> base * 8 + t < max_bits then Some (base * 8 + t) else None)"
proof (induction bs base max_bits rule: find_in_bytes.induct)
  case (2 b bs base max_bits)
  have "b = 0xFF \<longleftrightarrow> list_all id (map (bit b) [0..<8])" by (simp only: all_ones)
  moreover have "\<not> list_all id (map (bit b) [0..<8]) \<Longrightarrow> first_clear (map (bit b) [0..<8]) < 8"
    using first_clear_less by fastforce
  ultimately show ?case
    using 2 by (auto simp: first_clear_append trailing_ones_first_clear Let_def algebra_simps simp del: upt_Suc)
qed (simp add: first_clear_def)

lemma find_in_chunks_first:
  "find_in_chunks bs k max_bits =
     (let t = first_clear (bits_of bs)
      in if t < 8 * length bs \<and> k * 64 + t < max_bits then Some (k * 64 + t) else None)"
proof (induction bs k max_bits rule: find_in_chunks.induct)
  case (1 b0 b1 b2 b3 b4 b5 b6 b7 rest k max_bits)
  obtain c where c: "c = [b0, b1, b2, b3, b4, b5, b6, b7]" and len: "length c = 8" by simp
  let ?v = "word_of_nat (of_le c) :: u64" and ?bs = "b0 # b1 # b2 # b3 # b4 # b5 # b6 # b7 # rest"
  have all: "?v = - 1 \<longleftrightarrow> list_all id (bits_of c)"
    by (simp only: all_ones bits_of_chunk [OF len])
  have t: "trailing_ones 64 ?v = first_clear (bits_of c)"
    by (simp only: trailing_ones_first_clear bits_of_chunk [OF len])
  have split: "first_clear (bits_of ?bs) =
      (if ?v = - 1 then 64 + first_clear (bits_of rest) else first_clear (bits_of c))"
    unfolding all using first_clear_append [of "bits_of c" "bits_of rest"] by (simp add: c len)
  have less: "?v \<noteq> - 1 \<Longrightarrow> first_clear (bits_of c) < 64"
    unfolding all using first_clear_less [of "bits_of c"] len by simp
  have step: "find_in_chunks ?bs k max_bits = (if ?v = - 1 then find_in_chunks rest (k + 1) max_bits
      else if k * 64 + first_clear (bits_of c) < max_bits then Some (k * 64 + first_clear (bits_of c)) else None)"
    by (simp only: find_in_chunks.simps(1) Let_def t flip: c)
  show ?case
  proof (cases "?v = - 1")
    case True
    from 1 [OF refl True [unfolded c]] show ?thesis
      unfolding step split if_P [OF True] by (simp add: algebra_simps Let_def)
  next
    case False
    show ?thesis using less [OF False] unfolding step split if_not_P [OF False] by simp
  qed
qed (simp_all add: find_in_bytes_first Let_def mult.assoc del: bits_of_simps find_in_bytes.simps)

text \<open>C33. The word-wise search for a free bit is the bit-wise one: the result is the first clear
  bit of the bitmap when that is below the bound, and nothing otherwise.\<close>

theorem find_free_bit_first:
  "find_free_bit bitmap max_bits = Some i \<longleftrightarrow>
     i < max_bits \<and> i < 8 * length bitmap \<and> bit_clear bitmap i \<and> (\<forall>k < i. \<not> bit_clear bitmap k)"
proof -
  let ?t = "first_clear (bits_of bitmap)"
  have "?t = i \<longleftrightarrow> bit_clear bitmap i \<and> (\<forall>k < i. \<not> bit_clear bitmap k)" if "i < 8 * length bitmap"
  proof -
    have "?t = i \<longleftrightarrow> \<not> bits_of bitmap ! i \<and> (\<forall>k < i. bits_of bitmap ! k)"
      using that by (simp add: first_clear_iff)
    then show ?thesis using that by (simp add: bits_of_nth)
  qed
  then show ?thesis by (auto simp: find_free_bit_def find_in_chunks_first Let_def split: if_splits)
qed

theorem find_free_bit_first_witness:
  "find_free_bit [0xFF, 0x0B] 16 = Some 10 \<longleftrightarrow>
     (10 :: nat) < 16 \<and> (10 :: nat) < 8 * length [0xFF, 0x0B :: byte] \<and> bit_clear [0xFF, 0x0B] 10 \<and>
     (\<forall>k < 10. \<not> bit_clear [0xFF, 0x0B] k)"
  by (rule find_free_bit_first)

section \<open>Free runs\<close>

definition free_run :: "bytes \<Rightarrow> nat \<Rightarrow> nat \<Rightarrow> nat \<Rightarrow> bool" where
  "free_run bitmap max_bits s n \<longleftrightarrow> s + n \<le> max_bits \<and> (\<forall>k. s \<le> k \<and> k < s + n \<longrightarrow> bit_clear bitmap k)"

lemma byte_in_range: "i < n \<Longrightarrow> n \<le> 8 * length bitmap \<Longrightarrow> \<not> length bitmap \<le> i div 8"
  using less_mult_imp_div_less [of i "length bitmap" 8] by simp

lemma run_end_spec:
  assumes "max_bits \<le> 8 * length bitmap" "start \<le> i" "i \<le> max_bits" "i - start \<le> want"
  shows "\<exists>j. run_end bitmap max_bits want start i = Ret j \<and> i \<le> j \<and> j \<le> max_bits \<and> j - start \<le> want \<and>
    (\<forall>k. i \<le> k \<and> k < j \<longrightarrow> bit_clear bitmap k) \<and>
    (j = max_bits \<or> j - start = want \<or> \<not> bit_clear bitmap j)"
  using assms
proof (induction bitmap max_bits want start i rule: run_end.induct)
  case (1 bitmap max_bits want start i)
  show ?case
  proof (cases "i < max_bits \<and> i - start < want \<and> bit_clear bitmap i")
    case True
    then have b: "\<not> i div 8 \<ge> length bitmap" using 1 byte_in_range by blast
    then obtain j where j: "run_end bitmap max_bits want start (i + 1) = Ret j" "i + 1 \<le> j" "j \<le> max_bits"
      "j - start \<le> want" "\<forall>k. i + 1 \<le> k \<and> k < j \<longrightarrow> bit_clear bitmap k"
      "j = max_bits \<or> j - start = want \<or> \<not> bit_clear bitmap j"
      using True 1 by (auto simp: Suc_diff_le)
    have "\<forall>k. i \<le> k \<and> k < j \<longrightarrow> bit_clear bitmap k"
      using j(5) True by (metis Suc_eq_plus1 le_neq_implies_less Suc_leI)
    then show ?thesis using j True b by (subst run_end.simps) auto
  next
    case False
    moreover have "i < max_bits \<Longrightarrow> \<not> i div 8 \<ge> length bitmap"
      using 1 byte_in_range by blast
    ultimately show ?thesis using 1 by (subst run_end.simps) auto
  qed
qed

text \<open>What the search knows when it stands at bit \<open>i\<close>: no run before \<open>i\<close> is longer than the best one,
  and none reaches across \<open>i\<close>.\<close>

definition best_len :: "(nat \<times> nat) option \<Rightarrow> nat" where
  "best_len best = (case best of None \<Rightarrow> 0 | Some (s, n) \<Rightarrow> n)"

definition searched :: "bytes \<Rightarrow> nat \<Rightarrow> nat \<Rightarrow> nat \<Rightarrow> (nat \<times> nat) option \<Rightarrow> bool" where
  "searched bitmap max_bits want i best \<longleftrightarrow>
     (\<forall>s n. free_run bitmap (min i max_bits) s n \<longrightarrow> n \<le> best_len best) \<and>
     (i = 0 \<or> max_bits \<le> i \<or> \<not> bit_clear bitmap (i - 1)) \<and>
     (case best of None \<Rightarrow> True | Some (s, n) \<Rightarrow> 0 < n \<and> n < want \<and> free_run bitmap max_bits s n)"

lemma free_run_mono: "free_run bitmap a s n \<Longrightarrow> a \<le> b \<Longrightarrow> free_run bitmap b s n"
  by (auto simp: free_run_def)

lemma searched_skip:
  assumes "searched bitmap max_bits want i best" "i < i'" "\<forall>k. i \<le> k \<and> k < i' \<longrightarrow> \<not> bit_clear bitmap k"
  shows "searched bitmap max_bits want i' best"
proof -
  have "n \<le> best_len best" if r: "free_run bitmap (min i' max_bits) s n" for s n
  proof (cases "n = 0 \<or> s + n \<le> i")
    case True
    then have "n = 0 \<or> free_run bitmap (min i max_bits) s n" using r by (auto simp: free_run_def)
    then show ?thesis using assms(1) by (auto simp: searched_def)
  next
    case False
    then have "bit_clear bitmap (max s i)" using r by (auto simp: free_run_def)
    moreover have "max s i < i'" using False r assms(2) by (auto simp: free_run_def)
    ultimately show ?thesis using assms(3) by auto
  qed
  then show ?thesis using assms by (auto simp: searched_def)
qed

lemma searched_across:
  assumes "searched bitmap max_bits want i best" "i < max_bits" "free_run bitmap max_bits s n" "s < i"
  shows "n \<le> best_len best"
proof -
  have "\<not> bit_clear bitmap (i - 1)" using assms by (auto simp: searched_def)
  moreover have "bit_clear bitmap (i - 1)" if "0 < n" "i - 1 < s + n"
    using assms(3,4) that by (auto simp: free_run_def)
  ultimately have "n = 0 \<or> s + n \<le> i - 1" by linarith
  then have "free_run bitmap (min i max_bits) s n" using assms(2-4) by (auto simp: free_run_def)
  then show ?thesis using assms(1) by (auto simp: searched_def)
qed

lemma better_run_len: "best_len (better_run best i n) = max (best_len best) n"
  by (auto simp: better_run_def best_len_def split: option.splits)

lemma searched_run:
  assumes "searched bitmap max_bits want i best" "i < j" "j \<le> max_bits" "j - i < want"
    "\<forall>k. i \<le> k \<and> k < j \<longrightarrow> bit_clear bitmap k" "j = max_bits \<or> \<not> bit_clear bitmap j"
  shows "searched bitmap max_bits want (j + 1) (better_run best i (j - i))"
proof -
  have "n \<le> max (best_len best) (j - i)" if r: "free_run bitmap (min (j + 1) max_bits) s n" for s n
  proof (cases "s < i")
    case True
    have "free_run bitmap max_bits s n" by (rule free_run_mono [OF r]) simp
    then show ?thesis using searched_across [OF assms(1) _ _ True] assms(2,3) by (simp add: le_max_iff_disj)
  next
    case False
    have "n = 0 \<or> s + n \<le> j"
    proof (rule ccontr)
      assume "\<not> (n = 0 \<or> s + n \<le> j)"
      then have "bit_clear bitmap j" "j < max_bits" using r by (auto simp: free_run_def)
      then show False using assms(6) by auto
    qed
    then show ?thesis using False by auto
  qed
  moreover have "free_run bitmap max_bits i (j - i)" using assms(2,3,5) by (auto simp: free_run_def)
  ultimately show ?thesis
    using assms by (auto simp: searched_def better_run_len) (auto simp: better_run_def split: option.splits)
qed

lemma searched_best_len: "searched bitmap max_bits want i best \<Longrightarrow> 0 < want \<Longrightarrow> best_len best < want"
  by (auto simp: searched_def best_len_def split: option.splits)

definition run_found :: "bytes \<Rightarrow> nat \<Rightarrow> nat \<Rightarrow> (nat \<times> nat) option \<Rightarrow> bool" where
  "run_found bitmap max_bits want r \<longleftrightarrow> (case r of
       None \<Rightarrow> \<forall>k < max_bits. \<not> bit_clear bitmap k
     | Some (s, n) \<Rightarrow> 0 < n \<and> free_run bitmap max_bits s n \<and>
         (n = want \<and> (\<forall>s' < s. \<not> free_run bitmap max_bits s' want) \<or>
          n < want \<and> (\<forall>s' n'. free_run bitmap max_bits s' n' \<longrightarrow> n' \<le> n)))"

lemma searched_all:
  assumes "searched bitmap max_bits want i best" "max_bits \<le> i"
  shows "run_found bitmap max_bits want best"
proof (cases best)
  case None
  have "\<not> bit_clear bitmap k" if "k < max_bits" for k
  proof
    assume "bit_clear bitmap k"
    then have "free_run bitmap (min i max_bits) k 1" using that assms(2) by (auto simp: free_run_def le_less_Suc_eq)
    then show False using assms(1) None by (force simp: searched_def best_len_def)
  qed
  then show ?thesis using None by (simp add: run_found_def)
next
  case (Some p)
  then show ?thesis using assms by (cases p) (auto simp: run_found_def searched_def best_len_def min_absorb2)
qed

lemma free_run_loop_spec:
  assumes "max_bits \<le> 8 * length bitmap" "0 < want" "searched bitmap max_bits want i best"
  shows "\<exists>r. free_run_loop bitmap max_bits want i best = Ret r \<and> run_found bitmap max_bits want r"
  using assms
proof (induction bitmap max_bits want i best rule: free_run_loop.induct)
  case (1 bitmap max_bits want i best)
  note prems = 1(4-6)
  consider (past) "max_bits \<le> i" | (byte) "i < max_bits" "i mod 8 = 0 \<and> bitmap ! (i div 8) = 0xFF"
    | (used) "i < max_bits" "\<not> (i mod 8 = 0 \<and> bitmap ! (i div 8) = 0xFF)" "\<not> bit_clear bitmap i"
    | (free) "i < max_bits" "\<not> (i mod 8 = 0 \<and> bitmap ! (i div 8) = 0xFF)" "bit_clear bitmap i" by force
  then show ?case
  proof cases
    case past
    then show ?thesis using searched_all prems by (subst free_run_loop.simps) auto
  next
    case byte
    have "\<not> bit_clear bitmap k" if "i \<le> k" "k < i + 8" for k
    proof -
      obtain q where "i = 8 * q" using byte(2) by (auto simp: mod_eq_0_iff_dvd elim: dvdE)
      then have "k div 8 = i div 8" using that by (simp add: div_nat_eqI)
      then show ?thesis using byte(2) all_ones(1) [of "bitmap ! (i div 8)"] by (simp add: bit_clear_iff list_all_iff)
    qed
    then have "searched bitmap max_bits want (i + 8) best" using prems searched_skip by simp
    then show ?thesis
      using 1(1) byte prems byte_in_range [OF byte(1) prems(1)] by (subst free_run_loop.simps) simp
  next
    case used
    have "searched bitmap max_bits want (i + 1) best"
      by (rule searched_skip [OF prems(3)]) (use used in \<open>auto simp: le_less_Suc_eq\<close>)
    then show ?thesis
      using 1(2) used prems byte_in_range [OF used(1) prems(1)] by (subst free_run_loop.simps) auto
  next
    case free
    obtain j where j: "run_end bitmap max_bits want i i = Ret j" "i \<le> j" "j \<le> max_bits" "j - i \<le> want"
      "\<forall>k. i \<le> k \<and> k < j \<longrightarrow> bit_clear bitmap k" "j = max_bits \<or> j - i = want \<or> \<not> bit_clear bitmap j"
      using run_end_spec [OF prems(1) order_refl, of i want] free(1) by auto
    have "i \<noteq> j" using j(6) free prems(2) by auto
    show ?thesis
    proof (cases "j - i \<ge> want")
      case True
      then have n: "j - i = want" "j = i + want" using j(2,4) by simp_all
      have "\<not> free_run bitmap max_bits s want" if "s < i" for s
        using searched_across [OF prems(3) free(1) _ that, of want] searched_best_len [OF prems(3,2)] by linarith
      moreover have "free_run bitmap max_bits i want" using j(3,5) n(2) by (simp add: free_run_def)
      ultimately have "run_found bitmap max_bits want (Some (i, j - i))"
        using prems(2) by (simp add: run_found_def n(1))
      then show ?thesis
        using True free j(1) byte_in_range [OF free(1) prems(1)] by (subst free_run_loop.simps) auto
    next
      case False
      have "searched bitmap max_bits want (j + 1) (better_run best i (j - i))"
        by (rule searched_run [OF prems(3)]) (use j False \<open>i \<noteq> j\<close> in auto)
      then show ?thesis
        using 1(3) False free prems j(1) byte_in_range [OF free(1) prems(1)] by (subst free_run_loop.simps) auto
    qed
  qed
qed

lemma find_free_run_ok:
  assumes "max_bits \<le> 8 * length bitmap" "0 < want"
  shows "\<exists>r. find_free_run bitmap max_bits want = Ret r \<and> run_found bitmap max_bits want r"
  unfolding find_free_run_def
  by (rule free_run_loop_spec [OF assms]) (auto simp: searched_def free_run_def)

text \<open>C32. The search for a free run.  With a bound that lies within the bitmap the search always
  ends with an answer.  A run it reports consists of free bits below the bound; it is the
  first one of the length that was asked for, or, when there is none of that length, a
  longest one.  It reports nothing only when no bit below the bound is free.\<close>

theorem find_free_run_correct:
  assumes "max_bits \<le> 8 * length bitmap" "0 < want"
  shows "\<exists>r. find_free_run bitmap max_bits want = Ret r \<and> run_found bitmap max_bits want r"
  using assms by (rule find_free_run_ok)

theorem find_free_run_correct_witness:
  "\<exists>r. find_free_run [0xFF, 0x19] 16 3 = Ret r \<and> run_found [0xFF, 0x19] 16 3 r"
  by (rule find_free_run_correct) simp_all

lemma free_run_at_correct:
  assumes "max_bits \<le> 8 * length bitmap" "start \<le> max_bits"
  shows "\<exists>n. free_run_at bitmap max_bits want start = Ret n \<and> n \<le> want \<and> free_run bitmap max_bits start n \<and>
    (0 < want \<and> start < max_bits \<and> bit_clear bitmap start \<longrightarrow> 0 < n)"
  using run_end_spec [OF assms(1) order_refl assms(2), of want]
  by (fastforce simp: free_run_at_def free_run_def)

end
