(* ===== verification/Efs_Alloc.thy ===== *)
theory Efs_Alloc
  imports Efs_Driver Efs_Bitmap
begin

text \<open>
  Allocation of blocks and inodes in the EFS driver (\<open>kernel/src/fs/efs/mod.rs\<close>): runs of
  blocks near a goal, single blocks, inodes, and giving them back.  The driver keeps free
  counts per group and for the filesystem in memory, the bitmaps in blocks of the cache.
  The counters are 64-bit words; decrementing below zero and incrementing past the end panic.
\<close>

section \<open>Counters and enrolment\<close>

definition set_bgd :: "nat \<Rightarrow> EfsBlockGroupDesc \<Rightarrow> EfsDriver \<Rightarrow> EfsDriver" where
  "set_bgd g d s = s\<lparr>ed_bgd_table := (ed_bgd_table s)[g := d]\<rparr>"

definition take_blocks :: "nat \<Rightarrow> nat \<Rightarrow> unit efs" where
  "take_blocks g n s =
     (let d = ed_bgd_table s ! g; sb = ed_superblock s
      in if g \<ge> length (ed_bgd_table s) \<or> unat (bgd_free_blocks_count d) < n \<or> unat (sb_free_blocks sb) < n then Panic
         else Ret (Inr (), set_bgd g (d\<lparr>bgd_free_blocks_count := bgd_free_blocks_count d - of_nat n\<rparr>)
                (s\<lparr>ed_superblock := sb\<lparr>sb_free_blocks := sb_free_blocks sb - of_nat n\<rparr>\<rparr>)))"

definition give_block :: "nat \<Rightarrow> unit efs" where
  "give_block g s =
     (let d = ed_bgd_table s ! g; sb = ed_superblock s
      in if g \<ge> length (ed_bgd_table s) \<or> bgd_free_blocks_count d = - 1 \<or> sb_free_blocks sb = - 1 then Panic
         else Ret (Inr (), set_bgd g (d\<lparr>bgd_free_blocks_count := bgd_free_blocks_count d + 1\<rparr>)
                (s\<lparr>ed_superblock := sb\<lparr>sb_free_blocks := sb_free_blocks sb + 1\<rparr>\<rparr>)))"

definition take_inode :: "nat \<Rightarrow> unit efs" where
  "take_inode g s =
     (let d = ed_bgd_table s ! g; sb = ed_superblock s
      in if g \<ge> length (ed_bgd_table s) \<or> bgd_free_inodes_count d = 0 \<or> sb_free_inodes sb = 0 then Panic
         else Ret (Inr (), set_bgd g (d\<lparr>bgd_free_inodes_count := bgd_free_inodes_count d - 1\<rparr>)
                (s\<lparr>ed_superblock := sb\<lparr>sb_free_inodes := sb_free_inodes sb - 1\<rparr>\<rparr>)))"

definition give_inode :: "nat \<Rightarrow> unit efs" where
  "give_inode g s =
     (let d = ed_bgd_table s ! g; sb = ed_superblock s
      in if g \<ge> length (ed_bgd_table s) \<or> bgd_free_inodes_count d = - 1 \<or> sb_free_inodes sb = - 1 then Panic
         else Ret (Inr (), set_bgd g (d\<lparr>bgd_free_inodes_count := bgd_free_inodes_count d + 1\<rparr>)
                (s\<lparr>ed_superblock := sb\<lparr>sb_free_inodes := sb_free_inodes sb + 1\<rparr>\<rparr>)))"

text \<open>A page that cannot be read is not enrolled and the operation goes on.\<close>

definition enroll_if_readable :: "page_io \<Rightarrow> nat \<Rightarrow> unit efs" where
  "enroll_if_readable io idx s = (case read_page io idx s of
       Panic \<Rightarrow> Panic | Ret (Inl _, s') \<Rightarrow> Ret (Inr (), s') | Ret (Inr _, s') \<Rightarrow> Ret (Inr (), enroll_page idx s'))"

definition BGD_SIZE :: nat where "BGD_SIZE = 64"

definition enroll_counters :: "page_io \<Rightarrow> nat \<Rightarrow> unit efs" where
  "enroll_counters io g =
     ef_bind (ef_get (\<lambda>s. block_page s (2 + g div (BLOCK_SIZE div BGD_SIZE)))) (\<lambda>bgd_page_idx.
     ef_bind (enroll_if_readable io bgd_page_idx) (\<lambda>_.
     ef_bind (ef_get (\<lambda>s. block_page s 1)) (\<lambda>sb_page_idx. enroll_if_readable io sb_page_idx)))"

section \<open>Blocks\<close>

fun set_bits :: "bytes \<Rightarrow> nat list \<Rightarrow> bytes run" where
  "set_bits bitmap [] = Ret bitmap"
| "set_bits bitmap (b # bs) = run_bind (set_bit_at bitmap b) (\<lambda>bitmap'. set_bits bitmap' bs)"

definition blocks_per_group :: "EfsDriver \<Rightarrow> nat" where
  "blocks_per_group s = unat (sb_blocks_per_group (ed_superblock s))"

definition claim_run :: "page_io \<Rightarrow> nat \<Rightarrow> nat \<Rightarrow> bytes \<Rightarrow> nat \<Rightarrow> nat \<Rightarrow> nat list efs" where
  "claim_run io g bitmap_block bitmap b len =
     ef_bind (ef_run (set_bits bitmap [b..<b + len])) (\<lambda>bitmap'.
     ef_bind (ef_get blocks_per_group) (\<lambda>bpg.
     ef_bind (take_blocks g len) (\<lambda>_.
     ef_bind (write_block io bitmap_block bitmap') (\<lambda>_.
     ef_bind (enroll_counters io g) (\<lambda>_.
     ef_ret (map (\<lambda>i. g * bpg + b + i) [0..<len]))))))"

definition group_state :: "nat \<Rightarrow> (nat \<times> nat) efs" where
  "group_state g s =
     (if g \<ge> length (ed_bgd_table s) then Panic
      else let d = ed_bgd_table s ! g
        in Ret (Inr (unat (bgd_free_blocks_count d), unat (bgd_block_bitmap_block d)), s))"

text \<open>The attempt at the goal: \<open>None\<close> sends the caller on to the first-fit search.\<close>

definition alloc_at_goal :: "page_io \<Rightarrow> nat \<Rightarrow> nat \<Rightarrow> nat \<Rightarrow> nat \<Rightarrow> nat list option efs" where
  "alloc_at_goal io want bits_to_check g b =
     ef_bind (group_state g) (\<lambda>(free_count, bitmap_block).
       if free_count > 0 \<and> b < bits_to_check
       then ef_bind (read_block io bitmap_block) (\<lambda>bitmap.
            ef_bind (ef_run (free_run_at bitmap bits_to_check (min want free_count) b)) (\<lambda>len.
              if len > 0 then ef_bind (claim_run io g bitmap_block bitmap b len) (\<lambda>bs. ef_ret (Some bs))
              else ef_ret None))
       else ef_ret None)"

fun alloc_first_fit :: "page_io \<Rightarrow> nat \<Rightarrow> nat \<Rightarrow> nat list \<Rightarrow> nat list efs" where
  "alloc_first_fit io want bits_to_check [] = ef_fail NoSpace"
| "alloc_first_fit io want bits_to_check (g # gs) =
     ef_bind (group_state g) (\<lambda>(free_count, bitmap_block).
       if free_count = 0 then alloc_first_fit io want bits_to_check gs
       else ef_bind (read_block io bitmap_block) (\<lambda>bitmap.
            ef_bind (ef_run (find_free_run bitmap bits_to_check (min want free_count))) (\<lambda>r.
              case r of Some (b, len) \<Rightarrow> claim_run io g bitmap_block bitmap b len
              | None \<Rightarrow> alloc_first_fit io want bits_to_check gs)))"

definition alloc_blocks :: "page_io \<Rightarrow> nat \<Rightarrow> nat option \<Rightarrow> nat list efs" where
  "alloc_blocks io want goal =
     ef_bind (ef_assert (want > 0)) (\<lambda>_.
     ef_bind (ef_get (\<lambda>s. (blocks_per_group s, length (ed_bgd_table s)))) (\<lambda>(bpg, group_count).
       let bits_to_check = min bpg (BLOCK_SIZE * 8) in
       ef_bind (ef_assert (goal = None \<or> bpg \<noteq> 0)) (\<lambda>_.
         let goal_group = (case goal of None \<Rightarrow> None
               | Some b \<Rightarrow> if b div bpg < group_count then Some (b div bpg) else None);
             groups = map (\<lambda>i. ((case goal_group of None \<Rightarrow> 0 | Some g \<Rightarrow> g) + i) mod group_count) [0..<group_count]
         in case (goal_group, goal) of
              (Some g, Some goal_block) \<Rightarrow>
                ef_bind (alloc_at_goal io want bits_to_check g (goal_block mod bpg)) (\<lambda>r.
                  case r of Some bs \<Rightarrow> ef_ret bs | None \<Rightarrow> alloc_first_fit io want bits_to_check groups)
            | _ \<Rightarrow> alloc_first_fit io want bits_to_check groups)))"

definition alloc_block :: "page_io \<Rightarrow> nat efs" where
  "alloc_block io = ef_bind (alloc_blocks io 1 None) (\<lambda>bs.
     case bs of [] \<Rightarrow> ef_fail NoSpace | b # _ \<Rightarrow> ef_ret b)"

definition free_block :: "page_io \<Rightarrow> nat \<Rightarrow> unit efs" where
  "free_block io block =
     ef_bind (ef_get (\<lambda>s. (blocks_per_group s, ed_bgd_table s))) (\<lambda>(bpg, bgds).
     ef_bind (ef_assert (bpg \<noteq> 0)) (\<lambda>_.
       let group = block div bpg; b = block mod bpg in
       if group \<ge> length bgds then ef_fail Corrupted
       else let bitmap_block = unat (bgd_block_bitmap_block (bgds ! group)) in
         ef_bind (read_block io bitmap_block) (\<lambda>bitmap.
         ef_bind (ef_run (clear_bit bitmap b)) (\<lambda>bitmap'.
         ef_bind (write_block io bitmap_block bitmap') (\<lambda>_.
         ef_bind (give_block group) (\<lambda>_.
         ef_bind (enroll_counters io group) (\<lambda>_.
         ef_upd (\<lambda>s. s\<lparr>ed_tx := enroll_revoke (ed_device_id s, block_page s block) (ed_tx s)\<rparr>))))))))"

section \<open>Inodes\<close>

fun alloc_inode_in :: "page_io \<Rightarrow> nat \<Rightarrow> nat list \<Rightarrow> nat efs" where
  "alloc_inode_in io ipg [] = ef_fail NoSpace"
| "alloc_inode_in io ipg (g # gs) =
     ef_bind (ef_get (\<lambda>s. ed_bgd_table s ! g)) (\<lambda>d.
       if bgd_free_inodes_count d = 0 then alloc_inode_in io ipg gs
       else let bitmap_block = unat (bgd_inode_bitmap_block d) in
         ef_bind (read_block io bitmap_block) (\<lambda>bitmap.
           case find_free_bit bitmap (min ipg (BLOCK_SIZE * 8)) of
             None \<Rightarrow> alloc_inode_in io ipg gs
           | Some b \<Rightarrow>
               ef_bind (ef_run (set_bit_at bitmap b)) (\<lambda>bitmap'.
               ef_bind (take_inode g) (\<lambda>_.
               ef_bind (write_block io bitmap_block bitmap') (\<lambda>_.
               ef_bind (enroll_counters io g) (\<lambda>_.
               ef_ret (g * ipg + b + 1)))))))"

definition alloc_inode :: "page_io \<Rightarrow> nat efs" where
  "alloc_inode io =
     ef_bind (ef_get (\<lambda>s. (unat (sb_inodes_per_group (ed_superblock s)), length (ed_bgd_table s)))) (\<lambda>(ipg, n).
       alloc_inode_in io ipg [0..<n])"

definition free_inode :: "page_io \<Rightarrow> nat \<Rightarrow> unit efs" where
  "free_inode io ino =
     ef_bind (\<lambda>s. ef_run (inode_location ino s) s) (\<lambda>(group, b).
     ef_bind (ef_get ed_bgd_table) (\<lambda>bgds.
       if group \<ge> length bgds then ef_fail Corrupted
       else let bitmap_block = unat (bgd_inode_bitmap_block (bgds ! group)) in
         ef_bind (read_block io bitmap_block) (\<lambda>bitmap.
         ef_bind (ef_run (clear_bit bitmap b)) (\<lambda>bitmap'.
         ef_bind (write_block io bitmap_block bitmap') (\<lambda>_.
         ef_bind (give_inode group) (\<lambda>_. enroll_counters io group))))))"

section \<open>The allocation invariant\<close>

definition bitmap_block_of :: "EfsDriver \<Rightarrow> nat \<Rightarrow> nat" where
  "bitmap_block_of s g = unat (bgd_block_bitmap_block (ed_bgd_table s ! g))"

definition bitmap_of :: "EfsDriver \<Rightarrow> nat \<Rightarrow> bytes" where
  "bitmap_of s g = view s (bitmap_block_of s g)"

definition free_in :: "EfsDriver \<Rightarrow> nat \<Rightarrow> nat" where
  "free_in s g = card {b. b < blocks_per_group s \<and> bit_clear (bitmap_of s g) b}"

definition is_free :: "EfsDriver \<Rightarrow> nat \<Rightarrow> bool" where
  "is_free s b \<longleftrightarrow> b div blocks_per_group s < length (ed_bgd_table s) \<and>
     bit_clear (bitmap_of s (b div blocks_per_group s)) (b mod blocks_per_group s)"

definition alloc_ok :: "EfsDriver \<Rightarrow> bool" where
  "alloc_ok s \<longleftrightarrow> pages_4k s \<and> 0 < blocks_per_group s \<and> blocks_per_group s \<le> 32768 \<and>
     length (ed_bgd_table s) < 2 ^ 32 \<and>
     (\<forall>g < length (ed_bgd_table s). \<forall>h < length (ed_bgd_table s).
        bitmap_block_of s g = bitmap_block_of s h \<longrightarrow> g = h) \<and>
     (\<forall>g < length (ed_bgd_table s). unat (bgd_free_blocks_count (ed_bgd_table s ! g)) = free_in s g) \<and>
     unat (sb_free_blocks (ed_superblock s)) = (\<Sum>g < length (ed_bgd_table s). free_in s g)"

text \<open>What allocation leaves alone.\<close>

definition geometry :: "EfsBlockGroupDesc \<Rightarrow> u64 \<times> u64 \<times> u64" where
  "geometry d = (bgd_block_bitmap_block d, bgd_inode_bitmap_block d, bgd_inode_table_block d)"

definition same_geometry :: "EfsDriver \<Rightarrow> EfsDriver \<Rightarrow> bool" where
  "same_geometry s s' \<longleftrightarrow> ed_device_id s' = ed_device_id s \<and> ed_starting_lba s' = ed_starting_lba s \<and>
     ed_inodes_per_group s' = ed_inodes_per_group s \<and> ed_disk s' = ed_disk s \<and>
     sb_blocks_per_group (ed_superblock s') = sb_blocks_per_group (ed_superblock s) \<and>
     map geometry (ed_bgd_table s') = map geometry (ed_bgd_table s)"

lemma same_geometry_refl [simp]: "same_geometry s s"
  by (simp add: same_geometry_def)

lemma same_geometry_trans [trans]: "same_geometry a b \<Longrightarrow> same_geometry b c \<Longrightarrow> same_geometry a c"
  by (simp add: same_geometry_def)

lemma same_meta_geometry: "same_meta s s' \<Longrightarrow> same_geometry s s'"
  by (simp add: same_meta_def same_geometry_def)

lemma same_geometry_fields:
  assumes "same_geometry s s'"
  shows "length (ed_bgd_table s') = length (ed_bgd_table s)" "blocks_per_group s' = blocks_per_group s"
    "g < length (ed_bgd_table s) \<Longrightarrow> bitmap_block_of s' g = bitmap_block_of s g"
    "g < length (ed_bgd_table s) \<Longrightarrow> bgd_inode_table_block (ed_bgd_table s' ! g) = bgd_inode_table_block (ed_bgd_table s ! g)"
proof -
  have m: "map geometry (ed_bgd_table s') = map geometry (ed_bgd_table s)" using assms by (simp add: same_geometry_def)
  then show len: "length (ed_bgd_table s') = length (ed_bgd_table s)" by (metis length_map)
  show "blocks_per_group s' = blocks_per_group s" using assms by (simp add: same_geometry_def blocks_per_group_def)
  assume g: "g < length (ed_bgd_table s)"
  have "geometry (ed_bgd_table s' ! g) = geometry (ed_bgd_table s ! g)"
    using m g len nth_map [of g "ed_bgd_table s" geometry] nth_map [of g "ed_bgd_table s'" geometry] by simp
  then show "bitmap_block_of s' g = bitmap_block_of s g"
    "bgd_inode_table_block (ed_bgd_table s' ! g) = bgd_inode_table_block (ed_bgd_table s ! g)"
    by (simp_all add: geometry_def bitmap_block_of_def)
qed

text \<open>A step that changes neither counters nor the content of a block keeps all of it.\<close>

lemma alloc_cong:
  assumes "same_meta s s'" "\<forall>b. view s' b = view s b"
  shows "alloc_ok s' \<longleftrightarrow> alloc_ok s" "is_free s' b \<longleftrightarrow> is_free s b"
proof -
  have "bitmap_block_of s' = bitmap_block_of s" "blocks_per_group s' = blocks_per_group s"
    "ed_bgd_table s' = ed_bgd_table s" "ed_superblock s' = ed_superblock s"
    using assms(1) by (auto simp: same_meta_def bitmap_block_of_def blocks_per_group_def)
  moreover have "bitmap_of s' = bitmap_of s"
    using assms(2) by (simp add: bitmap_of_def fun_eq_iff calculation(1))
  ultimately show "alloc_ok s' \<longleftrightarrow> alloc_ok s" "is_free s' b \<longleftrightarrow> is_free s b"
    using assms(2) by (simp_all add: alloc_ok_def is_free_def free_in_def pages_4k_def)
qed

section \<open>Steps\<close>

lemma unat_minus_nat: "n \<le> unat x \<Longrightarrow> unat (x - word_of_nat n :: u64) = unat x - n"
proof -
  assume n: "n \<le> unat x"
  have "n < 2 ^ 64" using n unat_less2p [of x] by simp
  then have "unat (word_of_nat n :: u64) = n" by (simp add: unat_of_nat)
  then show ?thesis using n by (simp add: unat_sub word_le_nat_alt)
qed

lemma enroll_ok:
  assumes "io_ok io"
  shows "\<exists>s'. enroll_counters io g s = Ret (Inr (), s') \<and> same_meta s s' \<and> (\<forall>b. view s' b = view s b)"
proof -
  have v: "view (enroll_page idx s) b = view s b" "same_meta s (enroll_page idx s)" for idx s b
    by (simp_all add: view_def page_view_def enroll_page_def block_page_alt same_meta_def split: option.split)
  have e: "enroll_if_readable io idx s = Ret (Inr (), enroll_page idx (touch idx s))" for idx s
    using assms by (simp add: enroll_if_readable_def)
  show ?thesis
    unfolding enroll_counters_def
    by (simp add: e v) (meson same_meta_simps(2) same_meta_trans v(2))
qed

lemma set_bits_ok:
  "\<forall>b \<in> set bs. b < 8 * length bitmap \<Longrightarrow>
     \<exists>m. set_bits bitmap bs = Ret m \<and> length m = length bitmap \<and>
       (\<forall>k. bit_clear m k \<longleftrightarrow> bit_clear bitmap k \<and> k \<notin> set bs)"
proof (induction bs arbitrary: bitmap)
  case (Cons b bs)
  obtain m where m: "set_bit_at bitmap b = Ret m" "length m = length bitmap"
    "\<And>k. bit_clear m k \<longleftrightarrow> bit_clear bitmap k \<and> k \<noteq> b"
    using set_bit_at_ok [of b bitmap] Cons.prems by (metis list.set_intros(1))
  have "\<forall>b \<in> set bs. b < 8 * length m" using Cons.prems m(2) by simp
  from Cons.IH [OF this] m show ?case by auto
qed simp

text \<open>One bitmap changes, and the counters with it.\<close>

lemma alloc_step:
  assumes "alloc_ok s" "same_geometry s s'" "g < length (ed_bgd_table s)" "length m = 4096"
    "\<forall>c. view s' c = (if c = bitmap_block_of s g then m else view s c)"
    "\<forall>h < length (ed_bgd_table s). h \<noteq> g \<longrightarrow>
       bgd_free_blocks_count (ed_bgd_table s' ! h) = bgd_free_blocks_count (ed_bgd_table s ! h)"
    "unat (bgd_free_blocks_count (ed_bgd_table s' ! g)) = card {b. b < blocks_per_group s \<and> bit_clear m b}"
    "unat (sb_free_blocks (ed_superblock s')) + free_in s g =
       unat (sb_free_blocks (ed_superblock s)) + card {b. b < blocks_per_group s \<and> bit_clear m b}"
  shows "alloc_ok s'"
    "is_free s' c \<longleftrightarrow> (if c div blocks_per_group s = g then bit_clear m (c mod blocks_per_group s) else is_free s c)"
proof -
  note geo = same_geometry_fields [OF assms(2)]
  let ?n = "length (ed_bgd_table s)" and ?k = "card {b. b < blocks_per_group s \<and> bit_clear m b}"
  have inj: "bitmap_block_of s h = bitmap_block_of s g \<longleftrightarrow> h = g" if "h < ?n" for h
    using assms(1,3) that by (auto simp: alloc_ok_def)
  have bm: "bitmap_of s' h = (if h = g then m else bitmap_of s h)" if "h < ?n" for h
    using assms(5) inj [OF that] by (simp add: bitmap_of_def geo(3) [OF that])
  have fi: "free_in s' h = (if h = g then ?k else free_in s h)" if "h < ?n" for h
    by (simp add: free_in_def bm [OF that] geo(2))
  have "(\<Sum>h < ?n. free_in s' h) + free_in s g = (\<Sum>h < ?n. free_in s h) + ?k"
  proof -
    have "(\<Sum>h \<in> {..<?n} - {g}. free_in s' h) = (\<Sum>h \<in> {..<?n} - {g}. free_in s h)"
      by (rule sum.cong) (simp_all add: fi)
    then show ?thesis
      using assms(3) by (simp add: sum.remove [of "{..<?n}" g] fi)
  qed
  then have sum: "unat (sb_free_blocks (ed_superblock s')) = (\<Sum>h < ?n. free_in s' h)"
    using assms(1,8) by (simp add: alloc_ok_def)
  have "\<forall>h < ?n. unat (bgd_free_blocks_count (ed_bgd_table s' ! h)) = free_in s' h"
    using assms(1,6,7) by (auto simp: fi alloc_ok_def)
  then show "alloc_ok s'"
    using assms(1,4,5) sum by (auto simp: alloc_ok_def geo pages_4k_def)
  show "is_free s' c \<longleftrightarrow> (if c div blocks_per_group s = g then bit_clear m (c mod blocks_per_group s) else is_free s c)"
    using assms(3) bm by (auto simp: is_free_def geo)
qed

lemma take_blocks_ok:
  assumes "g < length (ed_bgd_table s)" "n \<le> unat (bgd_free_blocks_count (ed_bgd_table s ! g))"
    "n \<le> unat (sb_free_blocks (ed_superblock s))"
  shows "\<exists>s'. take_blocks g n s = Ret (Inr (), s') \<and> same_geometry s s' \<and> (\<forall>c. view s' c = view s c) \<and>
    (\<forall>h < length (ed_bgd_table s). h \<noteq> g \<longrightarrow> ed_bgd_table s' ! h = ed_bgd_table s ! h) \<and>
    unat (bgd_free_blocks_count (ed_bgd_table s' ! g)) = unat (bgd_free_blocks_count (ed_bgd_table s ! g)) - n \<and>
    unat (sb_free_blocks (ed_superblock s')) = unat (sb_free_blocks (ed_superblock s)) - n"
proof -
  let ?d = "ed_bgd_table s ! g" and ?sb = "ed_superblock s"
  let ?s = "set_bgd g (?d\<lparr>bgd_free_blocks_count := bgd_free_blocks_count ?d - of_nat n\<rparr>)
     (s\<lparr>ed_superblock := ?sb\<lparr>sb_free_blocks := sb_free_blocks ?sb - of_nat n\<rparr>\<rparr>)"
  have "map geometry ((ed_bgd_table s)[g := ?d\<lparr>bgd_free_blocks_count := bgd_free_blocks_count ?d - of_nat n\<rparr>]) =
      map geometry (ed_bgd_table s)"
    using assms(1) by (simp add: list_eq_iff_nth_eq nth_list_update geometry_def)
  then have "same_geometry s ?s" by (simp add: same_geometry_def set_bgd_def)
  moreover have "view ?s c = view s c" for c
    by (simp add: view_def page_view_def block_page_alt set_bgd_def split: option.split)
  ultimately show ?thesis
    by (intro exI [of _ ?s]) (use assms in \<open>auto simp: take_blocks_def Let_def unat_minus_nat set_bgd_def\<close>)
qed

lemma card_run: "free_run bitmap max_bits b len \<Longrightarrow>
    card {k. k < max_bits \<and> bit_clear bitmap k \<and> k \<notin> set [b..<b + len]} + len = card {k. k < max_bits \<and> bit_clear bitmap k}"
proof -
  assume "free_run bitmap max_bits b len"
  then have "{b..<b + len} \<subseteq> {k. k < max_bits \<and> bit_clear bitmap k}" by (auto simp: free_run_def)
  moreover have "{k. k < max_bits \<and> bit_clear bitmap k \<and> k \<notin> set [b..<b + len]} =
      {k. k < max_bits \<and> bit_clear bitmap k} - {b..<b + len}" by auto
  moreover have "card {b..<b + len} \<le> card {k. k < max_bits \<and> bit_clear bitmap k}"
    using calculation(1) by (intro card_mono) auto
  ultimately show ?thesis by (simp add: card_Diff_subset)
qed

section \<open>Allocating blocks\<close>

definition bitmap_blocks :: "EfsDriver \<Rightarrow> nat set" where
  "bitmap_blocks s = bitmap_block_of s ` {..<length (ed_bgd_table s)}"

definition allocated :: "EfsDriver \<Rightarrow> EfsDriver \<Rightarrow> nat list \<Rightarrow> bool" where
  "allocated s s' bs \<longleftrightarrow> bs \<noteq> [] \<and> (\<exists>b. bs = [b..<b + length bs]) \<and> alloc_ok s' \<and> same_geometry s s' \<and>
     (\<forall>b \<in> set bs. is_free s b) \<and> (\<forall>c. is_free s' c \<longleftrightarrow> is_free s c \<and> c \<notin> set bs) \<and>
     (\<forall>c. c \<notin> bitmap_blocks s \<longrightarrow> view s' c = view s c)"

lemma touch_cong:
  "alloc_ok (touch idx s) = alloc_ok s" "is_free (touch idx s) b = is_free s b"
  "bitmap_block_of (touch idx s) g = bitmap_block_of s g" "bitmap_of (touch idx s) g = bitmap_of s g"
  "blocks_per_group (touch idx s) = blocks_per_group s" "bitmap_blocks (touch idx s) = bitmap_blocks s"
  using alloc_cong [of s "touch idx s"]
  by (simp_all add: bitmap_block_of_def bitmap_of_def blocks_per_group_def bitmap_blocks_def)

lemma allocated_touch: "allocated (touch idx s) s' bs \<longleftrightarrow> allocated s s' bs"
  by (simp add: allocated_def touch_cong same_geometry_def)

lemma map_shift_upt: "map (\<lambda>i. a + i) [0..<n] = [a..<a + n]"
  by (simp add: list_eq_iff_nth_eq)

lemma div_run: "b + n \<le> (p :: nat) \<Longrightarrow> c \<in> set [g * p + b..<g * p + b + n] \<longleftrightarrow> c div p = g \<and> c mod p \<in> set [b..<b + n]"
proof
  assume h: "b + n \<le> p" and "c \<in> set [g * p + b..<g * p + b + n]"
  then obtain i where i: "c = g * p + (b + i)" "i < n" by (auto simp: add.assoc dest!: le_Suc_ex)
  then have "c div p = g" "c mod p = b + i" using h by simp_all
  then show "c div p = g \<and> c mod p \<in> set [b..<b + n]" using i by simp
next
  assume "b + n \<le> p" and "c div p = g \<and> c mod p \<in> set [b..<b + n]"
  moreover have "c = c div p * p + c mod p" by simp
  ultimately show "c \<in> set [g * p + b..<g * p + b + n]" by (auto simp del: div_mult_mod_eq)
qed

lemma claim_run_ok:
  assumes "io_ok io" "alloc_ok s" "g < length (ed_bgd_table s)" "0 < len"
    "free_run (bitmap_of s g) (blocks_per_group s) b len"
  shows "\<exists>s'. claim_run io g (bitmap_block_of s g) (bitmap_of s g) b len s =
      Ret (Inr [g * blocks_per_group s + b..<g * blocks_per_group s + b + len], s') \<and>
    allocated s s' [g * blocks_per_group s + b..<g * blocks_per_group s + b + len]"
proof -
  let ?p = "blocks_per_group s" and ?bm = "bitmap_of s g" and ?bb = "bitmap_block_of s g"
  have ok: "length ?bm = 4096" "?p \<le> 32768" "unat (bgd_free_blocks_count (ed_bgd_table s ! g)) = free_in s g"
    "unat (sb_free_blocks (ed_superblock s)) = (\<Sum>g < length (ed_bgd_table s). free_in s g)"
    using assms(2,3) by (auto simp: alloc_ok_def pages_4k_def bitmap_of_def)
  have run: "b + len \<le> ?p" "\<forall>k \<in> set [b..<b + len]. bit_clear ?bm k" using assms(5) by (auto simp: free_run_def)
  then obtain m where m: "set_bits ?bm [b..<b + len] = Ret m" "length m = 4096"
    "\<forall>k. bit_clear m k \<longleftrightarrow> bit_clear ?bm k \<and> k \<notin> set [b..<b + len]"
    using set_bits_ok [of "[b..<b + len]" ?bm] ok(1,2) by auto
  have card: "card {k. k < ?p \<and> bit_clear m k} + len = free_in s g"
    using card_run [OF assms(5)] m(3) by (simp add: free_in_def)
  have "free_in s g \<le> (\<Sum>g < length (ed_bgd_table s). free_in s g)"
    using assms(3) by (intro member_le_sum) auto
  then have le: "len \<le> unat (bgd_free_blocks_count (ed_bgd_table s ! g))" "len \<le> unat (sb_free_blocks (ed_superblock s))"
    using ok(3,4) card by simp_all
  obtain s1 where s1: "take_blocks g len s = Ret (Inr (), s1)" "same_geometry s s1" "\<forall>c. view s1 c = view s c"
    "\<forall>h < length (ed_bgd_table s). h \<noteq> g \<longrightarrow> ed_bgd_table s1 ! h = ed_bgd_table s ! h"
    "unat (bgd_free_blocks_count (ed_bgd_table s1 ! g)) = free_in s g - len"
    "unat (sb_free_blocks (ed_superblock s1)) = unat (sb_free_blocks (ed_superblock s)) - len"
    using take_blocks_ok [OF assms(3) le] ok(3) by auto
  let ?s2 = "put_page (block_page s1 ?bb) m s1"
  obtain s' where s': "enroll_counters io g ?s2 = Ret (Inr (), s')" "same_meta ?s2 s'" "\<forall>c. view s' c = view ?s2 c"
    using enroll_ok [OF assms(1)] by blast
  have meta: "ed_bgd_table s' = ed_bgd_table s1" "ed_superblock s' = ed_superblock s1"
    using s'(2) by (simp_all add: same_meta_def)
  have geo: "same_geometry s s'"
    using s1(2) s'(2) by (simp add: same_geometry_def same_meta_def)
  have view: "\<forall>c. view s' c = (if c = ?bb then m else view s c)" using s'(3) s1(3) by simp
  note step = alloc_step [OF assms(2) geo assms(3) m(2) view]
  have "unat (sb_free_blocks (ed_superblock s')) + free_in s g =
      unat (sb_free_blocks (ed_superblock s)) + card {k. k < ?p \<and> bit_clear m k}"
    using s1(6) card ok(4) \<open>free_in s g \<le> _\<close> by (simp add: meta)
  moreover have "unat (bgd_free_blocks_count (ed_bgd_table s' ! g)) = card {k. k < ?p \<and> bit_clear m k}"
    using s1(5) card by (simp add: meta)
  ultimately have post: "alloc_ok s'"
    "is_free s' c \<longleftrightarrow> (if c div ?p = g then bit_clear m (c mod ?p) else is_free s c)" for c
    using step s1(4) by (simp_all add: meta)
  have "is_free s' c \<longleftrightarrow> is_free s c \<and> c \<notin> set [g * ?p + b..<g * ?p + b + len]" for c
    unfolding post(2) div_run [OF run(1)] using m(3) assms(3) by (auto simp: is_free_def)
  moreover have "\<forall>c \<in> set [g * ?p + b..<g * ?p + b + len]. is_free s c"
    using run(2) assms(3) by (auto simp: is_free_def div_run [OF run(1)] simp del: set_upt)
  ultimately have "allocated s s' [g * ?p + b..<g * ?p + b + len]"
    using post(1) geo view assms(3,4) by (auto simp: allocated_def bitmap_blocks_def)
  moreover have "claim_run io g ?bb ?bm b len s = Ret (Inr [g * ?p + b..<g * ?p + b + len], s')"
    using assms(1) m s1(1) s'(1) by (simp add: claim_run_def map_shift_upt)
  ultimately show ?thesis by blast
qed

lemma free_in_zero: "free_in s g = 0 \<longleftrightarrow> (\<forall>b < blocks_per_group s. \<not> bit_clear (bitmap_of s g) b)"
  by (auto simp: free_in_def)

lemma group_state_ok:
  assumes "alloc_ok s" "g < length (ed_bgd_table s)"
  shows "group_state g s = Ret (Inr (free_in s g, bitmap_block_of s g), s)"
  using assms by (simp add: group_state_def Let_def alloc_ok_def bitmap_block_of_def)

text \<open>What a search may end with: a run that was free, or nothing because every block of the
  groups it looked at is taken.\<close>

definition alloc_result :: "EfsDriver \<Rightarrow> nat \<Rightarrow> nat set \<Rightarrow> (Error + nat list) \<Rightarrow> EfsDriver \<Rightarrow> bool" where
  "alloc_result s want gs r s' \<longleftrightarrow> (case r of
       Inr bs \<Rightarrow> allocated s s' bs \<and> length bs \<le> want
     | Inl e \<Rightarrow> e = NoSpace \<and> (\<forall>g \<in> gs. \<forall>b < blocks_per_group s. \<not> bit_clear (bitmap_of s g) b))"

lemma claim_found:
  assumes "io_ok io" "alloc_ok s" "g < length (ed_bgd_table s)" "0 < len"
    "free_run (bitmap_of s g) (blocks_per_group s) b len"
  shows "\<exists>s'. claim_run io g (bitmap_block_of s g) (bitmap_of s g) b len (touch (block_page s (bitmap_block_of s g)) s) =
      Ret (Inr [g * blocks_per_group s + b..<g * blocks_per_group s + b + len], s') \<and>
    allocated s s' [g * blocks_per_group s + b..<g * blocks_per_group s + b + len]"
  using claim_run_ok [of io "touch (block_page s (bitmap_block_of s g)) s" g len b] assms
  by (simp add: touch_cong allocated_touch)

lemma alloc_first_fit_ok:
  assumes "io_ok io" "alloc_ok s" "0 < want" "\<forall>g \<in> set gs. g < length (ed_bgd_table s)"
  shows "\<exists>r s'. alloc_first_fit io want (blocks_per_group s) gs s = Ret (r, s') \<and> alloc_result s want (set gs) r s'"
  using assms(2,4)
proof (induction gs arbitrary: s)
  case (Cons g gs)
  then have g: "g < length (ed_bgd_table s)" and p: "blocks_per_group s \<le> 8 * length (bitmap_of s g)"
    by (auto simp: alloc_ok_def pages_4k_def bitmap_of_def)
  note gs = group_state_ok [OF Cons.prems(1) g]
  let ?s = "touch (block_page s (bitmap_block_of s g)) s"
  have ?case if z: "free_in s g = 0"
  proof -
    obtain r s' where "alloc_first_fit io want (blocks_per_group s) gs s = Ret (r, s')" "alloc_result s want (set gs) r s'"
      using Cons.IH [OF Cons.prems(1)] Cons.prems(2) by auto
    then show ?thesis using z gs by (auto simp: alloc_result_def free_in_zero split: sum.splits)
  qed
  moreover have ?case if z: "free_in s g \<noteq> 0"
  proof -
    obtain r where r: "find_free_run (bitmap_of s g) (blocks_per_group s) (min want (free_in s g)) = Ret r"
      "run_found (bitmap_of s g) (blocks_per_group s) (min want (free_in s g)) r"
      using find_free_run_ok [OF p] assms(3) z by (metis min_less_iff_conj neq0_conv)
    show ?thesis
    proof (cases r)
      case None
      then show ?thesis using r z by (auto simp: run_found_def free_in_zero)
    next
      case (Some q)
      obtain b len where q: "q = (b, len)" by fastforce
      then have run: "0 < len" "free_run (bitmap_of s g) (blocks_per_group s) b len" "len \<le> want"
        using r(2) Some by (auto simp: run_found_def)
      obtain s' where "claim_run io g (bitmap_block_of s g) (bitmap_of s g) b len ?s =
          Ret (Inr [g * blocks_per_group s + b..<g * blocks_per_group s + b + len], s')"
        "allocated s s' [g * blocks_per_group s + b..<g * blocks_per_group s + b + len]"
        using claim_found [OF assms(1) Cons.prems(1) g run(1,2)] by blast
      then show ?thesis using z gs r(1) Some q run(3) assms(1)
        by (simp add: alloc_result_def bitmap_of_def)
    qed
  qed
  ultimately show ?case by blast
qed (simp add: alloc_result_def)

lemma alloc_at_goal_ok:
  assumes "io_ok io" "alloc_ok s" "0 < want" "g < length (ed_bgd_table s)" "b < blocks_per_group s"
  shows "\<exists>r s'. alloc_at_goal io want (blocks_per_group s) g b s = Ret (Inr r, s') \<and> (case r of
      Some bs \<Rightarrow> alloc_result s want {} (Inr bs) s' \<and> hd bs = g * blocks_per_group s + b
    | None \<Rightarrow> (s' = s \<or> s' = touch (block_page s (bitmap_block_of s g)) s) \<and> \<not> bit_clear (bitmap_of s g) b)"
proof (cases "free_in s g = 0")
  case True
  then have "\<not> bit_clear (bitmap_of s g) b" using assms(5) by (simp add: free_in_zero)
  then show ?thesis
    using True group_state_ok [OF assms(2,4)] by (simp add: alloc_at_goal_def)
next
  case False
  have p: "blocks_per_group s \<le> 8 * length (bitmap_of s g)"
    using assms(2) by (auto simp: alloc_ok_def pages_4k_def bitmap_of_def)
  obtain n where n: "free_run_at (bitmap_of s g) (blocks_per_group s) (min want (free_in s g)) b = Ret n" "n \<le> want"
    "free_run (bitmap_of s g) (blocks_per_group s) b n" "bit_clear (bitmap_of s g) b \<longrightarrow> 0 < n"
    using free_run_at_correct [OF p less_imp_le [OF assms(5)], of "min want (free_in s g)"] False assms(3,5) by auto
  show ?thesis
  proof (cases "n = 0")
    case True
    then show ?thesis
      using n assms False group_state_ok [OF assms(2,4)] by (auto simp: alloc_at_goal_def bitmap_of_def)
  next
    case nz: False
    obtain s' where "claim_run io g (bitmap_block_of s g) (bitmap_of s g) b n (touch (block_page s (bitmap_block_of s g)) s) =
        Ret (Inr [g * blocks_per_group s + b..<g * blocks_per_group s + b + n], s')"
      "allocated s s' [g * blocks_per_group s + b..<g * blocks_per_group s + b + n]"
      using claim_found [OF assms(1,2,4) _ n(3)] nz by blast
    then show ?thesis
      using n assms False nz group_state_ok [OF assms(2,4)]
      by (simp add: alloc_at_goal_def bitmap_of_def alloc_result_def)
  qed
qed

lemma rotation: "0 < n \<Longrightarrow> set (map (\<lambda>i. (k + i) mod n) [0..<n]) = {..<n :: nat}"
proof -
  assume n: "0 < n"
  have "inj_on (\<lambda>i. (k + i) mod n) {..<n}"
  proof (rule linorder_inj_onI)
    fix i j assume ij: "i < j" "i \<in> {..<n}" "j \<in> {..<n}"
    have "\<not> n dvd j - i" using ij by (auto dest: dvd_imp_le)
    then show "(k + i) mod n \<noteq> (k + j) mod n"
      using mod_eq_dvd_iff_nat [of "k + i" "k + j" n] ij(1) by auto
  qed auto
  then have "card ((\<lambda>i. (k + i) mod n) ` {..<n}) = card {..<n}" by (rule card_image)
  then have "(\<lambda>i. (k + i) mod n) ` {..<n} = {..<n}"
    using n by (intro card_subset_eq) auto
  then show ?thesis by (simp add: atLeast0LessThan)
qed

lemma alloc_result_touch: "alloc_result (touch idx s) want gs r s' \<longleftrightarrow> alloc_result s want gs r s'"
  by (cases r) (simp_all add: alloc_result_def touch_cong allocated_touch)

definition rotated_groups :: "EfsDriver \<Rightarrow> nat \<Rightarrow> nat list" where
  "rotated_groups s k = map (\<lambda>i. (k + i) mod length (ed_bgd_table s)) [0..<length (ed_bgd_table s)]"

lemma alloc_anywhere:
  assumes "io_ok io" "alloc_ok s" "0 < want" "s1 = s \<or> s1 = touch idx s"
  shows "\<exists>r s'. alloc_first_fit io want (blocks_per_group s) (rotated_groups s k) s1 = Ret (r, s') \<and>
    alloc_result s want {..<length (ed_bgd_table s)} r s'"
proof -
  have gs: "set (rotated_groups s k) = {..<length (ed_bgd_table s)}"
    using rotation [of "length (ed_bgd_table s)" k] unfolding rotated_groups_def by (cases "ed_bgd_table s = []") auto
  show ?thesis
    using alloc_first_fit_ok [of io s want "rotated_groups s k"] assms
      alloc_first_fit_ok [of io "touch idx s" want "rotated_groups s k"]
    by (auto simp: touch_cong alloc_result_touch gs)
qed

lemma alloc_blocks_ok:
  assumes "io_ok io" "alloc_ok s" "0 < want"
  shows "\<exists>r s'. alloc_blocks io want goal s = Ret (r, s') \<and> (case r of
      Inr bs \<Rightarrow> allocated s s' bs \<and> length bs \<le> want \<and> (\<forall>b. goal = Some b \<and> is_free s b \<longrightarrow> hd bs = b)
    | Inl e \<Rightarrow> e = NoSpace \<and> (\<forall>b. \<not> is_free s b))"
proof -
  let ?p = "blocks_per_group s" and ?n = "length (ed_bgd_table s)"
  let ?gs = "rotated_groups s"
  have p: "0 < ?p" "min ?p (BLOCK_SIZE * 8) = ?p" using assms(2) by (auto simp: alloc_ok_def BLOCK_SIZE_def)
  note ff = alloc_anywhere [OF assms]
  have no: "\<forall>g \<in> {..<?n}. \<forall>b < ?p. \<not> bit_clear (bitmap_of s g) b \<Longrightarrow> \<not> is_free s b" for b
    using p(1) by (simp add: is_free_def)
  let ?post = "\<lambda>r s'. case r of
      Inr bs \<Rightarrow> allocated s s' bs \<and> length bs \<le> want \<and> (\<forall>b. goal = Some b \<and> is_free s b \<longrightarrow> hd bs = b)
    | Inl e \<Rightarrow> e = NoSpace \<and> (\<forall>b. \<not> is_free s b)"
  have post: "alloc_result s want {..<?n} r s' \<Longrightarrow> \<forall>b. goal = Some b \<longrightarrow> \<not> is_free s b \<Longrightarrow> ?post r s'" for r s'
    using no by (cases r) (auto simp: alloc_result_def)
  show ?thesis
  proof (cases "\<exists>b. goal = Some b \<and> b div ?p < ?n")
    case False
    then have "alloc_blocks io want goal s = alloc_first_fit io want ?p (?gs 0) s"
      using p assms(3) by (cases goal) (simp_all add: alloc_blocks_def Let_def rotated_groups_def)
    then obtain r s' where "alloc_blocks io want goal s = Ret (r, s')" "alloc_result s want {..<?n} r s'"
      using ff [of s 0 0] by auto
    moreover have "\<forall>b. goal = Some b \<longrightarrow> \<not> is_free s b" using False by (simp add: is_free_def)
    ultimately show ?thesis using post by blast
  next
    case True
    then obtain b where b: "goal = Some b" "b div ?p < ?n" by blast
    obtain r s1 where r: "alloc_at_goal io want ?p (b div ?p) (b mod ?p) s = Ret (Inr r, s1)" "case r of
        Some bs \<Rightarrow> alloc_result s want {} (Inr bs) s1 \<and> hd bs = b div ?p * ?p + b mod ?p
      | None \<Rightarrow> (s1 = s \<or> s1 = touch (block_page s (bitmap_block_of s (b div ?p))) s) \<and>
          \<not> bit_clear (bitmap_of s (b div ?p)) (b mod ?p)"
      using alloc_at_goal_ok [OF assms b(2), of "b mod ?p"] p(1) by auto
    have run: "alloc_blocks io want goal s = (case r of Some bs \<Rightarrow> ef_ret bs
        | None \<Rightarrow> alloc_first_fit io want ?p (?gs (b div ?p))) s1"
      using b p assms(3) r(1) by (cases r) (simp_all add: alloc_blocks_def Let_def rotated_groups_def)
    show ?thesis
    proof (cases r)
      case None
      then have "\<forall>b. goal = Some b \<longrightarrow> \<not> is_free s b" using b r(2) by (simp add: is_free_def)
      moreover obtain r' s' where "alloc_blocks io want goal s = Ret (r', s')" "alloc_result s want {..<?n} r' s'"
        using ff [of s1 "block_page s (bitmap_block_of s (b div ?p))" "b div ?p"] None run r(2) by auto
      ultimately show ?thesis using post by blast
    next
      case (Some bs)
      then show ?thesis using run r(2) b by (simp add: alloc_result_def)
    qed
  qed
qed

text \<open>C13. Block allocation.  On a filesystem whose counters agree with its bitmaps and with a
  cache that answers, \<open>alloc_blocks\<close> always comes to an end.  It returns a non-empty run of at
  most \<open>want\<close> consecutive blocks that were free, marks exactly these as taken, keeps counters
  and bitmaps in agreement and touches no block but the bitmaps; the run starts at the goal
  whenever the goal is free.  It gives up, with \<open>NoSpace\<close>, only when no block of the
  filesystem is free.\<close>

theorem alloc_blocks_correct:
  assumes "io_ok io" "alloc_ok s" "0 < want"
  shows "\<exists>r s'. alloc_blocks io want goal s = Ret (r, s') \<and> (case r of
      Inr bs \<Rightarrow> allocated s s' bs \<and> length bs \<le> want \<and> (\<forall>b. goal = Some b \<and> is_free s b \<longrightarrow> hd bs = b)
    | Inl e \<Rightarrow> e = NoSpace \<and> (\<forall>b. \<not> is_free s b))"
  using assms by (rule alloc_blocks_ok)

lemma example_bitmap: "bitmap_of example_driver 0 = [0xFF, 0xFF] @ replicate 4094 0" "blocks_per_group example_driver = 4096"
  "bitmap_block_of example_driver 0 = 3"
  by (simp_all add: bitmap_of_def bitmap_block_of_def view_def page_view_def block_page_alt example_driver_def
      example_group_def blocks_per_group_def)

lemma example_bits: "b < 4096 \<Longrightarrow> bit_clear ([0xFF, 0xFF] @ replicate 4094 0) b \<longleftrightarrow> 16 \<le> b"
proof -
  assume b: "b < 4096"
  have ff: "(0xFF :: byte) = - 1" by simp
  have "b div 8 = 0 \<or> b div 8 = 1 \<or> 2 \<le> b div 8 \<and> b div 8 < 4096" using b by linarith
  then show ?thesis unfolding bit_clear_iff ff
    by (elim disjE) (auto simp: nth_append nth_Cons' not_le)
qed

lemma example_driver_alloc: "alloc_ok example_driver"
proof -
  have "{b. b < 4096 \<and> bit_clear ([0xFF, 0xFF] @ replicate 4094 0) b} = {16..<4096}" using example_bits by auto
  then have "free_in example_driver 0 = 4080" by (simp add: free_in_def example_bitmap del: append_Cons)
  moreover have "length (ed_bgd_table example_driver) = 1"
    "bgd_free_blocks_count (ed_bgd_table example_driver ! 0) = 4080" "sb_free_blocks (ed_superblock example_driver) = 4080"
    by (simp_all add: example_driver_def example_group_def)
  ultimately show ?thesis
    by (simp add: alloc_ok_def example_driver_pages example_bitmap)
qed

theorem alloc_blocks_correct_witness:
  "\<exists>r s'. alloc_blocks good_io 8 (Some 20) example_driver = Ret (r, s') \<and> (case r of
      Inr bs \<Rightarrow> allocated example_driver s' bs \<and> length bs \<le> 8 \<and>
        (\<forall>b. Some 20 = Some b \<and> is_free example_driver b \<longrightarrow> hd bs = b)
    | Inl e \<Rightarrow> e = NoSpace \<and> (\<forall>b. \<not> is_free example_driver b))"
  by (rule alloc_blocks_correct [OF good_io_ok example_driver_alloc]) simp

section \<open>Freeing blocks\<close>

lemma unat_inc: "unat x < 2 ^ 64 - 1 \<Longrightarrow> x \<noteq> - 1 \<and> unat (x + 1) = unat x + 1" for x :: u64
proof
  assume x: "unat x < 2 ^ 64 - 1"
  have "unat (- 1 :: u64) = 2 ^ 64 - 1" by (simp add: unsigned_minus_1_eq_mask mask_eq_exp_minus_1)
  then show "x \<noteq> - 1" using x by auto
  show "unat (x + 1) = unat x + 1" using x by (simp add: unat_word_ariths)
qed

lemma give_block_ok:
  assumes "g < length (ed_bgd_table s)" "unat (bgd_free_blocks_count (ed_bgd_table s ! g)) < 2 ^ 64 - 1"
    "unat (sb_free_blocks (ed_superblock s)) < 2 ^ 64 - 1"
  shows "\<exists>s'. give_block g s = Ret (Inr (), s') \<and> same_geometry s s' \<and> (\<forall>c. view s' c = view s c) \<and>
    (\<forall>h < length (ed_bgd_table s). h \<noteq> g \<longrightarrow> ed_bgd_table s' ! h = ed_bgd_table s ! h) \<and>
    unat (bgd_free_blocks_count (ed_bgd_table s' ! g)) = unat (bgd_free_blocks_count (ed_bgd_table s ! g)) + 1 \<and>
    unat (sb_free_blocks (ed_superblock s')) = unat (sb_free_blocks (ed_superblock s)) + 1"
proof -
  let ?d = "ed_bgd_table s ! g" and ?sb = "ed_superblock s"
  let ?s = "set_bgd g (?d\<lparr>bgd_free_blocks_count := bgd_free_blocks_count ?d + 1\<rparr>)
     (s\<lparr>ed_superblock := ?sb\<lparr>sb_free_blocks := sb_free_blocks ?sb + 1\<rparr>\<rparr>)"
  have "map geometry ((ed_bgd_table s)[g := ?d\<lparr>bgd_free_blocks_count := bgd_free_blocks_count ?d + 1\<rparr>]) =
      map geometry (ed_bgd_table s)"
    using assms(1) by (simp add: list_eq_iff_nth_eq nth_list_update geometry_def)
  then have "same_geometry s ?s" by (simp add: same_geometry_def set_bgd_def)
  moreover have "view ?s c = view s c" for c
    by (simp add: view_def page_view_def block_page_alt set_bgd_def split: option.split)
  ultimately show ?thesis
    by (intro exI [of _ ?s]) (use assms unat_inc [OF assms(2)] unat_inc [OF assms(3)] in \<open>simp add: give_block_def Let_def set_bgd_def\<close>)
qed

lemma counters_small:
  assumes "alloc_ok s" "g < length (ed_bgd_table s)"
  shows "unat (bgd_free_blocks_count (ed_bgd_table s ! g)) < 2 ^ 64 - 1" "unat (sb_free_blocks (ed_superblock s)) < 2 ^ 64 - 1"
proof -
  have f: "free_in s h \<le> 32768" for h
  proof -
    have "free_in s h \<le> card {..<blocks_per_group s}" unfolding free_in_def by (rule card_mono) auto
    then show ?thesis using assms(1) by (simp add: alloc_ok_def)
  qed
  have "unat (sb_free_blocks (ed_superblock s)) \<le> length (ed_bgd_table s) * 32768"
    using assms(1) sum_bounded_above [of "{..<length (ed_bgd_table s)}" "free_in s" 32768] f by (simp add: alloc_ok_def)
  then show "unat (sb_free_blocks (ed_superblock s)) < 2 ^ 64 - 1" using assms(1) by (simp add: alloc_ok_def)
  show "unat (bgd_free_blocks_count (ed_bgd_table s ! g)) < 2 ^ 64 - 1" using assms f [of g] by (simp add: alloc_ok_def)
qed

lemma card_clear: "k < p \<Longrightarrow> \<not> bit_clear bm k \<Longrightarrow> \<forall>j. bit_clear m j \<longleftrightarrow> bit_clear bm j \<or> j = k \<Longrightarrow>
    card {b. b < p \<and> bit_clear m b} = card {b. b < p \<and> bit_clear bm b} + 1"
proof -
  assume a: "k < p" "\<not> bit_clear bm k" "\<forall>j. bit_clear m j \<longleftrightarrow> bit_clear bm j \<or> j = k"
  then have "{b. b < p \<and> bit_clear m b} = insert k {b. b < p \<and> bit_clear bm b}" by auto
  then show ?thesis using a(2) by simp
qed

lemma free_block_ok:
  assumes "io_ok io" "alloc_ok s" "block div blocks_per_group s < length (ed_bgd_table s)" "\<not> is_free s block"
  shows "\<exists>s'. free_block io block s = Ret (Inr (), s') \<and> alloc_ok s' \<and> same_geometry s s' \<and>
    (\<forall>c. is_free s' c \<longleftrightarrow> is_free s c \<or> c = block) \<and> (\<forall>c. c \<notin> bitmap_blocks s \<longrightarrow> view s' c = view s c) \<and>
    (ed_device_id s, block_page s block) \<in> fst ` set (staged_revokes (ed_tx s'))"
proof -
  let ?p = "blocks_per_group s" and ?g = "block div blocks_per_group s"
  let ?k = "block mod ?p" and ?bm = "bitmap_of s ?g" and ?bb = "bitmap_block_of s ?g"
  have ok: "length ?bm = 4096" "?p \<le> 32768" "?k < ?p"
    using assms(2) unfolding alloc_ok_def pages_4k_def bitmap_of_def by auto
  have "?k < 8 * length ?bm" using ok by simp
  then obtain m where m: "clear_bit ?bm ?k = Ret m" "length m = 4096" "\<forall>k. bit_clear m k \<longleftrightarrow> bit_clear ?bm k \<or> k = ?k"
    using clear_bit_ok ok(1) by metis
  have used: "\<not> bit_clear ?bm ?k" using assms(3,4) by (simp add: is_free_def)
  note card = card_clear [OF ok(3) used m(3)]
  let ?s1 = "put_page (block_page s ?bb) m (touch (block_page s ?bb) s)"
  obtain s2 where s2: "give_block ?g ?s1 = Ret (Inr (), s2)" "same_geometry ?s1 s2" "\<forall>c. view s2 c = view ?s1 c"
    "\<forall>h < length (ed_bgd_table s). h \<noteq> ?g \<longrightarrow> ed_bgd_table s2 ! h = ed_bgd_table s ! h"
    "unat (bgd_free_blocks_count (ed_bgd_table s2 ! ?g)) = free_in s ?g + 1"
    "unat (sb_free_blocks (ed_superblock s2)) = unat (sb_free_blocks (ed_superblock s)) + 1"
    using give_block_ok [of ?g ?s1] counters_small [OF assms(2,3)] assms(2,3) by (auto simp: alloc_ok_def)
  obtain s3 where s3: "enroll_counters io ?g s2 = Ret (Inr (), s3)" "same_meta s2 s3" "\<forall>c. view s3 c = view s2 c"
    using enroll_ok [OF assms(1)] by blast
  let ?s' = "s3\<lparr>ed_tx := enroll_revoke (ed_device_id s3, block_page s3 block) (ed_tx s3)\<rparr>"
  have geo: "same_geometry s ?s'" using s2(2) s3(2) by (simp add: same_geometry_def same_meta_def)
  have view: "\<forall>c. view ?s' c = (if c = ?bb then m else view s c)"
    using s2(3) s3(3) by simp
  have meta: "ed_bgd_table ?s' = ed_bgd_table s2" "ed_superblock ?s' = ed_superblock s2"
    using s3(2) by (simp_all add: same_meta_def)
  have post: "alloc_ok ?s'" "is_free ?s' c \<longleftrightarrow> (if c div ?p = ?g then bit_clear m (c mod ?p) else is_free s c)" for c
    using alloc_step [OF assms(2) geo assms(3) m(2) view] s2(4-6) card unfolding meta free_in_def by simp_all
  have "is_free ?s' c \<longleftrightarrow> is_free s c \<or> c = block" for c
  proof -
    have "c = block \<longleftrightarrow> c div ?p = ?g \<and> c mod ?p = ?k" by (metis div_mult_mod_eq)
    then show ?thesis unfolding post(2) using m(3) assms(3) by (auto simp: is_free_def)
  qed
  moreover have "free_block io block s = Ret (Inr (), ?s')"
    using assms(1,3) m(1,2) s2(1) s3(1) ok(3)
    by (simp add: free_block_def Let_def bitmap_of_def flip: bitmap_block_of_def)
  moreover have "(ed_device_id s, block_page s block) \<in> fst ` set (staged_revokes (ed_tx ?s'))"
    using s2(2) s3(2) set_bt_keys_insert [of "(ed_device_id s3, block_page s3 block)" "()" "staged_revokes (ed_tx s3)"]
    by (simp add: enroll_revoke_def bt_keys_def same_geometry_def same_meta_def block_page_alt)
  ultimately show ?thesis using post(1) geo view assms(3) by (intro exI [of _ ?s']) (auto simp: bitmap_blocks_def)
qed

text \<open>C23. Freeing a block.  A block in use becomes free, no other block changes its state, the
  counters go on agreeing with the bitmaps, only the bitmap block changes, and the page of
  the freed block is revoked in the transaction.\<close>

theorem free_block_correct:
  assumes "io_ok io" "alloc_ok s" "block div blocks_per_group s < length (ed_bgd_table s)" "\<not> is_free s block"
  shows "\<exists>s'. free_block io block s = Ret (Inr (), s') \<and> alloc_ok s' \<and> same_geometry s s' \<and>
    (\<forall>c. is_free s' c \<longleftrightarrow> is_free s c \<or> c = block) \<and> (\<forall>c. c \<notin> bitmap_blocks s \<longrightarrow> view s' c = view s c) \<and>
    (ed_device_id s, block_page s block) \<in> fst ` set (staged_revokes (ed_tx s'))"
  using assms by (rule free_block_ok)

theorem free_block_correct_witness:
  "\<exists>s'. free_block good_io 3 example_driver = Ret (Inr (), s') \<and> alloc_ok s' \<and> same_geometry example_driver s' \<and>
    (\<forall>c. is_free s' c \<longleftrightarrow> is_free example_driver c \<or> c = 3) \<and>
    (\<forall>c. c \<notin> bitmap_blocks example_driver \<longrightarrow> view s' c = view example_driver c) \<and>
    (ed_device_id example_driver, block_page example_driver 3) \<in> fst ` set (staged_revokes (ed_tx s'))"
proof (rule free_block_correct [OF good_io_ok example_driver_alloc])
  show "3 div blocks_per_group example_driver < length (ed_bgd_table example_driver)"
    by (simp add: example_bitmap) (simp add: example_driver_def)
  show "\<not> is_free example_driver 3" using example_bits [of 3] by (simp add: is_free_def example_bitmap)
qed

end
