(* ===== verification/Efs_Extent_Store.thy ===== *)
theory Efs_Extent_Store
  imports Efs_Alloc
begin

text \<open>
  The extent tree of an inode: \<open>build_extent_tree\<close> of \<open>libs/efs-common/src/extent.rs\<close> and the
  driver's part of \<open>kernel/src/fs/efs/extents.rs\<close>.  Up to thirteen extents lie in the inode
  itself; a longer map is stored in leaf blocks that the inode indexes.  The main result is
  that a map that was stored is the map that is loaded, whatever tree blocks the inode had
  before.
\<close>

section \<open>Building the tree\<close>

definition node_header :: "nat \<Rightarrow> nat \<Rightarrow> u16 \<Rightarrow> EfsExtentHeader" where
  "node_header entries max_entries depth = \<lparr>eh_magic = EXTENT_MAGIC, eh_entries = word_of_nat entries,
     eh_max_entries = word_of_nat max_entries, eh_depth = depth, eh_reserved = 0\<rparr>"

fun write_node_entries :: "('t \<Rightarrow> bytes) \<Rightarrow> bytes \<Rightarrow> nat \<Rightarrow> 't list \<Rightarrow> bytes run" where
  "write_node_entries enc node j [] = Ret node"
| "write_node_entries enc node j (e # es) =
     run_bind (write_node_entry enc node j e) (\<lambda>node'. write_node_entries enc node' (j + 1) es)"

definition leaf_node :: "nat \<Rightarrow> nat \<Rightarrow> EfsExtent list \<Rightarrow> bytes run" where
  "leaf_node bsize max_entries es =
     run_bind (write_node_header (replicate bsize 0) (node_header (length es) max_entries 0)) (\<lambda>node.
       write_node_entries extent_bytes node 0 es)"

function chunks :: "nat \<Rightarrow> 'a list \<Rightarrow> 'a list list" where
  "chunks n xs = (if n = 0 \<or> xs = [] then [] else take n xs # chunks n (drop n xs))"
  by pat_completeness auto
termination by (relation "measure (\<lambda>(_, xs). length xs)") auto

declare chunks.simps [simp del]

definition index_entry :: "u32 \<Rightarrow> nat \<Rightarrow> EfsExtentIndex" where
  "index_entry logical_block leaf_block = \<lparr>idx_logical_block = logical_block, idx_reserved = 0,
     idx_leaf_hi = word_of_nat (leaf_block div 2 ^ 32), idx_leaf_lo = word_of_nat leaf_block\<rparr>"

fun emit_leaves :: "(nat \<Rightarrow> bytes \<Rightarrow> nat efs) \<Rightarrow> nat \<Rightarrow> nat \<Rightarrow> nat \<Rightarrow> EfsExtent list list \<Rightarrow> bytes \<Rightarrow> bytes efs" where
  "emit_leaves emit_leaf bsize per_leaf i [] data_area = ef_ret data_area"
| "emit_leaves emit_leaf bsize per_leaf i (chunk # rest) data_area =
     ef_bind (ef_run (leaf_node bsize per_leaf chunk)) (\<lambda>node.
     ef_bind (emit_leaf i node) (\<lambda>leaf_block.
     ef_bind (ef_run (write_node_entry extent_index_bytes data_area i
         (index_entry (ext_logical_block (chunk ! 0)) leaf_block))) (\<lambda>data_area'.
     emit_leaves emit_leaf bsize per_leaf (i + 1) rest data_area')))"

definition build_extent_tree :: "EfsExtent list \<Rightarrow> nat \<Rightarrow> (nat \<Rightarrow> bytes \<Rightarrow> nat efs) \<Rightarrow> (bytes \<times> nat) efs" where
  "build_extent_tree runs bsize emit_leaf =
     ef_bind (ef_assert (length runs \<le> max_extents bsize)) (\<lambda>_.
       let per_leaf = entries_per_node bsize in
       if length runs \<le> MAX_INLINE_EXTENTS
       then ef_bind (ef_run (leaf_node INODE_DATA_AREA_SIZE MAX_INLINE_EXTENTS runs)) (\<lambda>data_area. ef_ret (data_area, 0))
       else let leaf_count = (length runs + per_leaf - 1) div per_leaf in
         ef_bind (ef_run (write_node_header (replicate INODE_DATA_AREA_SIZE 0)
             (node_header leaf_count MAX_INLINE_EXTENTS 1))) (\<lambda>data_area.
         ef_bind (emit_leaves emit_leaf bsize per_leaf 0 (chunks per_leaf runs) data_area) (\<lambda>data_area'.
         ef_ret (data_area', leaf_count))))"

section \<open>Loading and storing\<close>

definition ef_lift :: "Error + 'a \<Rightarrow> 'a efs" where
  "ef_lift r = (case r of Inl e \<Rightarrow> ef_fail e | Inr a \<Rightarrow> ef_ret a)"

definition ef_or_default :: "'a efs \<Rightarrow> 'a \<Rightarrow> 'a efs" where
  "ef_or_default m d s = (case m s of Panic \<Rightarrow> Panic | Ret (Inl e, s') \<Rightarrow> Ret (Inr d, s') | Ret (Inr a, s') \<Rightarrow> Ret (Inr a, s'))"

fun read_entries :: "(bytes \<Rightarrow> 't) \<Rightarrow> bytes \<Rightarrow> nat list \<Rightarrow> Error + 't list" where
  "read_entries dec node [] = Inr []"
| "read_entries dec node (i # is) = (case read_node_entry dec node i of
       None \<Rightarrow> Inl Corrupted
     | Some e \<Rightarrow> try_bind (read_entries dec node is) (\<lambda>es. Inr (e # es)))"

definition read_leaf_entries :: "bytes \<Rightarrow> nat \<Rightarrow> nat \<Rightarrow> Error + EfsExtent list" where
  "read_leaf_entries node count capacity =
     (if count > capacity then Inl Corrupted else read_entries extent_of node [0..<count])"

fun load_leaves :: "page_io \<Rightarrow> bytes \<Rightarrow> nat \<Rightarrow> nat list \<Rightarrow> ExtentMap efs" where
  "load_leaves io node per_leaf [] = ef_ret []"
| "load_leaves io node per_leaf (i # is) = (case read_node_entry extent_index_of node i of
       None \<Rightarrow> ef_fail Corrupted
     | Some idx \<Rightarrow> ef_bind (read_block io (child_block idx)) (\<lambda>leaf. case read_node_header leaf of
         None \<Rightarrow> ef_fail Corrupted
       | Some leaf_hdr \<Rightarrow>
           if eh_magic leaf_hdr \<noteq> EXTENT_MAGIC \<or> eh_depth leaf_hdr \<noteq> 0 then ef_fail Corrupted
           else ef_bind (ef_lift (read_leaf_entries leaf (unat (eh_entries leaf_hdr)) per_leaf)) (\<lambda>es.
                ef_bind (load_leaves io node per_leaf is) (\<lambda>rest. ef_ret (es @ rest)))))"

definition load_extent_map :: "page_io \<Rightarrow> EfsInode \<Rightarrow> ExtentMap efs" where
  "load_extent_map io inode = (case read_node_header (ino_data_area inode) of
       None \<Rightarrow> ef_fail Corrupted
     | Some hdr \<Rightarrow>
         if eh_magic hdr \<noteq> EXTENT_MAGIC then ef_fail Corrupted
         else if eh_depth hdr = 0
         then ef_lift (read_leaf_entries (ino_data_area inode) (unat (eh_entries hdr)) MAX_INLINE_EXTENTS)
         else if eh_depth hdr = 1
         then load_leaves io (ino_data_area inode) (entries_per_node BLOCK_SIZE)
                [0..<min (unat (eh_entries hdr)) MAX_INLINE_EXTENTS]
         else ef_fail Unsupported)"

definition tree_blocks :: "EfsInode \<Rightarrow> Error + nat list" where
  "tree_blocks inode = (case read_node_header (ino_data_area inode) of
       None \<Rightarrow> Inr []
     | Some hdr \<Rightarrow>
         if eh_magic hdr \<noteq> EXTENT_MAGIC \<or> eh_depth hdr = 0 then Inr []
         else try_bind (read_entries extent_index_of (ino_data_area inode)
                [0..<min (unat (eh_entries hdr)) MAX_INLINE_EXTENTS]) (\<lambda>idxs. Inr (map child_block idxs)))"

fun free_blocks :: "page_io \<Rightarrow> nat list \<Rightarrow> unit efs" where
  "free_blocks io [] = ef_ret ()"
| "free_blocks io (b # bs) = ef_bind (free_block io b) (\<lambda>_. free_blocks io bs)"

text \<open>Where leaf \<open>i\<close> goes: the tree block the inode already has at that place, or a new one.\<close>

definition put_leaf :: "page_io \<Rightarrow> nat list \<Rightarrow> nat \<Rightarrow> bytes \<Rightarrow> nat efs" where
  "put_leaf io existing i node =
     ef_bind (if i < length existing then ef_ret (existing ! i) else alloc_block io) (\<lambda>block.
     ef_bind (write_block io block node) (\<lambda>_. ef_ret block))"

definition store_extent_map :: "page_io \<Rightarrow> EfsInode \<Rightarrow> ExtentMap \<Rightarrow> EfsInode efs" where
  "store_extent_map io inode m =
     (if length m > max_extents BLOCK_SIZE then ef_fail Unsupported
      else ef_bind (ef_lift (tree_blocks inode)) (\<lambda>existing.
        ef_bind (build_extent_tree m BLOCK_SIZE (put_leaf io existing)) (\<lambda>(data_area, leaves).
        ef_bind (free_blocks io (drop leaves existing)) (\<lambda>_.
        ef_ret (inode\<lparr>ino_data_area := data_area, ino_blocks := word_of_nat (block_count m)\<rparr>)))))"

definition extent_blocks :: "ExtentMap \<Rightarrow> nat list" where
  "extent_blocks m = concat (map (\<lambda>e. map (\<lambda>i. physical_start e + i) [0..<unat (ext_length e)]) m)"

definition free_extent_storage :: "page_io \<Rightarrow> EfsInode \<Rightarrow> unit efs" where
  "free_extent_storage io inode =
     ef_bind (ef_or_default (load_extent_map io inode) []) (\<lambda>m.
     ef_bind (free_blocks io (extent_blocks m)) (\<lambda>_.
     free_blocks io (case tree_blocks inode of Inl e \<Rightarrow> [] | Inr bs \<Rightarrow> bs)))"

section \<open>Nodes\<close>

definition node_image :: "nat \<Rightarrow> EfsExtentHeader \<Rightarrow> ('t \<Rightarrow> bytes) \<Rightarrow> 't list \<Rightarrow> bytes" where
  "node_image bsize h enc es =
     extent_header_bytes h @ concat (map enc es) @ replicate (bsize - 12 - 12 * length es) 0"

lemma extent_header_length [simp]: "length (extent_header_bytes h) = 12"
  by (simp add: extent_header_bytes_def)

lemma extent_header_roundtrip [simp]: "extent_header_of (extent_header_bytes h @ rest) = h"
  by (simp add: extent_header_bytes_def extent_header_of_def codec_simps)

lemma read_node_header_image [simp]: "read_node_header (node_image bsize h enc es) = Some h"
  by (simp add: read_node_header_def node_image_def)

lemma write_node_header_zeros:
  "12 \<le> bsize \<Longrightarrow> write_node_header (replicate bsize 0) h = Ret (node_image bsize h enc [])"
  by (simp add: write_node_header_def node_image_def splice_at_def)

text \<open>What the node codec needs of an entry type: twelve bytes that read back.\<close>

locale node_entry =
  fixes enc :: "'t \<Rightarrow> bytes" and dec :: "bytes \<Rightarrow> 't"
  assumes enc_length: "length (enc e) = 12"
    and dec_enc: "dec (enc e @ rest) = e"
begin

lemma concat_length: "length (concat (map enc es)) = 12 * length es"
  by (induction es) (simp_all add: enc_length)

lemma node_image_length: "12 + 12 * length es \<le> bsize \<Longrightarrow> length (node_image bsize h enc es) = bsize"
  by (simp add: node_image_def concat_length)

lemma write_next:
  assumes "12 + 12 * (length es + 1) \<le> bsize"
  shows "write_node_entry enc (node_image bsize h enc es) (length es) e = Ret (node_image bsize h enc (es @ [e]))"
proof -
  have "splice_at (12 + length es * 12) (enc e) (node_image bsize h enc es) = node_image bsize h enc (es @ [e])"
    using assms by (simp add: node_image_def splice_at_def concat_length enc_length)
  then show ?thesis
    using assms by (simp add: write_node_entry_def node_image_length Let_def)
qed

lemma write_all:
  "12 + 12 * (length es + length fs) \<le> bsize \<Longrightarrow>
     write_node_entries enc (node_image bsize h enc es) (length es) fs = Ret (node_image bsize h enc (es @ fs))"
proof (induction fs arbitrary: es)
  case (Cons f fs)
  then show ?case using Cons.IH [of "es @ [f]"] by (simp add: write_next)
qed simp

lemma read_nth:
  assumes "i < length es" "12 + 12 * length es \<le> bsize"
  shows "read_node_entry dec (node_image bsize h enc es) i = Some (es ! i)"
proof -
  have split: "es = take i es @ es ! i # drop (Suc i) es" using assms(1) by (rule id_take_nth_drop)
  have "drop (12 + 12 * i) (node_image bsize h enc es) = enc (es ! i) @ concat (map enc (drop (Suc i) es)) @
      replicate (bsize - 12 - 12 * length es) 0"
    using assms(1) unfolding node_image_def
    by (subst (1) split) (simp add: concat_length del: append_take_drop_id)
  then show ?thesis
    using assms by (simp add: read_node_entry_def Let_def node_image_length dec_enc mult.commute)
qed

lemma read_upto:
  assumes "12 + 12 * length es \<le> bsize"
  shows "read_entries dec (node_image bsize h enc es) [0..<length es] = Inr es"
proof -
  have "read_entries dec (node_image bsize h enc es) is = Inr (map (\<lambda>i. es ! i) is)" if "\<forall>i \<in> set is. i < length es" for "is"
    using that assms by (induction "is") (auto simp: read_nth)
  from this [of "[0..<length es]"] show ?thesis by (simp add: map_nth)
qed

end

interpretation ext: node_entry extent_bytes extent_of
  by unfold_locales (simp_all add: extent_bytes_def extent_of_def codec_simps)

interpretation idx: node_entry extent_index_bytes extent_index_of
  by unfold_locales (simp_all add: extent_index_bytes_def extent_index_of_def codec_simps)

section \<open>Chunks\<close>

lemma chunks_ok:
  "0 < n \<Longrightarrow> concat (chunks n xs) = xs \<and> (\<forall>c \<in> set (chunks n xs). c \<noteq> [] \<and> length c \<le> n) \<and>
     length (chunks n xs) = (length xs + n - 1) div n"
proof (induction n xs rule: chunks.induct)
  case (1 n xs)
  show ?case
  proof (cases "xs = []")
    case True
    then show ?thesis using 1 by (subst (1 2 3) chunks.simps) simp
  next
    case False
    have step: "chunks n xs = take n xs # chunks n (drop n xs)" using 1(2) False by (subst chunks.simps) simp
    obtain k where k: "length xs = Suc k" using False by (cases xs) auto
    have "(length xs - n + n - 1) div n = k div n" using 1(2) k by (cases "n \<le> Suc k") simp_all
    moreover have "(length xs + n - 1) div n = Suc (k div n)" using 1(2) k by (simp add: div_add_self2)
    ultimately have "(length xs + n - 1) div n = Suc ((length xs - n + n - 1) div n)" by simp
    then show ?thesis using 1 False unfolding step by simp
  qed
qed

section \<open>Blocks in use\<close>

definition used :: "EfsDriver \<Rightarrow> nat \<Rightarrow> bool" where
  "used s b \<longleftrightarrow> b div blocks_per_group s < length (ed_bgd_table s) \<and> \<not> is_free s b \<and> b \<notin> bitmap_blocks s"

text \<open>Counters agree with bitmaps, and no bitmap block is marked free.\<close>

definition fs_ok :: "EfsDriver \<Rightarrow> bool" where
  "fs_ok s \<longleftrightarrow> alloc_ok s \<and> (\<forall>b \<in> bitmap_blocks s. \<not> is_free s b)"

text \<open>From \<open>s\<close> to \<open>s'\<close> the blocks in use other than \<open>T\<close> stay in use with their content.\<close>

definition keeps :: "nat set \<Rightarrow> EfsDriver \<Rightarrow> EfsDriver \<Rightarrow> bool" where
  "keeps T s s' \<longleftrightarrow> same_geometry s s' \<and> (\<forall>c. used s c \<and> c \<notin> T \<longrightarrow> used s' c \<and> view s' c = view s c)"

lemma same_geometry_bitmaps: "same_geometry s s' \<Longrightarrow> bitmap_blocks s' = bitmap_blocks s"
  using same_geometry_fields(1,3) by (auto simp: bitmap_blocks_def)

lemma keeps_refl [simp]: "keeps T s s"
  by (simp add: keeps_def)

lemma keeps_trans: "keeps T s s' \<Longrightarrow> keeps T s' s'' \<Longrightarrow> keeps T s s''"
  by (auto simp: keeps_def intro: same_geometry_trans)

lemma keeps_mono: "keeps T s s' \<Longrightarrow> T \<subseteq> T' \<Longrightarrow> keeps T' s s'"
  by (auto simp: keeps_def)

text \<open>A step that changes neither the counters nor a bitmap.\<close>

lemma alloc_frame:
  assumes "ed_bgd_table s' = ed_bgd_table s" "ed_superblock s' = ed_superblock s" "pages_4k s \<Longrightarrow> pages_4k s'"
    "\<forall>b \<in> bitmap_blocks s. view s' b = view s b"
  shows "alloc_ok s \<Longrightarrow> alloc_ok s'" "is_free s' b \<longleftrightarrow> is_free s b" "used s' b \<longleftrightarrow> used s b" "fs_ok s \<Longrightarrow> fs_ok s'"
proof -
  have m: "bitmap_block_of s' = bitmap_block_of s" "blocks_per_group s' = blocks_per_group s" "bitmap_blocks s' = bitmap_blocks s"
    using assms(1,2) by (auto simp: bitmap_block_of_def blocks_per_group_def bitmap_blocks_def)
  have bm: "g < length (ed_bgd_table s) \<Longrightarrow> bitmap_of s' g = bitmap_of s g" for g
    using assms(4) by (simp add: bitmap_of_def m bitmap_blocks_def)
  have fi: "g < length (ed_bgd_table s) \<Longrightarrow> free_in s' g = free_in s g" for g by (simp add: free_in_def bm m)
  show a: "alloc_ok s \<Longrightarrow> alloc_ok s'" using assms(1-3) by (simp add: alloc_ok_def m fi)
  show f: "is_free s' b \<longleftrightarrow> is_free s b" for b by (auto simp: is_free_def m bm assms(1))
  show "used s' b \<longleftrightarrow> used s b" by (simp add: used_def f m assms(1))
  show "fs_ok s \<Longrightarrow> fs_ok s'" using a f by (simp add: fs_ok_def m)
qed

lemma quiet_frame:
  assumes "quiet s s'"
  shows "fs_ok s' \<longleftrightarrow> fs_ok s" "used s' b \<longleftrightarrow> used s b" "is_free s' b \<longleftrightarrow> is_free s b"
proof -
  have q: "same_meta s s'" "\<forall>b. view s' b = view s b" using assms by (simp_all add: quiet_def)
  note c = alloc_cong [OF q] and geo = same_meta_geometry [OF q(1)]
  show "fs_ok s' \<longleftrightarrow> fs_ok s" by (simp add: fs_ok_def c same_geometry_bitmaps [OF geo])
  show "used s' b \<longleftrightarrow> used s b" "is_free s' b \<longleftrightarrow> is_free s b"
    by (simp_all add: used_def c same_geometry_bitmaps [OF geo] same_geometry_fields [OF geo])
qed

lemma quiet_keeps: "quiet s s' \<Longrightarrow> keeps T s s'"
  by (simp add: keeps_def quiet_frame) (simp add: quiet_def same_meta_geometry)

lemma put_used:
  assumes "fs_ok s" "used s b" "length d = 4096"
  shows "fs_ok (put_page (block_page s b) d s)" "used (put_page (block_page s b) d s) c \<longleftrightarrow> used s c"
    "keeps {b} s (put_page (block_page s b) d s)"
proof -
  let ?s = "put_page (block_page s b) d s"
  note f = alloc_frame [of ?s s]
  have v: "\<forall>c \<in> bitmap_blocks s. view ?s c = view s c" using assms(2) by (auto simp: used_def)
  have p: "pages_4k s \<Longrightarrow> pages_4k ?s" using assms(3) by (simp add: pages_4k_def)
  show "fs_ok ?s" "used ?s c \<longleftrightarrow> used s c" for c using f v p assms(1) by simp_all
  then show "keeps {b} s ?s" by (simp add: keeps_def same_meta_geometry)
qed

lemma touch_used [simp]: "fs_ok (touch idx s) = fs_ok s" "used (touch idx s) b = used s b"
  by (simp_all add: fs_ok_def used_def touch_cong)

lemma block_bound:
  assumes "alloc_ok s" "b div blocks_per_group s < length (ed_bgd_table s)"
  shows "b < 2 ^ 47"
proof -
  have p: "b div blocks_per_group s < 2 ^ 32" "blocks_per_group s \<le> 2 ^ 15" "0 < blocks_per_group s"
    using assms by (auto simp: alloc_ok_def)
  then have "b < 2 ^ 32 * blocks_per_group s" by (simp add: div_less_iff_less_mult)
  also have "\<dots> \<le> 2 ^ 32 * 2 ^ 15" using p(2) by (rule mult_le_mono2)
  finally show ?thesis by simp
qed

text \<open>What asking for one block comes to.\<close>

definition got_block :: "EfsDriver \<Rightarrow> nat \<Rightarrow> EfsDriver \<Rightarrow> bool" where
  "got_block s b s' \<longleftrightarrow> fs_ok s' \<and> is_free s b \<and> \<not> used s b \<and> used s' b \<and> b < 2 ^ 47 \<and> keeps {} s s'"

lemma allocated_one:
  assumes "fs_ok s" "allocated s s' [b]"
  shows "got_block s b s'"
proof -
  have geo: "same_geometry s s'" and free: "is_free s b" "alloc_ok s'" using assms(2) by (auto simp: allocated_def)
  have b: "b \<notin> bitmap_blocks s" using assms(1) free by (auto simp: fs_ok_def)
  have f': "is_free s' c \<longleftrightarrow> is_free s c \<and> c \<noteq> b" for c using assms(2) by (auto simp: allocated_def)
  have "b < 2 ^ 47" using block_bound [of s b] assms(1) free by (simp add: fs_ok_def is_free_def)
  moreover have "keeps {} s s'"
    using geo assms(2) f' same_geometry_fields [OF geo] same_geometry_bitmaps [OF geo]
    by (auto simp: keeps_def allocated_def used_def)
  ultimately show ?thesis
    using free b f' assms(1) same_geometry_fields [OF geo] same_geometry_bitmaps [OF geo]
    by (auto simp: got_block_def fs_ok_def used_def is_free_def)
qed

lemma alloc_one_ok:
  assumes "io_ok io" "fs_ok s"
  shows "\<exists>r s'. alloc_blocks io 1 goal s = Ret (r, s') \<and>
    (case r of Inr bs \<Rightarrow> \<exists>b. bs = [b] \<and> got_block s b s' | Inl e \<Rightarrow> e = NoSpace)"
proof -
  obtain r s' where r: "alloc_blocks io 1 goal s = Ret (r, s')" "case r of
      Inr bs \<Rightarrow> allocated s s' bs \<and> length bs \<le> 1 \<and> (\<forall>b. goal = Some b \<and> is_free s b \<longrightarrow> hd bs = b)
    | Inl e \<Rightarrow> e = NoSpace \<and> (\<forall>b. \<not> is_free s b)"
    using alloc_blocks_ok [of io s 1 goal] assms by (auto simp: fs_ok_def)
  show ?thesis
  proof (cases r)
    case (Inr bs)
    then obtain b where "bs = [b]" "allocated s s' [b]" using r(2) by (cases bs) (auto simp: allocated_def)
    then show ?thesis using r(1) Inr allocated_one [OF assms(2)] by simp
  qed (use r in simp)
qed

lemma alloc_block_ok:
  assumes "io_ok io" "fs_ok s"
  shows "\<exists>r s'. alloc_block io s = Ret (r, s') \<and> (case r of Inr b \<Rightarrow> got_block s b s' | Inl e \<Rightarrow> e = NoSpace)"
proof -
  obtain r s' where "alloc_blocks io 1 None s = Ret (r, s')"
    "case r of Inr bs \<Rightarrow> \<exists>b. bs = [b] \<and> got_block s b s' | Inl e \<Rightarrow> e = NoSpace"
    using alloc_one_ok [OF assms] by blast
  then show ?thesis by (cases r) (auto simp: alloc_block_def)
qed

section \<open>Storing\<close>

definition leaf_image :: "EfsExtent list \<Rightarrow> bytes" where
  "leaf_image c = node_image 4096 (node_header (length c) 340 0) extent_bytes c"

lemma node_sizes [simp]: "entries_per_node BLOCK_SIZE = 340" "MAX_INLINE_EXTENTS = 13" "max_extents BLOCK_SIZE = 4420"
  by (simp_all add: entries_per_node_def BLOCK_SIZE_def MAX_INLINE_EXTENTS_def INODE_DATA_AREA_SIZE_def max_extents_def)

lemma leaf_node_ok:
  "12 + 12 * length es \<le> bsize \<Longrightarrow>
     leaf_node bsize n es = Ret (node_image bsize (node_header (length es) n 0) extent_bytes es)"
  using ext.write_all [of "[]" es bsize] by (simp add: leaf_node_def write_node_header_zeros [where enc = extent_bytes])

lemma child_block_index [simp]: "b < 2 ^ 48 \<Longrightarrow> child_block (index_entry l b) = b"
proof -
  assume "b < 2 ^ 48"
  then have "b div 2 ^ 32 < 2 ^ 16" by (simp add: less_mult_imp_div_less)
  then show ?thesis by (simp add: child_block_def index_entry_def join_hi_lo unat_of_nat)
qed

text \<open>The leaves for the chunks \<open>cs\<close> lie in the blocks \<open>bs\<close>, the first of which are the blocks
  that the inode had before.\<close>

definition leaves_at :: "nat list \<Rightarrow> EfsExtent list list \<Rightarrow> nat list \<Rightarrow> EfsDriver \<Rightarrow> bool" where
  "leaves_at existing cs bs s \<longleftrightarrow> fs_ok s \<and> length bs = length cs \<and> distinct bs \<and>
     (\<forall>b \<in> set bs \<union> set existing. used s b) \<and> (\<forall>b \<in> set bs. b < 2 ^ 48) \<and>
     (\<forall>j < length bs. view s (bs ! j) = leaf_image (cs ! j)) \<and>
     take (length existing) bs = take (length cs) existing \<and> set (drop (length existing) bs) \<inter> set existing = {}"

lemma put_leaf_fits:
  assumes "io_ok io" "leaves_at existing cs bs s" "used s b" "b \<notin> set bs" "b < 2 ^ 48" "length c \<le> 340"
    "length bs < length existing \<Longrightarrow> b = existing ! length bs" "length existing \<le> length bs \<Longrightarrow> b \<notin> set existing"
  shows "leaves_at existing (cs @ [c]) (bs @ [b]) (put_page (block_page s b) (leaf_image c) s)"
proof -
  have len: "length (leaf_image c) = 4096" using assms(6) by (simp add: leaf_image_def ext.node_image_length)
  have fs: "fs_ok s" "length bs = length cs" using assms(2) by (simp_all add: leaves_at_def)
  let ?s = "put_page (block_page s b) (leaf_image c) s"
  have v: "\<forall>j < length (bs @ [b]). view ?s ((bs @ [b]) ! j) = leaf_image ((cs @ [c]) ! j)"
    using assms(2,4) fs(2) by (auto simp: leaves_at_def nth_append less_Suc_eq)
  have t: "take (length existing) (bs @ [b]) = take (length (bs @ [b])) existing"
  proof (cases "length bs < length existing")
    case True
    then show ?thesis using assms(2,7) by (simp add: leaves_at_def take_Suc_conv_app_nth)
  qed (use assms(2) in \<open>simp add: leaves_at_def\<close>)
  have "set (drop (length existing) (bs @ [b])) \<inter> set existing = {}"
    using assms(2,8) by (cases "length existing \<le> length bs") (auto simp: leaves_at_def)
  then show ?thesis
    using v t put_used(1,2) [OF fs(1) assms(3) len] assms(2-5) by (simp add: leaves_at_def)
qed

lemma put_leaf_ok:
  assumes "io_ok io" "leaves_at existing cs bs s" "distinct existing" "\<forall>b \<in> set existing. b < 2 ^ 48" "length c \<le> 340"
  shows "\<exists>r s'. put_leaf io existing (length bs) (leaf_image c) s = Ret (r, s') \<and> (case r of
      Inl e \<Rightarrow> e = NoSpace | Inr b \<Rightarrow> leaves_at existing (cs @ [c]) (bs @ [b]) s' \<and> (b \<in> set existing \<or> \<not> used s b) \<and>
        keeps (set existing) s s')"
proof -
  have len: "length (leaf_image c) = 4096" using assms(5) by (simp add: leaf_image_def ext.node_image_length)
  have fs: "fs_ok s" using assms(2) by (simp add: leaves_at_def)
  show ?thesis
  proof (cases "length bs < length existing")
    case True
    let ?b = "existing ! length bs"
    have "take (length existing) bs = bs" using True by simp
    then have bs: "bs = take (length cs) existing" using assms(2) by (simp add: leaves_at_def)
    have "length bs = length cs" using assms(2) by (simp add: leaves_at_def)
    have nin: "?b \<notin> set bs"
      using True assms(3) \<open>length bs = length cs\<close> by (subst bs) (auto simp: in_set_conv_nth nth_eq_iff_index_eq)
    have u: "used s ?b" "?b < 2 ^ 48" using True assms(2,4) by (simp_all add: leaves_at_def)
    have "keeps (set existing) s (put_page (block_page s ?b) (leaf_image c) s)"
      using put_used(3) [OF fs u(1) len] True keeps_mono [of "{?b}" s _ "set existing"] by simp
    moreover have "leaves_at existing (cs @ [c]) (bs @ [?b]) (put_page (block_page s ?b) (leaf_image c) s)"
      by (rule put_leaf_fits [OF assms(1,2) u(1) nin u(2) assms(5)]) (use True in auto)
    ultimately show ?thesis
      using True assms(1) len by (simp add: put_leaf_def)
  next
    case False
    obtain r s1 where r: "alloc_block io s = Ret (r, s1)"
      "case r of Inr b \<Rightarrow> got_block s b s1 | Inl e \<Rightarrow> e = NoSpace"
      using alloc_block_ok [OF assms(1) fs] by blast
    show ?thesis
    proof (cases r)
      case (Inl e)
      then show ?thesis using False r by (simp add: put_leaf_def)
    next
      case (Inr b)
      then have b: "fs_ok s1" "\<not> used s b" "used s1 b" "b < 2 ^ 48" "keeps {} s s1"
        using r(2) by (auto simp: got_block_def)
      have "leaves_at existing cs bs s1" using assms(2) b(1,5) by (auto simp: leaves_at_def keeps_def)
      then have "leaves_at existing (cs @ [c]) (bs @ [b]) (put_page (block_page s1 b) (leaf_image c) s1)"
        using assms b False by (intro put_leaf_fits) (auto simp: leaves_at_def)
      moreover have "keeps (set existing) s (put_page (block_page s1 b) (leaf_image c) s1)"
        using put_used(2) [OF b(1,3) len] b(2,5) by (auto simp: keeps_def same_geometry_def)
      ultimately show ?thesis
        using False Inr r(1) assms(1) len b(2) by (simp add: put_leaf_def)
    qed
  qed
qed

definition leaf_index :: "EfsExtent list \<Rightarrow> nat \<Rightarrow> EfsExtentIndex" where
  "leaf_index c b = index_entry (ext_logical_block (c ! 0)) b"

abbreviation index_node :: "EfsExtentHeader \<Rightarrow> EfsExtent list list \<Rightarrow> nat list \<Rightarrow> bytes" where
  "index_node h cs bs \<equiv> node_image INODE_DATA_AREA_SIZE h extent_index_bytes (map2 leaf_index cs bs)"

definition emitted :: "nat list \<Rightarrow> nat list \<Rightarrow> EfsExtentHeader \<Rightarrow> EfsExtent list list \<Rightarrow> EfsDriver \<Rightarrow> Error + bytes \<Rightarrow> EfsDriver \<Rightarrow> bool" where
  "emitted existing placed h cs s r s' \<longleftrightarrow> (case r of Inl e \<Rightarrow> e = NoSpace
     | Inr d \<Rightarrow> \<exists>bs. leaves_at existing cs bs s' \<and> d = index_node h cs bs \<and> keeps (set existing) s s' \<and>
         (\<forall>b \<in> set bs. b \<in> set existing \<union> set placed \<or> \<not> used s b))"

lemma emit_leaves_ok:
  assumes "io_ok io" "distinct existing" "\<forall>b \<in> set existing. b < 2 ^ 48"
  shows "leaves_at existing ds bs s \<Longrightarrow> \<forall>c \<in> set cs. length c \<le> 340 \<Longrightarrow> length ds + length cs \<le> 13 \<Longrightarrow>
    \<exists>r s'. emit_leaves (put_leaf io existing) BLOCK_SIZE 340 (length ds) cs (index_node h ds bs) s = Ret (r, s') \<and>
      emitted existing bs h (ds @ cs) s r s'"
proof (induction cs arbitrary: ds bs s)
  case (Cons c cs)
  have len: "length bs = length ds" using Cons.prems(1) by (simp add: leaves_at_def)
  obtain r s1 where r: "put_leaf io existing (length ds) (leaf_image c) s = Ret (r, s1)" "case r of
      Inl e \<Rightarrow> e = NoSpace | Inr b \<Rightarrow> leaves_at existing (ds @ [c]) (bs @ [b]) s1 \<and>
        (b \<in> set existing \<or> \<not> used s b) \<and> keeps (set existing) s s1"
    using put_leaf_ok [OF assms(1) Cons.prems(1) assms(2,3)] Cons.prems(2) len by fastforce
  have leaf: "leaf_node BLOCK_SIZE 340 c = Ret (leaf_image c)"
    using leaf_node_ok [of c BLOCK_SIZE 340] Cons.prems(2) by (simp add: leaf_image_def BLOCK_SIZE_def)
  show ?case
  proof (cases r)
    case (Inl e)
    then show ?thesis using r leaf by (simp add: emitted_def)
  next
    case (Inr b)
    then have b: "leaves_at existing (ds @ [c]) (bs @ [b]) s1" "keeps (set existing) s s1" "b \<in> set existing \<or> \<not> used s b"
      using r(2) by simp_all
    have w: "write_node_entry extent_index_bytes (index_node h ds bs) (length ds) (leaf_index c b) =
        Ret (index_node h (ds @ [c]) (bs @ [b]))"
      using idx.write_next [of "map2 leaf_index ds bs"] Cons.prems(3) len by (simp add: INODE_DATA_AREA_SIZE_def)
    obtain r' s' where r': "emit_leaves (put_leaf io existing) BLOCK_SIZE 340 (length (ds @ [c])) cs
        (index_node h (ds @ [c]) (bs @ [b])) s1 = Ret (r', s')" "emitted existing (bs @ [b]) h ((ds @ [c]) @ cs) s1 r' s'"
      using Cons.IH [OF b(1)] Cons.prems by auto
    have "emit_leaves (put_leaf io existing) BLOCK_SIZE 340 (length ds) (c # cs) (index_node h ds bs) s = Ret (r', s')"
      using r(1) Inr leaf w r'(1) by (simp flip: leaf_index_def)
    moreover have "emitted existing bs h (ds @ c # cs) s r' s'"
    proof (cases r')
      case (Inr d)
      then obtain bs' where bs': "leaves_at existing (ds @ c # cs) bs' s'" "d = index_node h (ds @ c # cs) bs'"
        "keeps (set existing) s1 s'" "\<forall>k \<in> set bs'. k \<in> set existing \<or> k \<in> set bs \<or> k = b \<or> \<not> used s1 k"
        using r'(2) by (auto simp: emitted_def)
      have "\<forall>k \<in> set bs'. k \<in> set existing \<union> set bs \<or> \<not> used s k"
        using bs'(4) b(2,3) by (auto simp: keeps_def)
      then show ?thesis using Inr bs'(1,2) keeps_trans [OF b(2) bs'(3)] unfolding emitted_def by auto
    qed (use r'(2) in \<open>simp add: emitted_def\<close>)
    ultimately show ?thesis by auto
  qed
qed (auto simp: emitted_def)

lemma free_blocks_ok:
  assumes "io_ok io"
  shows "fs_ok s \<Longrightarrow> distinct bs \<Longrightarrow> \<forall>b \<in> set bs. used s b \<Longrightarrow>
    \<exists>s'. free_blocks io bs s = Ret (Inr (), s') \<and> fs_ok s' \<and> keeps (set bs) s s'"
proof (induction bs arbitrary: s)
  case (Cons b bs)
  then have u: "used s b" by simp
  obtain s1 where s1: "free_block io b s = Ret (Inr (), s1)" "alloc_ok s1" "same_geometry s s1"
    "\<forall>c. is_free s1 c \<longleftrightarrow> is_free s c \<or> c = b" "\<forall>c. c \<notin> bitmap_blocks s \<longrightarrow> view s1 c = view s c"
    using free_block_ok [OF assms, of s b] Cons.prems(1) u by (auto simp: fs_ok_def used_def)
  note geo = same_geometry_fields [OF s1(3)] same_geometry_bitmaps [OF s1(3)]
  have us: "used s1 c \<longleftrightarrow> used s c \<and> c \<noteq> b" for c using s1(4) geo u by (auto simp: used_def)
  have k: "keeps {b} s s1" using us s1(3,5) by (auto simp: keeps_def used_def)
  have "fs_ok s1" using s1(2,4) geo Cons.prems(1) u by (auto simp: fs_ok_def used_def)
  then obtain s' where s': "free_blocks io bs s1 = Ret (Inr (), s')" "fs_ok s'" "keeps (set bs) s1 s'"
    using Cons us by (metis distinct.simps(2) list.set_intros(2))
  have "keeps (set (b # bs)) s s'"
    using k s'(3) by (auto intro: keeps_trans keeps_mono)
  then show ?case using s1(1) s'(1,2) by simp
qed simp

section \<open>Loading\<close>

lemma read_leaf_image:
  "length c \<le> 340 \<Longrightarrow> read_leaf_entries (leaf_image c) (unat (word_of_nat (length c) :: u16)) 340 = Inr c"
  using ext.read_upto [of c 4096 "node_header (length c) 340 0"]
  by (simp add: read_leaf_entries_def leaf_image_def unat_of_nat)

lemma load_leaves_ok:
  assumes "io_ok io" "length cs \<le> 13" "length bs = length cs" "\<forall>c \<in> set cs. length c \<le> 340" "\<forall>b \<in> set bs. b < 2 ^ 48"
  shows "\<forall>j < length cs. view s (bs ! j) = leaf_image (cs ! j) \<Longrightarrow> \<forall>i \<in> set is. i < length cs \<Longrightarrow>
    \<exists>s'. load_leaves io (index_node h cs bs) 340 is s = Ret (Inr (concat (map (\<lambda>i. cs ! i) is)), s') \<and> quiet s s'"
proof (induction "is" arbitrary: s)
  case (Cons i "is")
  then have i: "i < length cs" by simp
  let ?s = "touch (block_page s (bs ! i)) s"
  have e: "read_node_entry extent_index_of (index_node h cs bs) i = Some (leaf_index (cs ! i) (bs ! i))"
    using idx.read_nth [of i "map2 leaf_index cs bs" INODE_DATA_AREA_SIZE h] i assms(2,3)
    by (simp add: INODE_DATA_AREA_SIZE_def)
  have b: "child_block (leaf_index (cs ! i) (bs ! i)) = bs ! i" using i assms(3,5) by (simp add: leaf_index_def)
  have hdr: "read_node_header (leaf_image (cs ! i)) = Some (node_header (length (cs ! i)) 340 0)" by (simp add: leaf_image_def)
  have l: "read_leaf_entries (leaf_image (cs ! i)) (unat (word_of_nat (length (cs ! i)) :: u16)) 340 = Inr (cs ! i)"
    using i assms(4) by (simp add: read_leaf_image)
  obtain s' where "load_leaves io (index_node h cs bs) 340 is ?s = Ret (Inr (concat (map (\<lambda>i. cs ! i) is)), s')" "quiet ?s s'"
    using Cons.IH [of ?s] Cons.prems by auto
  moreover have "quiet s s'" using calculation(2) quiet_trans quiet_simps(2) by blast
  ultimately show ?case
    using e b hdr l Cons.prems(1) i assms(1) by (simp add: node_header_def ef_lift_def)
qed simp

section \<open>The round trip\<close>

text \<open>The inode stores the map \<open>m\<close>: in its own data area, or in leaves that it indexes.\<close>

definition stored :: "EfsDriver \<Rightarrow> EfsInode \<Rightarrow> ExtentMap \<Rightarrow> bool" where
  "stored s inode m \<longleftrightarrow> inode_wf inode \<and>
     (length m \<le> 13 \<and> ino_data_area inode = node_image INODE_DATA_AREA_SIZE (node_header (length m) 13 0) extent_bytes m \<or>
      (\<exists>cs bs. m = concat cs \<and> length cs \<le> 13 \<and> (\<forall>c \<in> set cs. length c \<le> 340) \<and> leaves_at [] cs bs s \<and>
         ino_data_area inode = index_node (node_header (length cs) 13 1) cs bs))"

text \<open>The tree blocks that an inode names are distinct and in use; nothing is asked of what they
  contain.\<close>

definition tree_ok :: "EfsDriver \<Rightarrow> EfsInode \<Rightarrow> bool" where
  "tree_ok s inode \<longleftrightarrow> (\<exists>bs. tree_blocks inode = Inr bs \<and> distinct bs \<and> (\<forall>b \<in> set bs. used s b))"

definition tree_set :: "EfsInode \<Rightarrow> nat set" where
  "tree_set inode = (case tree_blocks inode of Inl _ \<Rightarrow> {} | Inr bs \<Rightarrow> set bs)"

lemma node_header_simps [simp]:
  "eh_magic (node_header n k d) = EXTENT_MAGIC" "eh_depth (node_header n k d) = d"
  "eh_entries (node_header n k d) = word_of_nat n"
  by (simp_all add: node_header_def)

lemma tree_blocks_index:
  assumes "length cs \<le> 13" "leaves_at [] cs bs s" "ino_data_area inode = index_node (node_header (length cs) 13 1) cs bs"
  shows "tree_blocks inode = Inr bs"
proof -
  have len: "length bs = length cs" and b: "\<forall>b \<in> set bs. b < 2 ^ 48" using assms(2) by (auto simp: leaves_at_def)
  have "read_entries extent_index_of (ino_data_area inode) [0..<length cs] = Inr (map2 leaf_index cs bs)"
    using idx.read_upto [of "map2 leaf_index cs bs" INODE_DATA_AREA_SIZE "node_header (length cs) 13 1"] assms(1,3) len
    by (simp add: INODE_DATA_AREA_SIZE_def)
  moreover have "map child_block (map2 leaf_index cs bs) = bs"
    using len b by (auto simp: list_eq_iff_nth_eq leaf_index_def)
  ultimately show ?thesis
    using assms(1,3) by (simp add: tree_blocks_def unat_of_nat)
qed

lemma stored_tree:
  assumes "stored s inode m"
  shows "tree_ok s inode"
  using assms unfolding stored_def
proof (elim conjE disjE exE)
  assume "ino_data_area inode = node_image INODE_DATA_AREA_SIZE (node_header (length m) 13 0) extent_bytes m"
  then show ?thesis by (simp add: tree_ok_def tree_blocks_def)
next
  fix cs bs assume h: "length cs \<le> 13" "leaves_at [] cs bs s" "ino_data_area inode = index_node (node_header (length cs) 13 1) cs bs"
  show ?thesis using tree_blocks_index [OF h] h(2) by (simp add: tree_ok_def leaves_at_def)
qed

lemma stored_leavesI:
  assumes "concat cs = m" "length cs \<le> 13" "\<forall>c \<in> set cs. length c \<le> 340" "leaves_at [] cs bs s"
    "ino_data_area inode = index_node (node_header (length cs) 13 1) cs bs"
  shows "stored s inode m"
proof -
  have "length (ino_data_area inode) = INODE_DATA_AREA_SIZE"
    unfolding assms(5) by (rule idx.node_image_length) (use assms(2) in \<open>simp add: INODE_DATA_AREA_SIZE_def\<close>)
  then show ?thesis unfolding stored_def inode_wf_def using assms by blast
qed

lemma stored_load:
  assumes "io_ok io" "stored s inode m"
  shows "\<exists>s'. load_extent_map io inode s = Ret (Inr m, s') \<and> quiet s s'"
  using assms(2) unfolding stored_def
proof (elim conjE disjE exE)
  assume h: "length m \<le> 13" "ino_data_area inode = node_image INODE_DATA_AREA_SIZE (node_header (length m) 13 0) extent_bytes m"
  then show ?thesis
    using ext.read_upto [of m INODE_DATA_AREA_SIZE "node_header (length m) 13 0"]
    by (simp add: load_extent_map_def read_leaf_entries_def ef_lift_def unat_of_nat INODE_DATA_AREA_SIZE_def)
next
  fix cs bs assume h: "m = concat cs" "length cs \<le> 13" "\<forall>c \<in> set cs. length c \<le> 340" "leaves_at [] cs bs s"
    "ino_data_area inode = index_node (node_header (length cs) 13 1) cs bs"
  obtain s' where "load_leaves io (index_node (node_header (length cs) 13 1) cs bs) 340 [0..<length cs] s =
      Ret (Inr (concat (map (\<lambda>i. cs ! i) [0..<length cs])), s')" "quiet s s'"
    using load_leaves_ok [OF assms(1) h(2) _ h(3), of bs s "[0..<length cs]" "node_header (length cs) 13 1"] h(4) by (auto simp: leaves_at_def)
  then show ?thesis using h(1,2,5) by (simp add: load_extent_map_def unat_of_nat map_nth)
qed

lemma stored_cong:
  assumes "stored s inode m" "fs_ok s'" "\<forall>b \<in> tree_set inode. used s b \<longrightarrow> used s' b \<and> view s' b = view s b"
  shows "stored s' inode m"
  using assms(1) unfolding stored_def
proof (elim conjE disjE exE)
  fix cs bs assume h: "inode_wf inode" "m = concat cs" "length cs \<le> 13" "\<forall>c \<in> set cs. length c \<le> 340" "leaves_at [] cs bs s"
    "ino_data_area inode = index_node (node_header (length cs) 13 1) cs bs"
  have "tree_set inode = set bs" using tree_blocks_index [OF h(3,5,6)] by (simp add: tree_set_def)
  then have "\<forall>b \<in> set bs. used s' b \<and> view s' b = view s b" using h(5) assms(3) by (simp add: leaves_at_def)
  then have "leaves_at [] cs bs s'" using h(5) assms(2) by (simp add: leaves_at_def)
  then show "inode_wf inode \<and> (length m \<le> 13 \<and> ino_data_area inode = node_image INODE_DATA_AREA_SIZE (node_header (length m) 13 0) extent_bytes m \<or>
      (\<exists>cs bs. m = concat cs \<and> length cs \<le> 13 \<and> (\<forall>c \<in> set cs. length c \<le> 340) \<and> leaves_at [] cs bs s' \<and>
         ino_data_area inode = index_node (node_header (length cs) 13 1) cs bs))"
    using h by blast
qed simp

lemma stored_keeps:
  assumes "stored s inode m" "keeps T s s'" "fs_ok s'" "tree_set inode \<inter> T = {}"
  shows "stored s' inode m"
  by (rule stored_cong [OF assms(1,3)]) (use assms(2,4) in \<open>auto simp: keeps_def\<close>)

lemma leaves_surplus:
  assumes "leaves_at existing cs bs s" "distinct existing"
  shows "leaves_at [] cs bs s" "set (drop (length cs) existing) \<inter> set bs = {}"
proof -
  show "leaves_at [] cs bs s" using assms(1) by (simp add: leaves_at_def)
  show "set (drop (length cs) existing) \<inter> set bs = {}"
  proof (cases "length cs \<le> length existing")
    case True
    then have "length bs \<le> length existing" using assms(1) by (simp add: leaves_at_def)
    then have "take (length existing) bs = bs" by simp
    then have "bs = take (length cs) existing" using assms(1) by (simp add: leaves_at_def)
    then show ?thesis using assms(2) set_take_disj_set_drop_if_distinct [of existing "length cs" "length cs"] by auto
  qed simp
qed

text \<open>What storing a map comes to.\<close>

definition stored_result :: "EfsDriver \<Rightarrow> EfsInode \<Rightarrow> ExtentMap \<Rightarrow> Error + EfsInode \<Rightarrow> EfsDriver \<Rightarrow> bool" where
  "stored_result s inode m r s' \<longleftrightarrow> (case r of Inl e \<Rightarrow> e = NoSpace
     | Inr inode' \<Rightarrow> fs_ok s' \<and> stored s' inode' m \<and> keeps (tree_set inode) s s' \<and>
         (\<forall>b \<in> tree_set inode'. b \<in> tree_set inode \<or> \<not> used s b) \<and>
         inode' = inode\<lparr>ino_data_area := ino_data_area inode', ino_blocks := word_of_nat (block_count m)\<rparr>)"

lemma store_inline_ok:
  assumes "io_ok io" "fs_ok s" "length m \<le> 13"
    and ex: "tree_blocks inode = Inr ex" "distinct ex" "\<forall>b \<in> set ex. used s b"
  shows "\<exists>r s'. store_extent_map io inode m s = Ret (r, s') \<and> stored_result s inode m r s'"
proof -
  obtain s' where s': "free_blocks io ex s = Ret (Inr (), s')" "fs_ok s'" "keeps (set ex) s s'"
    using free_blocks_ok [OF assms(1,2) ex(2,3)] by blast
  have "leaf_node INODE_DATA_AREA_SIZE 13 m = Ret (node_image INODE_DATA_AREA_SIZE (node_header (length m) 13 0) extent_bytes m)"
    using assms(3) by (intro leaf_node_ok) (simp add: INODE_DATA_AREA_SIZE_def)
  moreover have "length (node_image INODE_DATA_AREA_SIZE (node_header (length m) 13 0) extent_bytes m) = INODE_DATA_AREA_SIZE"
    using assms(3) by (simp add: ext.node_image_length INODE_DATA_AREA_SIZE_def)
  ultimately show ?thesis using assms(3) s' ex(1)
    by (simp add: store_extent_map_def ef_lift_def build_extent_tree_def Let_def stored_def inode_wf_def stored_result_def tree_set_def)
      (simp add: tree_blocks_def)
qed

lemma store_leaves_ok:
  assumes "io_ok io" "fs_ok s" "13 < length m" "length m \<le> max_extents BLOCK_SIZE"
    and ex: "tree_blocks inode = Inr ex" "distinct ex" "\<forall>b \<in> set ex. used s b"
  shows "\<exists>r s'. store_extent_map io inode m s = Ret (r, s') \<and> stored_result s inode m r s'"
proof -
  have ex48: "\<forall>b \<in> set ex. b < 2 ^ 48"
    using ex(3) block_bound assms(2) by (fastforce simp: fs_ok_def used_def)
  let ?cs = "chunks 340 m" and ?h = "node_header ((339 + length m) div 340) 13 1"
  have cs: "concat ?cs = m" "\<forall>c \<in> set ?cs. length c \<le> 340" "length ?cs = (339 + length m) div 340" "length ?cs \<le> 13"
    using chunks_ok [of 340 m] assms(4) by auto
  have start: "leaves_at ex [] [] s" using assms(2) ex(3) by (simp add: leaves_at_def)
  obtain r s1 where r: "emit_leaves (put_leaf io ex) BLOCK_SIZE 340 0 ?cs (index_node ?h [] []) s = Ret (r, s1)"
    "emitted ex [] ?h ?cs s r s1"
    using emit_leaves_ok [OF assms(1) ex(2) ex48 start cs(2), of ?h] cs(4) by auto
  have "write_node_header (replicate INODE_DATA_AREA_SIZE 0) ?h = Ret (index_node ?h [] [])"
    by (simp add: write_node_header_zeros INODE_DATA_AREA_SIZE_def)
  then have run: "store_extent_map io inode m s = ef_bind (\<lambda>_. Ret (r, s1)) (\<lambda>d. ef_bind (free_blocks io (drop (length ?cs) ex))
      (\<lambda>_. ef_ret (inode\<lparr>ino_data_area := d, ino_blocks := word_of_nat (block_count m)\<rparr>))) s"
    using assms(3) ex(1) assms(4) r(1) cs(3)
    by (cases r) (simp_all add: store_extent_map_def ef_lift_def build_extent_tree_def Let_def)
  show ?thesis
  proof (cases r)
    case (Inl e)
    then show ?thesis using run r(2) by (simp add: emitted_def stored_result_def)
  next
    case (Inr d)
    then obtain bs where bs: "leaves_at ex ?cs bs s1" "d = index_node ?h ?cs bs" "keeps (set ex) s s1"
      "\<forall>b \<in> set bs. b \<in> set ex \<or> \<not> used s b"
      using r(2) by (auto simp: emitted_def)
    note lv = leaves_surplus [OF bs(1) ex(2)]
    let ?inode = "inode\<lparr>ino_data_area := d, ino_blocks := word_of_nat (block_count m)\<rparr>"
    have "fs_ok s1" "\<forall>b \<in> set (drop (length ?cs) ex). used s1 b" using bs(1) by (auto simp: leaves_at_def dest: in_set_dropD)
    then obtain s' where s': "free_blocks io (drop (length ?cs) ex) s1 = Ret (Inr (), s')" "fs_ok s'"
      "keeps (set (drop (length ?cs) ex)) s1 s'"
      using free_blocks_ok [OF assms(1), of s1 "drop (length ?cs) ex"] ex(2) by auto
    have st: "stored s1 ?inode m"
      by (rule stored_leavesI [OF cs(1,4,2) lv(1)]) (use bs(2) cs(3) in simp)
    have ts: "tree_set ?inode = set bs"
      using tree_blocks_index [OF cs(4) lv(1), of ?inode] bs(2) cs(3) by (simp add: tree_set_def)
    then have "stored s' ?inode m" using stored_keeps [OF st s'(3,2)] lv(2) by auto
    moreover have "keeps (set ex) s s'"
      using bs(3) s'(3) by (auto intro: keeps_trans keeps_mono dest: in_set_dropD)
    ultimately show ?thesis using run Inr s'(1,2) ex(1) bs(4) ts by (simp add: stored_result_def) (simp add: tree_set_def)
  qed
qed

lemma store_extent_map_ok:
  assumes "io_ok io" "fs_ok s" "tree_ok s inode" "length m \<le> max_extents BLOCK_SIZE"
  shows "\<exists>r s'. store_extent_map io inode m s = Ret (r, s') \<and> stored_result s inode m r s'"
  using assms store_inline_ok store_leaves_ok unfolding tree_ok_def by (metis not_le)

text \<open>C17. Storing an extent map and loading it.  Whatever tree blocks the inode had, and whether the
  new map fits into the inode or needs leaf blocks, \<open>store_extent_map\<close> ends; it fails only
  because no block is free.  The inode it returns loads as the map that was stored, its tree
  blocks are distinct blocks in use, the bitmaps and counters agree, and every block in use
  that was not a tree block of the inode is untouched.\<close>

theorem extent_map_roundtrip:
  assumes "io_ok io" "fs_ok s" "tree_ok s inode" "length m \<le> max_extents BLOCK_SIZE"
  shows "\<exists>r s'. store_extent_map io inode m s = Ret (r, s') \<and> (case r of
      Inl e \<Rightarrow> e = NoSpace
    | Inr inode' \<Rightarrow> fs_ok s' \<and> tree_ok s' inode' \<and> keeps (tree_set inode) s s' \<and>
        (\<exists>s''. load_extent_map io inode' s' = Ret (Inr m, s'')))"
proof -
  obtain r s' where r: "store_extent_map io inode m s = Ret (r, s')" "stored_result s inode m r s'"
    using store_extent_map_ok [OF assms] by blast
  then show ?thesis
    using stored_load [OF assms(1)] stored_tree by (cases r) (fastforce simp: stored_result_def)+
qed

definition example_extents :: ExtentMap where
  "example_extents = map (\<lambda>i. new_extent (word_of_nat (2 * i)) 1 (100 + 2 * i)) [0..<20]"

lemma example_driver_fs: "fs_ok example_driver"
proof -
  have "bitmap_blocks example_driver = {3}"
    by (simp add: bitmap_blocks_def example_driver_def lessThan_Suc bitmap_block_of_def example_group_def)
  moreover have "\<not> is_free example_driver 3" using example_bits [of 3] by (simp add: is_free_def example_bitmap)
  ultimately show ?thesis by (simp add: fs_ok_def example_driver_alloc)
qed

lemma fresh_inode_tree: "tree_ok s (inode_new mode now)"
  by (simp add: tree_ok_def tree_blocks_def read_node_header_def inode_new_def extent_header_of_def EXTENT_MAGIC_def
      get_u16_def get_le_def slice_at_def INODE_DATA_AREA_SIZE_def numeral_eq_Suc)

theorem extent_map_roundtrip_witness:
  "\<exists>r s'. store_extent_map good_io (inode_new S_IFREG (100, 5)) example_extents example_driver = Ret (r, s') \<and> (case r of
      Inl e \<Rightarrow> e = NoSpace
    | Inr inode' \<Rightarrow> fs_ok s' \<and> tree_ok s' inode' \<and> keeps (tree_set (inode_new S_IFREG (100, 5))) example_driver s' \<and>
        (\<exists>s''. load_extent_map good_io inode' s' = Ret (Inr example_extents, s'')))"
  by (rule extent_map_roundtrip [OF good_io_ok example_driver_fs fresh_inode_tree]) (simp add: example_extents_def)

end
