(* ===== verification/Efs_File.thy ===== *)
theory Efs_File
  imports Efs_Extent_Store
begin

text \<open>
  File data in the EFS driver (\<open>kernel/src/fs/efs/mod.rs\<close>): mapping logical blocks to
  physical ones, reading, writing, and the change from inline data to extents.  Data of
  regular files bypasses the block page cache: \<open>block_read\<close> and \<open>block_write\<close> address the
  device by sectors, while inodes, bitmaps, tree blocks and directory blocks go through the
  cache.  The clock is the parameter \<open>now\<close>.
\<close>

section \<open>The device, past the cache\<close>

definition sector :: "EfsDriver \<Rightarrow> nat \<Rightarrow> bytes" where
  "sector s lba = slice_at (lba mod 8 * 512) 512 (ed_disk s (lba div 8))"

definition dev_sectors :: "EfsDriver \<Rightarrow> nat \<Rightarrow> nat \<Rightarrow> bytes" where
  "dev_sectors s lba n = concat (map (sector s) [lba..<lba + n])"

definition put_sector :: "nat \<Rightarrow> bytes \<Rightarrow> (nat \<Rightarrow> bytes) \<Rightarrow> nat \<Rightarrow> bytes" where
  "put_sector lba data disk = disk(lba div 8 := splice_at (lba mod 8 * 512) data (disk (lba div 8)))"

definition put_sectors :: "nat \<Rightarrow> bytes \<Rightarrow> (nat \<Rightarrow> bytes) \<Rightarrow> nat \<Rightarrow> bytes" where
  "put_sectors lba data disk =
     foldl (\<lambda>d i. put_sector (lba + i) (slice_at (i * 512) 512 data) d) disk [0..<length data div 512]"

definition block_read :: "page_io \<Rightarrow> nat \<Rightarrow> nat \<Rightarrow> bytes efs" where
  "block_read io lba n s = (case dio_read io lba of
       Some e \<Rightarrow> Ret (Inl e, s) | None \<Rightarrow> Ret (Inr (dev_sectors s lba (n div 512)), s))"

definition block_write :: "page_io \<Rightarrow> nat \<Rightarrow> bytes \<Rightarrow> unit efs" where
  "block_write io lba data s = (case dio_write io lba of
       Some e \<Rightarrow> Ret (Inl e, s) | None \<Rightarrow> Ret (Inr (), s\<lparr>ed_disk := put_sectors lba data (ed_disk s)\<rparr>))"

section \<open>Mapping blocks\<close>

datatype NewBlock = Zeroed | Overwritten

definition with_checksum :: "EfsInode \<Rightarrow> EfsInode" where
  "with_checksum i = i\<lparr>ino_checksum := checksum_inode i\<rparr>"

definition map_new_block :: "page_io \<Rightarrow> nat \<Rightarrow> EfsInode \<Rightarrow> ExtentMap \<Rightarrow> u32 \<Rightarrow> NewBlock \<Rightarrow> nat \<Rightarrow> nat efs" where
  "map_new_block io ino inode extents logical_block new phys_block =
     ef_bind (if new = Zeroed then write_block io phys_block (replicate BLOCK_SIZE 0) else ef_ret ()) (\<lambda>_.
     ef_bind (ef_run (insert_block logical_block phys_block extents)) (\<lambda>extents'.
     ef_bind (store_extent_map io inode extents') (\<lambda>updated.
     ef_bind (write_inode io ino (with_checksum updated)) (\<lambda>_. ef_ret phys_block))))"

definition ensure_block_for_logical :: "page_io \<Rightarrow> nat \<Rightarrow> u32 \<Rightarrow> NewBlock \<Rightarrow> nat efs" where
  "ensure_block_for_logical io ino logical_block new =
     ef_bind (read_inode io ino) (\<lambda>inode.
     ef_bind (load_extent_map io inode) (\<lambda>extents.
     ef_bind (ef_run (lookup extents logical_block)) (\<lambda>found. case found of
       Some phys \<Rightarrow> ef_ret phys
     | None \<Rightarrow>
         ef_bind (ef_run (goal_for extents logical_block)) (\<lambda>goal.
         ef_bind (alloc_blocks io 1 goal) (\<lambda>bs. case bs of
           [] \<Rightarrow> ef_fail NoSpace
         | phys_block # _ \<Rightarrow> map_new_block io ino inode extents logical_block new phys_block)))))"

definition convert_inline_to_extents :: "page_io \<Rightarrow> nat \<Rightarrow> EfsInode \<Rightarrow> unit efs" where
  "convert_inline_to_extents io ino inode =
     (let preserved = min (unat (ino_size inode)) INODE_DATA_AREA_SIZE;
          inline_data = take preserved (ino_data_area inode)
      in ef_bind (alloc_block io) (\<lambda>phys_block.
         ef_bind (write_block io phys_block (splice_at 0 inline_data (replicate BLOCK_SIZE 0))) (\<lambda>_.
           let data_area = splice_at 12 (extent_bytes (new_extent 0 1 phys_block))
                 (splice_at 0 (extent_header_bytes (node_header 1 MAX_INLINE_EXTENTS 0)) (replicate INODE_DATA_AREA_SIZE 0));
               updated = inode\<lparr>ino_flags := ino_flags inode AND NOT INODE_FLAG_INLINE_DATA,
                 ino_data_area := data_area, ino_blocks := 1\<rparr>
           in write_inode io ino (with_checksum updated))))"

section \<open>Batches\<close>

fun unmapped :: "ExtentMap \<Rightarrow> u32 list \<Rightarrow> u32 list run" where
  "unmapped extents [] = Ret []"
| "unmapped extents (lb # lbs) =
     run_bind (lookup extents lb) (\<lambda>r. run_bind (unmapped extents lbs) (\<lambda>rest.
       Ret (if r = None then lb # rest else rest)))"

text \<open>Each round asks for what is still missing, behind the last block it got.  A round that
  returned nothing would repeat for ever; the assertion excludes it.\<close>

function fill_pool :: "page_io \<Rightarrow> nat \<Rightarrow> nat option \<Rightarrow> nat list \<Rightarrow> nat list efs" where
  "fill_pool io need goal pool s =
     (if length pool < need
      then case alloc_blocks io (need - length pool) (if pool = [] then goal else Some (last pool + 1)) s of
          Panic \<Rightarrow> Panic
        | Ret (Inl e, s') \<Rightarrow> Ret (Inl e, s')
        | Ret (Inr run, s') \<Rightarrow> if run = [] then Panic else fill_pool io need goal (pool @ run) s'
      else Ret (Inr pool, s))"
  by pat_completeness auto
termination by (relation "measure (\<lambda>(io, need, goal, pool, s). need - length pool)") (auto simp: neq_Nil_conv)

declare fill_pool.simps [simp del]

fun take_from_pool :: "ExtentMap \<Rightarrow> u32 list \<Rightarrow> nat list \<Rightarrow> (ExtentMap \<times> nat list \<times> nat list) run" where
  "take_from_pool extents [] pool = Ret (extents, [], pool)"
| "take_from_pool extents (lb # lbs) pool =
     run_bind (lookup extents lb) (\<lambda>r. case r of
       Some phys \<Rightarrow> run_bind (take_from_pool extents lbs pool) (\<lambda>(m, ps, rest). Ret (m, phys # ps, rest))
     | None \<Rightarrow> (case pool of
         [] \<Rightarrow> Panic
       | phys_block # pool' \<Rightarrow>
           run_bind (insert_block lb phys_block extents) (\<lambda>extents'.
             run_bind (take_from_pool extents' lbs pool') (\<lambda>(m, ps, rest). Ret (m, phys_block # ps, rest)))))"

definition ensure_blocks_for_logical_batch ::
  "page_io \<Rightarrow> u64 \<Rightarrow> nat \<Rightarrow> u32 list \<Rightarrow> u64 option \<Rightarrow> nat list efs" where
  "ensure_blocks_for_logical_batch io now ino logical_blocks new_size =
     (if logical_blocks = [] then ef_ret []
      else ef_bind (read_inode io ino) (\<lambda>inode0.
        ef_bind (if is_inline_data inode0
                 then ef_bind (convert_inline_to_extents io ino inode0) (\<lambda>_. read_inode io ino)
                 else ef_ret inode0) (\<lambda>inode.
        ef_bind (load_extent_map io inode) (\<lambda>extents.
        ef_bind (ef_run (unmapped extents logical_blocks)) (\<lambda>missing.
        ef_bind (case missing of [] \<Rightarrow> ef_ret None | lb # _ \<Rightarrow> ef_run (goal_for extents lb)) (\<lambda>goal.
        ef_bind (fill_pool io (length missing) goal []) (\<lambda>pool.
        ef_bind (ef_run (take_from_pool extents logical_blocks pool)) (\<lambda>(extents', phys_blocks, unused).
        ef_bind (free_blocks io unused) (\<lambda>_.
        ef_bind (store_extent_map io inode extents') (\<lambda>updated.
          let sized = (case new_size of Some sz \<Rightarrow> if sz > ino_size updated then updated\<lparr>ino_size := sz\<rparr> else updated
                       | None \<Rightarrow> updated)
          in ef_bind (write_inode io ino (with_checksum (sized\<lparr>ino_mtime_sec := now\<rparr>))) (\<lambda>_. ef_ret phys_blocks)))))))))))"

section \<open>Reading\<close>

record ExtentRead =
  er_lba :: nat
  er_sectors :: nat
  er_dest :: nat
  er_skew :: nat
  er_len :: nat

definition MAX_RUN_BLOCKS :: nat where "MAX_RUN_BLOCKS = 248"
definition MAX_INFLIGHT_READS :: nat where "MAX_INFLIGHT_READS = 16"
definition MAX_INFLIGHT_BYTES :: nat where "MAX_INFLIGHT_BYTES = 2 * 1024 * 1024"

definition blocks_needed :: "nat \<Rightarrow> nat \<Rightarrow> nat" where
  "blocks_needed remaining offset_in_block =
     unat (word_of_nat ((remaining + offset_in_block + (BLOCK_SIZE - 1)) div BLOCK_SIZE) :: u32)"

definition run_blocks :: "BlockRun \<Rightarrow> nat \<Rightarrow> nat" where
  "run_blocks r needed = (case r of
       Mapped phys blocks \<Rightarrow> min (min needed blocks) MAX_RUN_BLOCKS
     | Hole blocks \<Rightarrow> min (case blocks of None \<Rightarrow> needed | Some b \<Rightarrow> b) needed)"

text \<open>The plan of the reads.  A pass that advances by nothing would repeat for ever: like a panic
  it does not return.\<close>

function plan_runs :: "(nat \<Rightarrow> nat) \<Rightarrow> ExtentMap \<Rightarrow> nat \<Rightarrow> nat \<Rightarrow> nat \<Rightarrow> ExtentRead list run" where
  "plan_runs lba extents result_pos remaining cur_byte =
     (if remaining = 0 then Ret []
      else let offset_in_block = cur_byte mod BLOCK_SIZE
        in case run_at extents (word_of_nat (cur_byte div BLOCK_SIZE)) of
             Panic \<Rightarrow> Panic
           | Ret r \<Rightarrow>
               let n = run_blocks r (blocks_needed remaining offset_in_block);
                   run_bytes = n * BLOCK_SIZE - offset_in_block;
                   advance = min remaining run_bytes
               in if n * BLOCK_SIZE < offset_in_block \<or> advance = 0 then Panic
                  else run_bind (plan_runs lba extents (result_pos + advance) (remaining - advance) (cur_byte + advance)) (\<lambda>rest.
                    Ret (case r of
                        Mapped phys blocks \<Rightarrow> \<lparr>er_lba = lba phys, er_sectors = n * 8 mod 2 ^ 16,
                          er_dest = result_pos, er_skew = offset_in_block, er_len = min remaining run_bytes\<rparr> # rest
                      | Hole _ \<Rightarrow> rest)))"
  by pat_completeness auto
termination by (relation "measure (\<lambda>(_, _, _, remaining, _). remaining)") auto

declare plan_runs.simps [simp del]

fun batch_len :: "nat \<Rightarrow> nat \<Rightarrow> ExtentRead list \<Rightarrow> nat" where
  "batch_len n batch_bytes [] = 0"
| "batch_len n batch_bytes (r # rs) =
     (if n \<ge> MAX_INFLIGHT_READS \<or> n > 0 \<and> batch_bytes + er_sectors r * 512 > MAX_INFLIGHT_BYTES then 0
      else 1 + batch_len (n + 1) (batch_bytes + er_sectors r * 512) rs)"

fun read_batch_blocking :: "page_io \<Rightarrow> ExtentRead list \<Rightarrow> bytes list efs" where
  "read_batch_blocking io [] = ef_ret []"
| "read_batch_blocking io (r # rs) =
     ef_bind (block_read io (er_lba r) (er_sectors r * 512)) (\<lambda>buf.
     ef_bind (read_batch_blocking io rs) (\<lambda>bufs. ef_ret (buf # bufs)))"

definition copy_run :: "ExtentRead \<Rightarrow> bytes \<Rightarrow> bytes \<Rightarrow> bytes run" where
  "copy_run r buf result =
     (if er_dest r + er_len r \<le> length result \<and> er_skew r + er_len r \<le> length buf
      then Ret (splice_at (er_dest r) (slice_at (er_skew r) (er_len r) buf) result) else Panic)"

fun copy_runs :: "(ExtentRead \<times> bytes) list \<Rightarrow> bytes \<Rightarrow> bytes run" where
  "copy_runs [] result = Ret result"
| "copy_runs ((r, buf) # rest) result = run_bind (copy_run r buf result) (copy_runs rest)"

lemma batch_len_pos: "runs \<noteq> [] \<Longrightarrow> 0 < batch_len 0 0 runs"
  by (cases runs) (simp_all add: MAX_INFLIGHT_READS_def)

function read_runs :: "page_io \<Rightarrow> ExtentRead list \<Rightarrow> bytes \<Rightarrow> bytes efs" where
  "read_runs io runs result s =
     (if runs = [] then Ret (Inr result, s)
      else let k = batch_len 0 0 runs
        in case ef_bind (read_batch_blocking io (take k runs)) (\<lambda>bufs. ef_run (copy_runs (zip (take k runs) bufs) result)) s of
            Panic \<Rightarrow> Panic
          | Ret (Inl e, s') \<Rightarrow> Ret (Inl e, s')
          | Ret (Inr result', s') \<Rightarrow> read_runs io (drop k runs) result' s')"
  by pat_completeness auto
termination
  by (relation "measure (\<lambda>(io, runs, result, s). length runs)") (auto simp: batch_len_pos)

declare read_runs.simps [simp del]

definition read_via_extents :: "page_io \<Rightarrow> EfsInode \<Rightarrow> nat \<Rightarrow> nat \<Rightarrow> bytes efs" where
  "read_via_extents io inode byte_offset count =
     ef_bind (load_extent_map io inode) (\<lambda>extents.
     ef_bind (\<lambda>s. ef_run (plan_runs (block_to_lba s) extents 0 count byte_offset) s) (\<lambda>runs.
     read_runs io runs (replicate count 0)))"

definition read_file_data :: "page_io \<Rightarrow> EfsInode \<Rightarrow> nat \<Rightarrow> nat \<Rightarrow> bytes efs" where
  "read_file_data io inode offset count =
     (let file_size = unat (ino_size inode) in
      if offset \<ge> file_size \<or> count = 0 then ef_ret []
      else let to_read = min count (file_size - offset) in
        if is_inline_data inode
        then let last = min (offset + to_read) (length (ino_data_area inode))
          in ef_bind (ef_assert (offset \<le> last)) (\<lambda>_. ef_ret (slice_at offset (last - offset) (ino_data_area inode)))
        else read_via_extents io inode offset to_read)"

section \<open>Writing\<close>

function write_via_extents :: "page_io \<Rightarrow> nat \<Rightarrow> nat \<Rightarrow> bytes \<Rightarrow> unit efs" where
  "write_via_extents io ino cur_byte data s =
     (if data = [] then Ret (Inr (), s)
      else let logical_block = word_of_nat (cur_byte div BLOCK_SIZE) :: u32;
               offset_in_block = cur_byte mod BLOCK_SIZE;
               copy_len = min (length data) (BLOCK_SIZE - offset_in_block);
               new = (if copy_len = BLOCK_SIZE then Overwritten else Zeroed)
        in case ef_bind (ensure_block_for_logical io ino logical_block new) (\<lambda>phys_block.
             ef_bind (ef_get (\<lambda>s. block_to_lba s phys_block)) (\<lambda>lba.
             ef_bind (if copy_len \<noteq> BLOCK_SIZE then block_read io lba BLOCK_SIZE else ef_ret (replicate BLOCK_SIZE 0)) (\<lambda>block_data.
             block_write io lba (splice_at offset_in_block (take copy_len data) block_data)))) s of
             Panic \<Rightarrow> Panic
           | Ret (Inl e, s') \<Rightarrow> Ret (Inl e, s')
           | Ret (Inr _, s') \<Rightarrow> write_via_extents io ino (cur_byte + copy_len) (drop copy_len data) s')"
  by pat_completeness auto
termination
  by (relation "measure (\<lambda>(io, ino, cur, data, s). length data)") (auto simp: BLOCK_SIZE_def)

declare write_via_extents.simps [simp del]

definition write_inline :: "page_io \<Rightarrow> u64 \<Rightarrow> nat \<Rightarrow> EfsInode \<Rightarrow> nat \<Rightarrow> bytes \<Rightarrow> u64 \<Rightarrow> u64 efs" where
  "write_inline io now ino inode offset data new_size =
     ef_bind (ef_assert (offset + length data \<le> length (ino_data_area inode))) (\<lambda>_.
       let updated = inode\<lparr>ino_data_area := splice_at offset data (ino_data_area inode),
             ino_size := new_size, ino_mtime_sec := now\<rparr>
       in ef_bind (write_inode io ino (with_checksum updated)) (\<lambda>_. ef_ret new_size))"

definition finish_write :: "page_io \<Rightarrow> u64 \<Rightarrow> nat \<Rightarrow> u64 \<Rightarrow> u64 efs" where
  "finish_write io now ino end_offset =
     ef_bind (read_inode io ino) (\<lambda>inode.
       let sized = (if end_offset > ino_size inode then inode\<lparr>ino_size := end_offset\<rparr> else inode);
           updated = sized\<lparr>ino_mtime_sec := now\<rparr>
       in ef_bind (write_inode io ino (with_checksum updated)) (\<lambda>_. ef_ret (ino_size updated)))"

definition write_file_data :: "page_io \<Rightarrow> u64 \<Rightarrow> nat \<Rightarrow> nat \<Rightarrow> bytes \<Rightarrow> u64 efs" where
  "write_file_data io now ino byte_offset data =
     (if data = [] then ef_bind (read_inode io ino) (\<lambda>inode. ef_ret (ino_size inode))
      else let end_offset = byte_offset + length data;
               via_extents = ef_bind (write_via_extents io ino byte_offset data) (\<lambda>_.
                 finish_write io now ino (word_of_nat end_offset))
        in ef_bind (read_inode io ino) (\<lambda>inode.
             if is_inline_data inode
             then if end_offset \<le> INODE_DATA_AREA_SIZE
               then write_inline io now ino inode byte_offset data (max (word_of_nat end_offset) (ino_size inode))
               else ef_bind (convert_inline_to_extents io ino inode) (\<lambda>_. via_extents)
             else via_extents))"

section \<open>A file and its map\<close>

text \<open>Inode \<open>ino\<close> stores the well-formed map \<open>m\<close>, and its slot in the inode table is a block in
  use of its own.\<close>

definition file_ok :: "EfsDriver \<Rightarrow> nat \<Rightarrow> ExtentMap \<Rightarrow> bool" where
  "file_ok s ino m \<longleftrightarrow> fs_ok s \<and> ino_ok s ino \<and> used s (fst (inode_home s ino)) \<and>
     fst (inode_home s ino) \<notin> tree_set (the_inode s ino) \<and> stored s (the_inode s ino) m \<and> em_wf m"

lemma stored_data_area:
  assumes "ino_data_area i' = ino_data_area i"
  shows "stored s i' m \<longleftrightarrow> stored s i m" "tree_set i' = tree_set i" "inode_wf i' \<longleftrightarrow> inode_wf i"
  unfolding stored_def tree_set_def tree_blocks_def inode_wf_def assms by simp_all

lemma fs_ok_pages: "fs_ok s \<Longrightarrow> pages_4k s"
  by (simp add: fs_ok_def alloc_ok_def)

lemma keeps_home:
  assumes "keeps T s s'" "ino_ok s ino"
  shows "inode_home s' ino = inode_home s ino" "ino_ok s' ino"
proof -
  have geo: "same_geometry s s'" and n: "ed_inodes_per_group s' = ed_inodes_per_group s"
    using assms(1) by (simp_all add: keeps_def same_geometry_def)
  show "inode_home s' ino = inode_home s ino" "ino_ok s' ino"
    using assms(2) same_geometry_fields(1,4) [OF geo] n by (auto simp: inode_home_def ino_ok_def Let_def)
qed

lemma inode_update_ok:
  assumes "io_ok io" "fs_ok s" "ino_ok s ino" "used s (fst (inode_home s ino))" "inode_wf inode"
  shows "\<exists>s'. write_inode io ino inode s = Ret (Inr (), s') \<and> fs_ok s' \<and> the_inode s' ino = inode \<and>
    keeps {fst (inode_home s ino)} s s' \<and> (\<forall>c. used s' c \<longleftrightarrow> used s c) \<and> dom (ed_cache s) \<subseteq> dom (ed_cache s')"
proof -
  obtain s' where w: "write_inode io ino inode s = Ret (Inr (), s')" "inode_written ino inode s s'"
    using write_inode_ok [OF assms(1,3,5) fs_ok_pages [OF assms(2)]] by blast
  have meta: "same_meta s s'" using w(2) by (simp add: inode_written_def)
  have v: "\<forall>b \<in> bitmap_blocks s. view s' b = view s b"
    using w(2) assms(4) by (auto simp: inode_written_def used_def)
  have p: "pages_4k s \<Longrightarrow> pages_4k s'"
    using w(2) assms(5) inode_slot [of s ino "fst (inode_home s ino)" "snd (inode_home s ino)"]
    by (simp add: pages_4k_def inode_written_def struct_sizes)
  have "ed_bgd_table s' = ed_bgd_table s" "ed_superblock s' = ed_superblock s" using meta by (simp_all add: same_meta_def)
  note fr = alloc_frame [OF this p v]
  have "keeps {fst (inode_home s ino)} s s'"
    using fr(3) w(2) meta by (auto simp: keeps_def inode_written_def same_meta_geometry)
  then show ?thesis
    using w fr(3,4) assms(2) the_inode_written [OF w(2) assms(5) fs_ok_pages [OF assms(2)]]
    by (auto simp: inode_written_def)
qed

lemma store_and_write:
  assumes "io_ok io" "fs_ok s" "ino_ok s ino" "used s (fst (inode_home s ino))" "tree_ok s inode"
    "fst (inode_home s ino) \<notin> tree_set inode" "length m \<le> max_extents BLOCK_SIZE" "em_wf m"
  shows "\<exists>r s'. ef_bind (store_extent_map io inode m) (\<lambda>updated. write_inode io ino (with_checksum updated)) s = Ret (r, s') \<and>
    (case r of Inl e \<Rightarrow> e = NoSpace
     | Inr _ \<Rightarrow> file_ok s' ino m \<and> keeps (insert (fst (inode_home s ino)) (tree_set inode)) s s')"
proof -
  let ?b = "fst (inode_home s ino)"
  obtain r s1 where r: "store_extent_map io inode m s = Ret (r, s1)" "stored_result s inode m r s1"
    using store_extent_map_ok [OF assms(1,2,5,7)] by blast
  show ?thesis
  proof (cases r)
    case (Inl e)
    then show ?thesis using r by (simp add: stored_result_def)
  next
    case (Inr inode')
    then have s1: "fs_ok s1" "stored s1 inode' m" "keeps (tree_set inode) s s1"
      "\<forall>b \<in> tree_set inode'. b \<in> tree_set inode \<or> \<not> used s b" using r(2) by (simp_all add: stored_result_def)
    note home = keeps_home [OF s1(3) assms(3)]
    have wf: "inode_wf (with_checksum inode')" using s1(2) by (simp add: stored_def with_checksum_def inode_wf_def)
    have u: "used s1 (fst (inode_home s1 ino))" using s1(3) assms(4,6) home by (simp add: keeps_def)
    obtain s' where s': "write_inode io ino (with_checksum inode') s1 = Ret (Inr (), s')" "fs_ok s'"
      "the_inode s' ino = with_checksum inode'" "keeps {fst (inode_home s1 ino)} s1 s'" "\<forall>c. used s' c \<longleftrightarrow> used s1 c"
      using inode_update_ok [OF assms(1) s1(1) _ u wf] assms(3) home by auto
    note home' = keeps_home [OF s'(4) home(2)]
    have nt: "?b \<notin> tree_set inode'" using s1(4) assms(4,6) by auto
    have "stored s' inode' m" by (rule stored_keeps [OF s1(2) s'(4,2)]) (use nt home in auto)
    then have "file_ok s' ino m"
      using s'(2,3,5) u nt assms(3,8) home home' stored_data_area [of "with_checksum inode'" inode']
      by (simp add: file_ok_def with_checksum_def)
    moreover have "keeps (insert ?b (tree_set inode)) s s'"
      using s1(3) s'(4) home by (auto intro: keeps_trans keeps_mono)
    ultimately show ?thesis using r(1) Inr s'(1) by simp
  qed
qed

text \<open>What mapping a block comes to: the map of the file gains at most this block.\<close>

definition mapped_block :: "EfsDriver \<Rightarrow> nat \<Rightarrow> ExtentMap \<Rightarrow> u32 \<Rightarrow> nat \<Rightarrow> EfsDriver \<Rightarrow> bool" where
  "mapped_block s ino m l p s' \<longleftrightarrow> (\<exists>m'. file_ok s' ino m' \<and> em_abs m' = (em_abs m)(unat l \<mapsto> p) \<and> length m' \<le> length m + 1) \<and>
     (em_abs m (unat l) = None \<longrightarrow> is_free s p \<and> used s' p) \<and>
     keeps (insert (fst (inode_home s ino)) (tree_set (the_inode s ino))) s s'"

lemma new_block_ok:
  assumes "io_ok io" "got_block s p s1"
  shows "\<exists>s2. (if new = Zeroed then write_block io p (replicate BLOCK_SIZE 0) else ef_ret ()) s1 = Ret (Inr (), s2) \<and>
    fs_ok s2 \<and> used s2 p \<and> keeps {} s s2"
proof (cases "new = Zeroed")
  case True
  let ?s = "put_page (block_page s1 p) (replicate BLOCK_SIZE 0) s1"
  have g: "fs_ok s1" "used s1 p" "keeps {} s s1" "\<not> used s p" using assms(2) by (simp_all add: got_block_def)
  note p = put_used [OF g(1,2), of "replicate BLOCK_SIZE 0"]
  have "keeps {} s ?s" using g(3,4) p(3) by (auto simp: keeps_def BLOCK_SIZE_def same_geometry_def)
  then show ?thesis using True assms(1) p g(2) by (simp add: BLOCK_SIZE_def)
next
  case False
  then show ?thesis using assms(2) by (simp add: got_block_def)
qed

lemma map_block_ok:
  assumes "io_ok io" "file_ok s ino m" "length m < max_extents BLOCK_SIZE" "unat l + 1 < 2 ^ 32"
    "em_abs m (unat l) = None" "got_block s p s1" "inode = the_inode s ino"
  shows "\<exists>r s'. map_new_block io ino inode m l new p s1 = Ret (r, s') \<and>
    (case r of Inl e \<Rightarrow> e = NoSpace | Inr q \<Rightarrow> mapped_block s ino m l q s')"
proof -
  let ?b = "fst (inode_home s ino)"
  have f: "fs_ok s" "ino_ok s ino" "used s ?b" "?b \<notin> tree_set inode" "stored s inode m" "em_wf m"
    using assms(2,7) by (simp_all add: file_ok_def)
  have g: "is_free s p" "\<not> used s p" "p < 2 ^ 48" using assms(6) by (auto simp: got_block_def)
  obtain s2 where s2: "(if new = Zeroed then write_block io p (replicate BLOCK_SIZE 0) else ef_ret ()) s1 = Ret (Inr (), s2)"
    "fs_ok s2" "used s2 p" "keeps {} s s2" using new_block_ok [OF assms(1,6)] by blast
  note home = keeps_home [OF s2(4) f(2)]
  obtain m' where m': "insert_block l p m = Ret m'" "em_wf m'" "em_abs m' = (em_abs m)(unat l \<mapsto> p)"
    using insert_block_ok [OF f(6) assms(5,4) g(3)] by blast
  have len: "length m' \<le> max_extents BLOCK_SIZE" "length m' \<le> length m + 1"
    using insert_block_length [OF m'(1)] assms(3) by simp_all
  have st: "stored s2 inode m" by (rule stored_keeps [OF f(5) s2(4,2)]) simp
  have u: "used s2 (fst (inode_home s2 ino))" using s2(4) f(3) home by (simp add: keeps_def)
  obtain r s' where r: "ef_bind (store_extent_map io inode m') (\<lambda>updated. write_inode io ino (with_checksum updated)) s2 = Ret (r, s')"
    "case r of Inl e \<Rightarrow> e = NoSpace | Inr _ \<Rightarrow> file_ok s' ino m' \<and> keeps (insert (fst (inode_home s2 ino)) (tree_set inode)) s2 s'"
    using store_and_write [OF assms(1) s2(2) home(2) u stored_tree [OF st] _ len(1) m'(2)] f(4) home by auto
  have bind: "ef_bind (store_extent_map io inode m') (\<lambda>updated. ef_bind (write_inode io ino (with_checksum updated)) (\<lambda>_. ef_ret p)) s2 =
      (case r of Inl e \<Rightarrow> Ret (Inl e, s') | Inr _ \<Rightarrow> Ret (Inr p, s'))"
    using r(1) by (auto simp: ef_bind_def split: run.splits prod.splits sum.splits)
  show ?thesis
  proof (cases r)
    case (Inl e)
    then show ?thesis using s2(1) m'(1) bind r(2) by (simp add: map_new_block_def)
  next
    case (Inr x)
    then have fin: "file_ok s' ino m'" "keeps (insert ?b (tree_set inode)) s2 s'" using r(2) home by auto
    have "p \<noteq> ?b" "p \<notin> tree_set inode"
      using g(2) f(3,5) stored_tree [OF f(5)] by (auto simp: tree_ok_def tree_set_def)
    then have "used s' p" using fin(2) s2(3) by (simp add: keeps_def)
    moreover have "keeps (insert ?b (tree_set inode)) s s'" using s2(4) fin(2) by (auto intro: keeps_trans keeps_mono)
    ultimately have "mapped_block s ino m l p s'"
      using fin(1) m'(3) len(2) g(1) assms(7) by (auto simp: mapped_block_def)
    then show ?thesis using s2(1) m'(1) bind Inr by (simp add: map_new_block_def)
  qed
qed

lemma stored_quiet: "quiet s s' \<Longrightarrow> stored s' i m \<longleftrightarrow> stored s i m"
  by (simp add: stored_def leaves_at_def quiet_frame) (simp add: quiet_def)

lemma file_ok_quiet: "quiet s s' \<Longrightarrow> file_ok s' ino m \<longleftrightarrow> file_ok s ino m"
  by (simp add: file_ok_def quiet_frame quiet_inodes stored_quiet)

lemma mapped_block_quiet: "quiet s s1 \<Longrightarrow> mapped_block s1 ino m l p s' \<Longrightarrow> mapped_block s ino m l p s'"
  unfolding mapped_block_def by (auto simp: quiet_frame quiet_inodes intro: keeps_trans [OF quiet_keeps])

lemma load_file:
  assumes "io_ok io" "file_ok s ino m"
  shows "\<exists>s1. ef_bind (read_inode io ino) (\<lambda>inode. ef_bind (load_extent_map io inode) (f inode)) s = f (the_inode s ino) m s1 \<and> quiet s s1"
proof -
  let ?s = "touch (block_page s (fst (inode_home s ino))) s"
  have f: "ino_ok s ino" "stored s (the_inode s ino) m" using assms(2) by (simp_all add: file_ok_def)
  then have "stored ?s (the_inode s ino) m" by (simp add: stored_quiet [of s ?s])
  then obtain s1 where "load_extent_map io (the_inode s ino) ?s = Ret (Inr m, s1)" "quiet ?s s1"
    using stored_load [OF assms(1)] by blast
  moreover have "quiet s s1" using calculation(2) quiet_trans [OF quiet_simps(2)] by blast
  ultimately show ?thesis using read_inode_ok [OF assms(1) f(1)] by auto
qed

lemma ensure_block_ok:
  assumes "io_ok io" "file_ok s ino m" "length m < max_extents BLOCK_SIZE" "unat l + 1 < 2 ^ 32"
  shows "\<exists>r s'. ensure_block_for_logical io ino l new s = Ret (r, s') \<and>
    (case r of Inl e \<Rightarrow> e = NoSpace | Inr p \<Rightarrow> mapped_block s ino m l p s')"
proof -
  have wf: "em_wf m" using assms(2) by (simp add: file_ok_def)
  obtain g where g: "goal_for m l = Ret g" using goal_for_total [OF wf] by blast
  let ?alloc = "\<lambda>inode m. ef_bind (ef_run (goal_for m l)) (\<lambda>goal. ef_bind (alloc_blocks io 1 goal) (\<lambda>bs. case bs of
      [] \<Rightarrow> ef_fail NoSpace | p # _ \<Rightarrow> map_new_block io ino inode m l new p))"
  obtain s1 where s1: "ensure_block_for_logical io ino l new s =
      ef_bind (ef_run (lookup m l)) (\<lambda>found. case found of Some p \<Rightarrow> ef_ret p | None \<Rightarrow> ?alloc (the_inode s ino) m) s1"
    and q: "quiet s s1"
    using load_file [OF assms(1,2), of "\<lambda>inode m. ef_bind (ef_run (lookup m l)) (\<lambda>found. case found of
        Some p \<Rightarrow> ef_ret p | None \<Rightarrow> ?alloc inode m)"] unfolding ensure_block_for_logical_def by blast
  have f1: "file_ok s1 ino m" "the_inode s ino = the_inode s1 ino" using assms(2) q file_ok_quiet quiet_inodes(3) by auto
  show ?thesis
  proof (cases "em_abs m (unat l)")
    case (Some p)
    then have "em_abs m = (em_abs m)(unat l \<mapsto> p)" by (simp add: map_upd_triv)
    then have "mapped_block s ino m l p s1" using f1(1) Some quiet_keeps [OF q] by (auto simp: mapped_block_def)
    then show ?thesis using s1 Some lookup_ok [OF wf, of l] by simp
  next
    case None
    then have run: "ensure_block_for_logical io ino l new s = ?alloc (the_inode s ino) m s1"
      using s1 lookup_ok [OF wf, of l] by simp
    have "fs_ok s1" using f1(1) by (simp add: file_ok_def)
    then obtain r s2 where r: "alloc_blocks io 1 g s1 = Ret (r, s2)"
      "case r of Inr bs \<Rightarrow> \<exists>b. bs = [b] \<and> got_block s1 b s2 | Inl e \<Rightarrow> e = NoSpace"
      using alloc_one_ok [OF assms(1)] by blast
    show ?thesis
    proof (cases r)
      case (Inl e)
      then show ?thesis using run g r by simp
    next
      case (Inr bs)
      then obtain p where p: "bs = [p]" "got_block s1 p s2" using r(2) by auto
      have "ensure_block_for_logical io ino l new s = map_new_block io ino (the_inode s ino) m l new p s2"
        using run g r(1) Inr p(1) by simp
      with map_block_ok [OF assms(1) f1(1) assms(3,4) None p(2) f1(2), of new]
      obtain r' s' where r': "ensure_block_for_logical io ino l new s = Ret (r', s')"
        "case r' of Inl e \<Rightarrow> e = NoSpace | Inr q \<Rightarrow> mapped_block s1 ino m l q s'" by auto
      then show ?thesis using mapped_block_quiet [OF q] by (cases r') auto
    qed
  qed
qed


text \<open>The filesystem of \<open>example_driver\<close> with an inode in the second slot of the inode table, and
  a file of one block there.\<close>

definition example_with :: "EfsInode \<Rightarrow> EfsDriver" where
  "example_with i = example_driver\<lparr>ed_cache := [7 \<mapsto> replicate 256 0 @ inode_bytes i @ replicate 3584 0]\<rparr>"

definition example_inode :: EfsInode where
  "example_inode = (inode_new S_IFREG (100, 5))\<lparr>ino_size := 4096, ino_blocks := 1,
     ino_data_area := node_image INODE_DATA_AREA_SIZE (node_header 1 13 0) extent_bytes [new_extent 0 1 100]\<rparr>"

lemma example_with_fields:
  "view (example_with i) c = (if c = 5 then replicate 256 0 @ inode_bytes i @ replicate 3584 0 else view example_driver c)"
  "ed_bgd_table (example_with i) = ed_bgd_table example_driver" "ed_superblock (example_with i) = ed_superblock example_driver"
  "inode_home (example_with i) 2 = (5, 256)" "ino_ok (example_with i) 2"
  by (auto simp: view_def page_view_def block_page_alt example_with_def example_driver_def example_group_def
      inode_home_def ino_ok_def)

lemma example_with_ok:
  assumes "inode_wf i"
  shows "fs_ok (example_with i)" "used (example_with i) 5" "the_inode (example_with i) 2 = i" "bitmap_blocks (example_with i) = {3}"
proof -
  have bm: "bitmap_blocks example_driver = {3}"
    by (simp add: bitmap_blocks_def example_driver_def lessThan_Suc bitmap_block_of_def example_group_def)
  then show "bitmap_blocks (example_with i) = {3}"
    by (simp add: bitmap_blocks_def bitmap_block_of_def example_with_fields)
  have p: "pages_4k example_driver \<Longrightarrow> pages_4k (example_with i)"
    using assms by (simp add: pages_4k_def example_with_fields struct_sizes)
  have v: "\<forall>b \<in> bitmap_blocks example_driver. view (example_with i) b = view example_driver b"
    by (simp add: bm example_with_fields)
  note fr = alloc_frame [OF example_with_fields(2,3) p v]
  show "fs_ok (example_with i)" using fr(4) example_driver_fs by simp
  have "used example_driver 5"
    using example_bits [of 5] by (simp add: used_def is_free_def example_bitmap bm) (simp add: example_driver_def)
  then show "used (example_with i) 5" by (simp add: fr)
  show "the_inode (example_with i) 2 = i"
    using inode_roundtrip_ok [OF assms, of "replicate 3584 0"] by (simp add: the_inode_def example_with_fields)
qed

lemma example_inode_wf: "inode_wf example_inode" "stored s example_inode [new_extent 0 1 100]" "tree_set example_inode = {}"
proof -
  show wf: "inode_wf example_inode"
    using ext.node_image_length [of "[new_extent 0 1 100]" INODE_DATA_AREA_SIZE]
    by (simp add: example_inode_def inode_wf_def INODE_DATA_AREA_SIZE_def)
  then show "stored s example_inode [new_extent 0 1 100]" by (simp add: stored_def example_inode_def)
  show "tree_set example_inode = {}" by (simp add: tree_set_def tree_blocks_def example_inode_def)
qed

abbreviation example_file :: EfsDriver where
  "example_file \<equiv> example_with example_inode"

lemma example_file_ok: "file_ok example_file 2 [new_extent 0 1 100]"
  using example_with_ok [OF example_inode_wf(1)] example_inode_wf
  by (simp add: file_ok_def example_with_fields ext_ok_def)


end
