(* ===== verification/Efs_Read.thy ===== *)
theory Efs_Read
  imports Efs_File
begin

text \<open>
  What reading a file returns.  \<open>read_via_extents\<close> plans the physical runs of a range, reads
  them in batches and copies each to its place; the theorem at the end says that the result
  is the content of the file, block by block through its map, with zeros for the holes.
\<close>

section \<open>Pages of the device\<close>

definition aligned :: "EfsDriver \<Rightarrow> bool" where
  "aligned s \<longleftrightarrow> ed_starting_lba s mod 8 = 0 \<and> (\<forall>idx. length (ed_disk s idx) = 4096)"

lemma concat_equal_slices: "k * n \<le> length xs \<Longrightarrow> concat (map (\<lambda>j. slice_at (j * n) n xs) [0..<k]) = take (k * n) xs"
proof (induction k)
  case (Suc k)
  have "take (Suc k * n) xs = take (k * n) xs @ take n (drop (k * n) xs)"
    using take_add [of "k * n" n xs] by (simp add: add.commute)
  then show ?case using Suc by (simp add: slice_at_def)
qed simp

lemma upt_split: "[k..<k + (a + b)] = [k..<k + a] @ [k + a..<k + a + b]"
  using upt_add_eq_append [of k "k + a" b] by (simp add: add.assoc)

lemma dev_page:
  assumes "aligned s"
  shows "dev_sectors s (8 * k) 8 = ed_disk s k"
proof -
  have "map (sector s) [8 * k..<8 * k + 8] = map (\<lambda>j. slice_at (j * 512) 512 (ed_disk s k)) [0..<8]"
    by (simp add: list_eq_iff_nth_eq sector_def)
  then show ?thesis using concat_equal_slices [of 8 512 "ed_disk s k"] assms by (simp add: dev_sectors_def aligned_def)
qed

lemma dev_sectors_append: "dev_sectors s lba (a + b) = dev_sectors s lba a @ dev_sectors s (lba + a) b"
  unfolding dev_sectors_def upt_split by (simp add: add.assoc)

lemma block_to_lba_alt: "aligned s \<Longrightarrow> block_to_lba s b = 8 * block_page s b"
  by (auto simp: block_to_lba_def block_page_alt BLOCK_SIZE_def aligned_def)

lemma dev_blocks:
  assumes "aligned s"
  shows "dev_sectors s (block_to_lba s p) (n * 8) = concat (map (\<lambda>i. ed_disk s (block_page s (p + i))) [0..<n])"
proof (induction n)
  case (Suc n)
  have "block_to_lba s p + n * 8 = 8 * block_page s (p + n)"
    using assms by (simp add: block_to_lba_alt block_page_alt)
  then have "dev_sectors s (block_to_lba s p) (n * 8 + 8) =
      dev_sectors s (block_to_lba s p) (n * 8) @ ed_disk s (block_page s (p + n))"
    using dev_sectors_append [of s "block_to_lba s p" "n * 8" 8] dev_page [OF assms] by simp
  then show ?case using Suc by (simp add: add.commute)
qed (simp add: dev_sectors_def)

lemma nth_concat_pages:
  assumes "\<forall>i. length (f i) = 4096" "j < n * 4096"
  shows "concat (map f [0..<n]) ! j = f (j div 4096) ! (j mod 4096)"
  using assms(2)
proof (induction n)
  case (Suc n)
  have len: "length (concat (map f [0..<n])) = n * 4096" using assms(1) by (induction n) simp_all
  show ?case
  proof (cases "j < n * 4096")
    case True
    then show ?thesis using Suc.IH len by (simp add: nth_append)
  next
    case False
    then have "j div 4096 = n" using Suc.prems by (simp add: div_nat_eqI)
    then show ?thesis using False len by (simp add: nth_append modulo_nat_def mult.commute)
  qed
qed simp

section \<open>The content of a file\<close>

definition file_byte :: "EfsDriver \<Rightarrow> ExtentMap \<Rightarrow> nat \<Rightarrow> byte" where
  "file_byte s m k = (case em_abs m (k div 4096) of
     None \<Rightarrow> 0 | Some p \<Rightarrow> ed_disk s (block_page s p) ! (k mod 4096))"

definition file_bytes :: "EfsDriver \<Rightarrow> ExtentMap \<Rightarrow> nat \<Rightarrow> nat \<Rightarrow> bytes" where
  "file_bytes s m off n = map (file_byte s m) [off..<off + n]"

lemma length_file_bytes [simp]: "length (file_bytes s m off n) = n"
  by (simp add: file_bytes_def)

lemma file_bytes_append: "file_bytes s m off (a + b) = file_bytes s m off a @ file_bytes s m (off + a) b"
  unfolding file_bytes_def upt_split by (simp add: add.assoc)

lemma block_of_byte: "(cur + j) div 4096 = cur div 4096 + (cur mod 4096 + j) div (4096 :: nat)"
  "(cur + j) mod 4096 = (cur mod 4096 + j) mod (4096 :: nat)"
proof -
  have "cur + j = 4096 * (cur div 4096) + (cur mod 4096 + j)" by simp
  then show "(cur + j) div 4096 = cur div 4096 + (cur mod 4096 + j) div (4096 :: nat)" by (metis div_mult_self4 zero_neq_numeral)
  show "(cur + j) mod 4096 = (cur mod 4096 + j) mod (4096 :: nat)" by (simp add: mod_simps)
qed

lemma run_bytes_mapped:
  assumes "aligned s" "\<forall>i < n. em_abs m (cur div 4096 + i) = Some (p + i)" "cur mod 4096 + k \<le> n * 4096"
  shows "slice_at (cur mod 4096) k (dev_sectors s (block_to_lba s p) (n * 8)) = file_bytes s m cur k"
proof -
  let ?b = "dev_sectors s (block_to_lba s p) (n * 8)"
  have pages: "\<forall>i. length (ed_disk s (block_page s (p + i))) = 4096" using assms(1) by (simp add: aligned_def)
  have len: "length ?b = n * 4096" unfolding dev_blocks [OF assms(1)]
    using pages by (induction n) simp_all
  show ?thesis
  proof (rule nth_equalityI)
    fix j assume "j < length (slice_at (cur mod 4096) k ?b)"
    then have j: "j < k" "cur mod 4096 + j < n * 4096" using len assms(3) by auto
    then have blk: "(cur mod 4096 + j) div 4096 < n" by (simp add: less_mult_imp_div_less)
    have "slice_at (cur mod 4096) k ?b ! j = ?b ! (cur mod 4096 + j)" using j len by (intro nth_slice) simp_all
    also have "\<dots> = ed_disk s (block_page s (p + (cur mod 4096 + j) div 4096)) ! ((cur mod 4096 + j) mod 4096)"
      unfolding dev_blocks [OF assms(1)] by (rule nth_concat_pages [OF pages j(2)])
    also have "\<dots> = file_bytes s m cur k ! j"
      using j(1) assms(2) blk by (simp add: file_bytes_def file_byte_def block_of_byte [of cur j])
    finally show "slice_at (cur mod 4096) k ?b ! j = file_bytes s m cur k ! j" .
  qed (use len assms(3) in simp)
qed

lemma run_bytes_hole:
  assumes "\<forall>i < n. em_abs m (cur div 4096 + i) = None" "cur mod 4096 + k \<le> n * 4096"
  shows "file_bytes s m cur k = replicate k 0"
proof (rule nth_equalityI)
  fix j assume "j < length (file_bytes s m cur k)"
  then have "j < k" "(cur mod 4096 + j) div 4096 < n" using assms(2) by (simp_all add: less_mult_imp_div_less)
  then show "file_bytes s m cur k ! j = replicate k 0 ! j"
    using assms(1) by (simp add: file_bytes_def file_byte_def block_of_byte [of cur j])
qed simp

section \<open>Splicing\<close>

lemma splice_adjacent:
  assumes "p + length a + length b \<le> length xs"
  shows "splice_at (p + length a) b (splice_at p a xs) = splice_at p (a @ b) xs"
proof -
  have "min (length xs) p = p" using assms by simp
  then show ?thesis by (simp add: splice_at_def ac_simps)
qed

lemma splice_same: "slice_at p (length a) xs = a \<Longrightarrow> splice_at p a xs = xs"
  by (simp add: splice_at_def slice_at_def) (metis add.commute append_take_drop_id drop_drop)

section \<open>The plan\<close>

definition fetch :: "EfsDriver \<Rightarrow> ExtentRead \<Rightarrow> ExtentRead \<times> bytes" where
  "fetch s r = (r, dev_sectors s (er_lba r) (er_sectors r))"

lemma blocks_needed_ok:
  assumes "0 < remaining" "remaining + off < 2 ^ 43" "off < 4096"
  shows "0 < blocks_needed remaining off" "remaining + off \<le> blocks_needed remaining off * 4096"
proof -
  let ?k = "(remaining + off + 4095) div 4096"
  have "?k < 2 ^ 32" using assms(2) by (simp add: less_mult_imp_div_less)
  then have k: "blocks_needed remaining off = ?k" by (simp add: blocks_needed_def BLOCK_SIZE_def unat_of_nat)
  have "remaining + off + 4095 < 4096 * (?k + 1)" by (simp add: dividend_less_div_times)
  then show "remaining + off \<le> blocks_needed remaining off * 4096" unfolding k by linarith
  then show "0 < blocks_needed remaining off" using assms(1) by (cases "blocks_needed remaining off") auto
qed

lemma plan_runs_step:
  assumes "0 < remaining" "run_at m (word_of_nat (cur div 4096)) = Ret r"
    "n = run_blocks r (blocks_needed remaining (cur mod 4096))" "0 < n" "adv = min remaining (n * 4096 - cur mod 4096)"
  shows "0 < adv" "cur mod 4096 + adv \<le> n * 4096"
    "plan_runs lba m pos remaining cur = run_bind (plan_runs lba m (pos + adv) (remaining - adv) (cur + adv)) (\<lambda>rest.
       Ret (case r of Mapped p k \<Rightarrow> \<lparr>er_lba = lba p, er_sectors = n * 8 mod 2 ^ 16, er_dest = pos,
          er_skew = cur mod 4096, er_len = adv\<rparr> # rest | Hole _ \<Rightarrow> rest))"
proof -
  have off: "cur mod 4096 < 4096" "4096 \<le> n * 4096" using assms(4) by simp_all
  then show adv: "0 < adv" "cur mod 4096 + adv \<le> n * 4096" using assms(1,5) by linarith+
  have "\<not> n * 4096 < cur mod 4096" using off by linarith
  then show "plan_runs lba m pos remaining cur = run_bind (plan_runs lba m (pos + adv) (remaining - adv) (cur + adv)) (\<lambda>rest.
       Ret (case r of Mapped p k \<Rightarrow> \<lparr>er_lba = lba p, er_sectors = n * 8 mod 2 ^ 16, er_dest = pos,
          er_skew = cur mod 4096, er_len = adv\<rparr> # rest | Hole _ \<Rightarrow> rest))"
    using assms(1) adv(1)
    by (subst plan_runs.simps) (simp add: BLOCK_SIZE_def assms(2) flip: assms(3) assms(5))
qed

text \<open>Copying a first piece and then the rest.\<close>

lemma splice_pieces:
  assumes "pos + (a + b) \<le> length res" "slice_at pos (a + b) res = replicate (a + b) 0"
  shows "splice_at (pos + a) (file_bytes s m (cur + a) b) (splice_at pos (file_bytes s m cur a) res) =
      splice_at pos (file_bytes s m cur (a + b)) res"
    "slice_at (pos + a) b (splice_at pos (file_bytes s m cur a) res) = replicate b 0"
    "length (splice_at pos (file_bytes s m cur a) res) = length res"
    "slice_at pos a res = replicate a 0"
proof -
  show "splice_at (pos + a) (file_bytes s m (cur + a) b) (splice_at pos (file_bytes s m cur a) res) =
      splice_at pos (file_bytes s m cur (a + b)) res"
    using splice_adjacent [of pos "file_bytes s m cur a" "file_bytes s m (cur + a) b" res] assms(1)
    by (simp add: file_bytes_append)
  have "slice_at (pos + a) b res = slice_at a b (slice_at pos (a + b) res)" by (simp add: slice_slice)
  also have "\<dots> = replicate b 0" unfolding assms(2) by (simp add: slice_at_def)
  finally show "slice_at (pos + a) b (splice_at pos (file_bytes s m cur a) res) = replicate b 0"
    using assms(1) by (simp add: slice_splice_after)
  show "length (splice_at pos (file_bytes s m cur a) res) = length res" using assms(1) by simp
  have "slice_at pos a res = slice_at 0 a (slice_at pos (a + b) res)" by (simp add: slice_slice)
  also have "\<dots> = replicate a 0" unfolding assms(2) by (simp add: slice_at_def)
  finally show "slice_at pos a res = replicate a 0" .
qed

lemma plan_runs_ok:
  assumes "em_wf m" "aligned s"
  shows "cur + remaining < 2 ^ 43 \<Longrightarrow> \<exists>rs. plan_runs (block_to_lba s) m pos remaining cur = Ret rs \<and>
    (\<forall>res. pos + remaining \<le> length res \<and> slice_at pos remaining res = replicate remaining 0 \<longrightarrow>
       copy_runs (map (fetch s) rs) res = Ret (splice_at pos (file_bytes s m cur remaining) res))"
proof (induction remaining arbitrary: pos cur rule: less_induct)
  case (less remaining)
  show ?case
  proof (cases "remaining = 0")
    case True
    then show ?thesis by (simp add: plan_runs.simps file_bytes_def splice_at_def)
  next
    case False
    let ?l = "word_of_nat (cur div 4096) :: u32"
    have l: "unat ?l = cur div 4096" using less.prems by (simp add: unat_of_nat less_mult_imp_div_less)
    obtain r where r: "run_at m ?l = Ret r" "case r of
        Mapped p n \<Rightarrow> 0 < n \<and> (\<forall>i < n. em_abs m (unat ?l + i) = Some (p + i))
      | Hole (Some n) \<Rightarrow> 0 < n \<and> (\<forall>i < n. em_abs m (unat ?l + i) = None) \<and> em_abs m (unat ?l + n) \<noteq> None
      | Hole None \<Rightarrow> \<forall>i. em_abs m (unat ?l + i) = None"
      using run_at_ok [OF assms(1)] by blast
    let ?k = "blocks_needed remaining (cur mod 4096)"
    let ?n = "run_blocks r ?k"
    define adv where "adv = min remaining (?n * 4096 - cur mod 4096)"
    define b where "b = remaining - adv"
    have sum: "remaining = adv + b" by (simp add: adv_def b_def)
    have "remaining + cur mod 4096 < 2 ^ 43" using less.prems mod_less_eq_dividend [of cur 4096] by linarith
    then have k: "0 < ?k" using blocks_needed_ok(1) False by simp
    have n: "0 < ?n" using k r(2) by (auto simp: run_blocks_def MAX_RUN_BLOCKS_def split: BlockRun.splits option.splits)
    have pos: "0 < remaining" using False by simp
    note step = plan_runs_step [OF pos r(1) refl n adv_def, folded b_def]
    obtain rs where rs: "plan_runs (block_to_lba s) m (pos + adv) b (cur + adv) = Ret rs"
      "\<forall>res. pos + adv + b \<le> length res \<and> slice_at (pos + adv) b res = replicate b 0 \<longrightarrow>
        copy_runs (map (fetch s) rs) res = Ret (splice_at (pos + adv) (file_bytes s m (cur + adv) b) res)"
      using less.IH [of b "cur + adv" "pos + adv"] less.prems step(1) sum by (auto simp: add.assoc)
    have tail: "copy_runs (map (fetch s) rs) (splice_at pos (file_bytes s m cur adv) res) =
        Ret (splice_at pos (file_bytes s m cur remaining) res)"
      if h: "pos + remaining \<le> length res" "slice_at pos remaining res = replicate remaining 0" for res
      using splice_pieces(1-3) [OF h [unfolded sum], of s m cur] rs(2) h(1) sum by (simp add: add.assoc)
    show ?thesis
    proof (cases r)
      case (Mapped p k)
      let ?r = "\<lparr>er_lba = block_to_lba s p, er_sectors = ?n * 8, er_dest = pos, er_skew = cur mod 4096, er_len = adv\<rparr>"
      have n': "?n \<le> k" "?n * 8 < 2 ^ 16" using Mapped by (simp_all add: run_blocks_def MAX_RUN_BLOCKS_def)
      then have plan: "plan_runs (block_to_lba s) m pos remaining cur = Ret (?r # rs)"
        unfolding step(3) rs(1) using Mapped by simp
      have "\<forall>i < ?n. em_abs m (cur div 4096 + i) = Some (p + i)" using r(2) Mapped l n'(1) by simp
      from run_bytes_mapped [OF assms(2) this step(2)]
      have bytes: "slice_at (cur mod 4096) adv (dev_sectors s (block_to_lba s p) (?n * 8)) = file_bytes s m cur adv" .
      then have "cur mod 4096 + adv \<le> length (dev_sectors s (block_to_lba s p) (?n * 8))"
        using step(1) length_slice_at [of "cur mod 4096" adv "dev_sectors s (block_to_lba s p) (?n * 8)"] by simp
      then have "copy_run ?r (dev_sectors s (block_to_lba s p) (?n * 8)) res = Ret (splice_at pos (file_bytes s m cur adv) res)"
        if "pos + remaining \<le> length res" for res using that sum bytes by (simp add: copy_run_def)
      moreover have "fetch s ?r = (?r, dev_sectors s (block_to_lba s p) (?n * 8))" by (simp add: fetch_def)
      ultimately show ?thesis using plan tail by simp
    next
      case (Hole h)
      have "\<forall>i < ?n. em_abs m (cur div 4096 + i) = None"
        using r(2) Hole l by (auto simp: run_blocks_def split: option.splits)
      from run_bytes_hole [OF this step(2)] have zero: "file_bytes s m cur adv = replicate adv 0" .
      have plan: "plan_runs (block_to_lba s) m pos remaining cur = Ret rs"
        unfolding step(3) rs(1) using Hole by simp
      have "copy_runs (map (fetch s) rs) res = Ret (splice_at pos (file_bytes s m cur remaining) res)"
        if h: "pos + remaining \<le> length res" "slice_at pos remaining res = replicate remaining 0" for res
      proof -
        have "splice_at pos (file_bytes s m cur adv) res = res"
          by (rule splice_same) (simp add: splice_pieces(4) [OF h [unfolded sum]] zero)
        then show ?thesis using tail [OF h] by simp
      qed
      then show ?thesis using plan by blast
    qed
  qed
qed

section \<open>Reading\<close>

lemma read_batch_ok:
  "io_ok io \<Longrightarrow> read_batch_blocking io rs s = Ret (Inr (map (\<lambda>r. dev_sectors s (er_lba r) (er_sectors r)) rs), s)"
  by (induction rs) (simp_all add: block_read_def io_ok_def)

lemma copy_runs_append: "copy_runs (xs @ ys) res = run_bind (copy_runs xs res) (copy_runs ys)"
proof (induction xs arbitrary: res)
  case (Cons x xs)
  then show ?case by (cases x; cases "copy_run (fst x) (snd x) res") auto
qed simp

lemma read_runs_ok:
  assumes "io_ok io"
  shows "copy_runs (map (fetch s) rs) res = Ret res' \<Longrightarrow> read_runs io rs res s = Ret (Inr res', s)"
proof (induction "length rs" arbitrary: rs res rule: less_induct)
  case less
  show ?case
  proof (cases "rs = []")
    case True
    then show ?thesis using less.prems by (simp add: read_runs.simps)
  next
    case False
    let ?k = "batch_len 0 0 rs"
    have "map (fetch s) rs = map (fetch s) (take ?k rs) @ map (fetch s) (drop ?k rs)" by (simp flip: map_append)
    then obtain res1 where res1: "copy_runs (map (fetch s) (take ?k rs)) res = Ret res1"
      "copy_runs (map (fetch s) (drop ?k rs)) res1 = Ret res'"
      using less.prems by (auto simp: copy_runs_append run_bind_eq_Ret)
    have z: "zip (take ?k rs) (map (\<lambda>r. dev_sectors s (er_lba r) (er_sectors r)) (take ?k rs)) = map (fetch s) (take ?k rs)"
      by (simp add: list_eq_iff_nth_eq fetch_def)
    have "read_runs io (drop ?k rs) res1 s = Ret (Inr res', s)"
      using less.hyps [OF _ res1(2)] batch_len_pos [OF False] False by simp
    then show ?thesis
      using False res1(1) by (subst read_runs.simps) (simp add: Let_def read_batch_ok [OF assms] z)
  qed
qed

text \<open>C12. Reading a file.  For a file whose inode stores a well-formed map, \<open>read_file_data\<close> returns
  the bytes of the requested range up to the end of the file: byte \<open>k\<close> is the byte of the
  device block that the map gives for block \<open>k / 4096\<close>, and zero where the map has a hole.
  The plan of the runs, their caps and the batches do not show.\<close>

theorem read_file_data_correct:
  assumes "io_ok io" "aligned s" "stored s inode m" "em_wf m" "\<not> is_inline_data inode" "unat (ino_size inode) < 2 ^ 43"
  shows "\<exists>s'. read_file_data io inode off count s =
      Ret (Inr (file_bytes s m off (min count (unat (ino_size inode) - off))), s') \<and> quiet s s'"
proof -
  let ?n = "min count (unat (ino_size inode) - off)"
  show ?thesis
  proof (cases "?n = 0")
    case True
    then have "read_file_data io inode off count s = Ret (Inr [], s)" by (auto simp: read_file_data_def Let_def)
    then show ?thesis using True by (simp add: file_bytes_def)
  next
    case False
    obtain s1 where s1: "load_extent_map io inode s = Ret (Inr m, s1)" "quiet s s1" using stored_load [OF assms(1,3)] by blast
    then have fb: "file_bytes s1 m off ?n = file_bytes s m off ?n" "aligned s1"
      using assms(2) by (auto simp: file_bytes_def file_byte_def quiet_def same_meta_def aligned_def block_page_alt
          split: option.split)
    have bound: "off + ?n < 2 ^ 43" using False assms(6) by (auto simp: min_def)
    obtain rs where rs: "plan_runs (block_to_lba s1) m 0 ?n off = Ret rs"
      "copy_runs (map (fetch s1) rs) (replicate ?n 0) = Ret (splice_at 0 (file_bytes s1 m off ?n) (replicate ?n 0))"
      using plan_runs_ok [OF assms(4) fb(2) bound, of 0] by (auto simp: slice_at_def)
    then have "read_runs io rs (replicate ?n 0) s1 = Ret (Inr (file_bytes s m off ?n), s1)"
      using read_runs_ok [OF assms(1)] fb(1) by (simp add: splice_at_def)
    then show ?thesis
      using False s1 rs(1) assms(5) by (auto simp: read_file_data_def Let_def read_via_extents_def)
  qed
qed

lemma example_aligned: "aligned (example_with i)"
  by (simp add: aligned_def example_with_def example_driver_def)

theorem read_file_data_correct_witness:
  "\<exists>s'. read_file_data good_io example_inode 1000 2000 example_file =
      Ret (Inr (file_bytes example_file [new_extent 0 1 100] 1000 (min 2000 (unat (ino_size example_inode) - 1000))), s') \<and>
    quiet example_file s'"
  by (rule read_file_data_correct [OF good_io_ok example_aligned example_inode_wf(2)])
    (simp_all add: ext_ok_def example_inode_def is_inline_data_def inode_new_def)

end
