(* ===== verification/Efs_Write.thy ===== *)
theory Efs_Write
  imports Efs_Read
begin

text \<open>
  What writing a file does.  Over blocks that are mapped already, \<open>write_via_extents\<close> changes
  exactly the written bytes of the file as it is read back from the device.  The cache is
  not told: a page of the file that is cached stays as it was, which the growth of an inline
  file runs into.
\<close>

section \<open>Writing a block\<close>

lemma put_sectors_prefix:
  assumes "length d = 4096" "length (disk k) = 4096" "n \<le> 8"
  shows "foldl (\<lambda>f i. put_sector (8 * k + i) (slice_at (i * 512) 512 d) f) disk [0..<n] =
    disk(k := take (n * 512) d @ drop (n * 512) (disk k))"
  using assms(3)
proof (induction n)
  case (Suc n)
  let ?p = "take (n * 512) d @ drop (n * 512) (disk k)"
  have "splice_at (n * 512) (slice_at (n * 512) 512 d) ?p = take (Suc n * 512) d @ drop (Suc n * 512) (disk k)"
    using Suc.prems assms(1,2) take_add [of "n * 512" 512 d]
    by (simp add: splice_at_def slice_at_def add.commute)
  moreover have "n mod 8 = n" "n div 8 = 0" using Suc.prems by simp_all
  ultimately show ?case using Suc by (simp add: put_sector_def fun_eq_iff)
qed simp

lemma put_block:
  assumes "aligned s" "length d = 4096"
  shows "put_sectors (block_to_lba s p) d (ed_disk s) = (ed_disk s)(block_page s p := d)"
  using put_sectors_prefix [OF assms(2), of "ed_disk s" "block_page s p" 8] assms
  by (simp add: put_sectors_def block_to_lba_alt aligned_def)

definition write_page_direct :: "nat \<Rightarrow> bytes \<Rightarrow> EfsDriver \<Rightarrow> EfsDriver" where
  "write_page_direct p d s = s\<lparr>ed_disk := (ed_disk s)(block_page s p := d)\<rparr>"

lemma write_page_direct_simps [simp]:
  "ed_starting_lba (write_page_direct p d s) = ed_starting_lba s" "ed_bgd_table (write_page_direct p d s) = ed_bgd_table s"
  "ed_superblock (write_page_direct p d s) = ed_superblock s" "ed_cache (write_page_direct p d s) = ed_cache s"
  "ed_inodes_per_group (write_page_direct p d s) = ed_inodes_per_group s"
  "ed_disk (write_page_direct p d s) = (ed_disk s)(block_page s p := d)"
  by (simp_all add: write_page_direct_def)

lemma block_page_direct [simp]: "block_page (write_page_direct p d s) b = block_page s b"
  by (rule block_page_cong) simp

lemma view_direct:
  "view (write_page_direct p d s) b = (if b = p \<and> ed_cache s (block_page s p) = None then d else view s b)"
  by (auto simp: view_def page_view_def split: option.split)

lemma ensure_block_mapped:
  assumes "io_ok io" "file_ok s ino m" "em_abs m (unat l) = Some p"
  shows "\<exists>s1. ensure_block_for_logical io ino l new s = Ret (Inr p, s1) \<and> quiet s s1"
proof -
  let ?alloc = "\<lambda>inode m. ef_bind (ef_run (goal_for m l)) (\<lambda>goal. ef_bind (alloc_blocks io 1 goal) (\<lambda>bs. case bs of
      [] \<Rightarrow> ef_fail NoSpace | p # _ \<Rightarrow> map_new_block io ino inode m l new p))"
  obtain s1 where "ensure_block_for_logical io ino l new s =
      ef_bind (ef_run (lookup m l)) (\<lambda>found. case found of Some p \<Rightarrow> ef_ret p | None \<Rightarrow> ?alloc (the_inode s ino) m) s1"
    and q: "quiet s s1"
    using load_file [OF assms(1,2), of "\<lambda>inode m. ef_bind (ef_run (lookup m l)) (\<lambda>found. case found of
        Some p \<Rightarrow> ef_ret p | None \<Rightarrow> ?alloc inode m)"] unfolding ensure_block_for_logical_def by blast
  moreover have "lookup m l = Ret (Some p)" using lookup_ok [of m l] assms(2,3) by (simp add: file_ok_def)
  ultimately show ?thesis by simp
qed

lemma aligned_quiet: "quiet s s' \<Longrightarrow> aligned s' \<longleftrightarrow> aligned s"
  by (simp add: quiet_def same_meta_def aligned_def)

lemma write_step:
  assumes "io_ok io" "file_ok s ino m" "aligned s" "em_abs m (cur div 4096) = Some p" "data \<noteq> []" "cur < 2 ^ 43"
    "off = cur mod 4096" "n = min (length data) (4096 - off)"
  shows "\<exists>s1. quiet s s1 \<and> write_via_extents io ino cur data s = write_via_extents io ino (cur + n) (drop n data)
    (write_page_direct p (splice_at off (take n data) (ed_disk s (block_page s p))) s1)"
proof -
  let ?l = "word_of_nat (cur div 4096) :: u32" and ?new = "if n = 4096 then Overwritten else Zeroed"
  have "unat ?l = cur div 4096" using assms(6) by (simp add: unat_of_nat less_mult_imp_div_less)
  then obtain s1 where s1: "ensure_block_for_logical io ino ?l ?new s = Ret (Inr p, s1)" "quiet s s1"
    using ensure_block_mapped [OF assms(1,2), of ?l p ?new] assms(4) by auto
  have al: "aligned s1" using s1(2) assms(3) by (simp add: aligned_quiet)
  have pg: "ed_disk s1 = ed_disk s" "block_page s1 p = block_page s p"
    using s1(2) by (auto simp: quiet_def same_meta_def block_page_alt)
  have "off < 4096" using assms(7) by simp
  then have off: "off + n \<le> 4096" using assms(8) by simp
  let ?d = "splice_at off (take n data) (ed_disk s (block_page s p))"
  have len: "length ?d = 4096" using off assms(3,8) by (simp add: aligned_def)
  have rd: "block_read io (block_to_lba s1 p) BLOCK_SIZE s1 = Ret (Inr (ed_disk s (block_page s p)), s1)"
    using dev_page [OF al, of "block_page s1 p"] assms(1) pg block_to_lba_alt [OF al]
    by (simp add: block_read_def io_ok_def BLOCK_SIZE_def)
  have wr: "block_write io (block_to_lba s1 p) ?d s1 = Ret (Inr (), write_page_direct p ?d s1)"
    using put_block [OF al len, of p] assms(1) by (simp add: block_write_def io_ok_def write_page_direct_def)
  have "n = 4096 \<Longrightarrow> splice_at off (take n data) (replicate BLOCK_SIZE 0) = ?d"
    using off assms(3,8) by (simp add: splice_at_def BLOCK_SIZE_def aligned_def)
  then have rw: "ef_bind (if n \<noteq> BLOCK_SIZE then block_read io (block_to_lba s1 p) BLOCK_SIZE else ef_ret (replicate BLOCK_SIZE 0))
      (\<lambda>bd. block_write io (block_to_lba s1 p) (splice_at off (take n data) bd)) s1 = Ret (Inr (), write_page_direct p ?d s1)"
    using rd wr by (cases "n = 4096") (simp_all add: BLOCK_SIZE_def)
  have "write_via_extents io ino cur data s =
      write_via_extents io ino (cur + n) (drop n data) (write_page_direct p ?d s1)"
    using assms(5) s1(1) rw
    by (subst write_via_extents.simps) (simp add: BLOCK_SIZE_def Let_def flip: assms(7) assms(8))
  then show ?thesis using s1(2) by blast
qed

section \<open>Writing in place\<close>

text \<open>The data blocks of a file lie apart from the metadata the driver goes through to reach them,
  and from each other.\<close>

definition data_apart :: "EfsDriver \<Rightarrow> nat \<Rightarrow> ExtentMap \<Rightarrow> bool" where
  "data_apart s ino m \<longleftrightarrow> (\<forall>l p. em_abs m l = Some p \<longrightarrow>
     p \<notin> bitmap_blocks s \<and> p \<noteq> fst (inode_home s ino) \<and> p \<notin> tree_set (the_inode s ino)) \<and>
     (\<forall>l l' p. em_abs m l = Some p \<and> em_abs m l' = Some p \<longrightarrow> l = l')"

lemma data_apart_quiet: "quiet s s' \<Longrightarrow> data_apart s' ino m \<longleftrightarrow> data_apart s ino m"
proof -
  assume q: "quiet s s'"
  then have "bitmap_blocks s' = bitmap_blocks s" by (simp add: same_geometry_bitmaps same_meta_geometry quiet_def)
  then show ?thesis by (simp add: data_apart_def quiet_inodes [OF q])
qed

lemma direct_ok:
  assumes "file_ok s ino m" "length d = 4096" "p \<notin> bitmap_blocks s" "p \<noteq> fst (inode_home s ino)" "p \<notin> tree_set (the_inode s ino)"
  shows "file_ok (write_page_direct p d s) ino m" "the_inode (write_page_direct p d s) ino = the_inode s ino"
    "inode_home (write_page_direct p d s) ino = inode_home s ino" "bitmap_blocks (write_page_direct p d s) = bitmap_blocks s"
    "used (write_page_direct p d s) c \<longleftrightarrow> used s c"
proof -
  let ?s = "write_page_direct p d s"
  have f: "fs_ok s" "ino_ok s ino" "used s (fst (inode_home s ino))" "fst (inode_home s ino) \<notin> tree_set (the_inode s ino)"
    "stored s (the_inode s ino) m" "em_wf m" using assms(1) by (simp_all add: file_ok_def)
  have pg: "pages_4k s \<Longrightarrow> pages_4k ?s"
    using assms(2) by (simp add: pages_4k_def view_direct)
  have v: "\<forall>b \<in> bitmap_blocks s. view ?s b = view s b" using assms(3) by (auto simp: view_direct)
  note fr = alloc_frame [of ?s s, OF _ _ pg v, simplified]
  show "used ?s c \<longleftrightarrow> used s c" by (rule fr)
  show home: "inode_home ?s ino = inode_home s ino" by (simp add: inode_home_def)
  show bb: "bitmap_blocks ?s = bitmap_blocks s" by (simp add: bitmap_blocks_def bitmap_block_of_def)
  show ino: "the_inode ?s ino = the_inode s ino"
    using assms(4) by (auto simp: the_inode_def home view_direct split: prod.splits)
  have "stored ?s (the_inode s ino) m"
    by (rule stored_cong [OF f(5)]) (use f(1) assms(5) in \<open>auto simp: fr view_direct\<close>)
  then show "file_ok ?s ino m" using f fr by (simp add: file_ok_def home ino) (simp add: ino_ok_def)
qed

lemma file_byte_direct:
  assumes "aligned s" "data_apart s ino m" "em_abs m (cur div 4096) = Some p" "cur mod 4096 + length c \<le> 4096"
    "d = splice_at (cur mod 4096) c (ed_disk s (block_page s p))"
  shows "file_byte (write_page_direct p d s) m k = (if cur \<le> k \<and> k < cur + length c then c ! (k - cur) else file_byte s m k)"
proof (cases "k div 4096 = cur div 4096")
  case True
  have len: "length (ed_disk s (block_page s p)) = 4096" using assms(1) by (simp add: aligned_def)
  have k: "k = cur div 4096 * 4096 + k mod 4096" "cur = cur div 4096 * 4096 + cur mod 4096" using True by (metis div_mult_mod_eq)+
  have "cur mod 4096 \<le> k mod 4096 \<longleftrightarrow> cur \<le> k" "k mod 4096 < cur mod 4096 + length c \<longleftrightarrow> k < cur + length c"
    "k mod 4096 - cur mod 4096 = k - cur" using k by linarith+
  then show ?thesis
    using True assms(3,4) len by (simp add: file_byte_def assms(5) nth_splice)
next
  case False
  have "\<not> (cur \<le> k \<and> k < cur + length c)"
  proof
    assume h: "cur \<le> k \<and> k < cur + length c"
    then obtain j where "k = cur + j" "j < length c" by (auto dest: le_Suc_ex)
    then show False using False assms(4) block_of_byte(1) [of cur j] by simp
  qed
  moreover have "em_abs m (k div 4096) = Some q \<Longrightarrow> q \<noteq> p" for q
    using False assms(2,3) by (auto simp: data_apart_def)
  ultimately show ?thesis by (auto simp: file_byte_def split: option.split)
qed

definition wrote :: "EfsDriver \<Rightarrow> nat \<Rightarrow> ExtentMap \<Rightarrow> nat \<Rightarrow> bytes \<Rightarrow> EfsDriver \<Rightarrow> bool" where
  "wrote s ino m cur data s' \<longleftrightarrow> file_ok s' ino m \<and> data_apart s' ino m \<and> aligned s' \<and> the_inode s' ino = the_inode s ino \<and>
     (\<forall>k. file_byte s' m k = (if cur \<le> k \<and> k < cur + length data then data ! (k - cur) else file_byte s m k))"

lemma wrote_step:
  assumes "file_ok s ino m" "data_apart s ino m" "aligned s" "quiet s s1" "em_abs m (cur div 4096) = Some p"
    "cur mod 4096 + length c \<le> 4096"
  shows "wrote s ino m cur c (write_page_direct p (splice_at (cur mod 4096) c (ed_disk s (block_page s p))) s1)"
proof -
  let ?d = "splice_at (cur mod 4096) c (ed_disk s (block_page s p))"
  have pg: "ed_disk s1 = ed_disk s" "block_page s1 q = block_page s q" for q
    using assms(4) by (auto simp: quiet_def same_meta_def block_page_alt)
  have s1: "file_ok s1 ino m" "data_apart s1 ino m" "aligned s1" "the_inode s1 ino = the_inode s ino"
    using assms(1-4) by (simp_all add: file_ok_quiet data_apart_quiet aligned_quiet quiet_inodes)
  have len: "length ?d = 4096" using assms(3,6) by (simp add: aligned_def)
  have p: "p \<notin> bitmap_blocks s1" "p \<noteq> fst (inode_home s1 ino)" "p \<notin> tree_set (the_inode s1 ino)"
    using s1(2) assms(5) by (auto simp: data_apart_def)
  note ok = direct_ok [OF s1(1) len p]
  have "file_byte s1 m k = file_byte s m k" for k by (simp add: file_byte_def pg split: option.split)
  then show ?thesis
    using ok s1 len file_byte_direct [OF s1(3,2) assms(5,6), of ?d] pg
    by (simp add: wrote_def data_apart_def) (simp add: aligned_def)
qed

lemma wrote_trans:
  assumes "wrote s ino m cur a s1" "wrote s1 ino m (cur + length a) b s2"
  shows "wrote s ino m cur (a @ b) s2"
  using assms by (auto simp: wrote_def nth_append)

lemma write_in_place:
  assumes "io_ok io"
  shows "file_ok s ino m \<Longrightarrow> data_apart s ino m \<Longrightarrow> aligned s \<Longrightarrow> cur + length data < 2 ^ 43 \<Longrightarrow>
    \<forall>k. cur \<le> k \<and> k < cur + length data \<longrightarrow> em_abs m (k div 4096) \<noteq> None \<Longrightarrow>
    \<exists>s'. write_via_extents io ino cur data s = Ret (Inr (), s') \<and> wrote s ino m cur data s'"
proof (induction "length data" arbitrary: cur data s rule: less_induct)
  case less
  show ?case
  proof (cases "data = []")
    case True
    then show ?thesis using less.prems by (auto simp: write_via_extents.simps wrote_def)
  next
    case False
    define n where "n = min (length data) (4096 - cur mod 4096)"
    have off: "cur mod 4096 < 4096" by simp
    then have n: "0 < n" "n \<le> length data" "cur mod 4096 + n \<le> 4096" using False by (auto simp: n_def)
    obtain p where p: "em_abs m (cur div 4096) = Some p" using less.prems(5) False by force
    have "cur < 2 ^ 43" using less.prems(4) by simp
    then obtain s1 where s1: "quiet s s1" "write_via_extents io ino cur data s =
        write_via_extents io ino (cur + n) (drop n data)
          (write_page_direct p (splice_at (cur mod 4096) (take n data) (ed_disk s (block_page s p))) s1)"
      using write_step [OF assms less.prems(1,3) p False _ refl n_def] by blast
    let ?s = "write_page_direct p (splice_at (cur mod 4096) (take n data) (ed_disk s (block_page s p))) s1"
    have w: "wrote s ino m cur (take n data) ?s"
      by (rule wrote_step [OF less.prems(1-3) s1(1) p]) (use n in simp)
    have "\<exists>s'. write_via_extents io ino (cur + n) (drop n data) ?s = Ret (Inr (), s') \<and> wrote ?s ino m (cur + n) (drop n data) s'"
      by (rule less.hyps) (use w n less.prems in \<open>auto simp: wrote_def\<close>)
    then obtain s' where "write_via_extents io ino (cur + n) (drop n data) ?s = Ret (Inr (), s')"
      "wrote ?s ino m (cur + n) (drop n data) s'" by blast
    then show ?thesis using s1(2) wrote_trans [OF w, of "drop n data" s'] n by simp
  qed
qed

text \<open>C8. Writing over mapped blocks refines an update of the byte string that the file is: over
  any number of blocks, with partial first and last ones, the written range holds the data,
  every other byte of the file is as before, the map and the inode are untouched, and the
  write succeeds.\<close>

theorem write_in_place_correct:
  assumes "io_ok io" "file_ok s ino m" "data_apart s ino m" "aligned s" "cur + length data < 2 ^ 43"
    "\<forall>k. cur \<le> k \<and> k < cur + length data \<longrightarrow> em_abs m (k div 4096) \<noteq> None"
  shows "\<exists>s'. write_via_extents io ino cur data s = Ret (Inr (), s') \<and> wrote s ino m cur data s'"
  using assms by (rule write_in_place)

section \<open>Growing an inline file\<close>

text \<open>What the conversion leaves: the inline bytes in the cached page of a block that was free, and
  the device untouched.\<close>

definition inline_page :: "EfsInode \<Rightarrow> bytes" where
  "inline_page inode = splice_at 0 (take (min (unat (ino_size inode)) INODE_DATA_AREA_SIZE) (ino_data_area inode)) (replicate 4096 0)"

lemma one_extent_area:
  "splice_at 12 (extent_bytes e) (splice_at 0 (extent_header_bytes h) (replicate INODE_DATA_AREA_SIZE 0)) =
     node_image INODE_DATA_AREA_SIZE h extent_bytes [e]"
proof -
  have "splice_at 0 (extent_header_bytes h) (replicate INODE_DATA_AREA_SIZE 0) = node_image INODE_DATA_AREA_SIZE h extent_bytes []"
    by (simp add: node_image_def splice_at_def INODE_DATA_AREA_SIZE_def)
  then show ?thesis
    using ext.write_next [of "[]" INODE_DATA_AREA_SIZE h e] ext.node_image_length [of "[]" INODE_DATA_AREA_SIZE h]
    by (simp add: write_node_entry_def Let_def INODE_DATA_AREA_SIZE_def)
qed

lemma and_not_and: "(a AND NOT b) AND b = (0 :: 'a::len word)"
  by (rule bit_word_eqI) (auto simp: bit_simps)

lemma one_extent_file:
  assumes "fs_ok s" "ino_ok s ino" "used s (fst (inode_home s ino))" "the_inode s ino = with_checksum (inode\<lparr>ino_flags := f,
      ino_data_area := node_image INODE_DATA_AREA_SIZE (node_header 1 13 0) extent_bytes [new_extent 0 1 p], ino_blocks := 1\<rparr>)"
  shows "file_ok s ino [new_extent 0 1 p]" "tree_set (the_inode s ino) = {}"
proof -
  have d: "ino_data_area (the_inode s ino) = node_image INODE_DATA_AREA_SIZE (node_header (length [new_extent 0 1 p]) 13 0) extent_bytes [new_extent 0 1 p]"
    by (simp add: assms(4) with_checksum_def)
  then have "inode_wf (the_inode s ino)"
    using ext.node_image_length [of "[new_extent 0 1 p]" INODE_DATA_AREA_SIZE] by (simp add: inode_wf_def INODE_DATA_AREA_SIZE_def)
  then have "stored s (the_inode s ino) [new_extent 0 1 p]" using d by (simp add: stored_def)
  moreover show "tree_set (the_inode s ino) = {}" by (simp add: tree_set_def tree_blocks_def d)
  ultimately show "file_ok s ino [new_extent 0 1 p]" using assms(1-3) by (simp add: file_ok_def ext_ok_def)
qed

lemma convert_inline_ok:
  assumes "io_ok io" "fs_ok s" "ino_ok s ino" "used s (fst (inode_home s ino))" "inode_wf inode"
  shows "\<exists>r s'. convert_inline_to_extents io ino inode s = Ret (r, s') \<and> (case r of Inl e \<Rightarrow> e = NoSpace
    | Inr _ \<Rightarrow> \<exists>p. is_free s p \<and> \<not> used s p \<and> used s' p \<and> p < 2 ^ 48 \<and> keeps {fst (inode_home s ino)} s s' \<and>
        file_ok s' ino [new_extent 0 1 p] \<and> tree_set (the_inode s' ino) = {} \<and> \<not> is_inline_data (the_inode s' ino) \<and>
        view s' p = inline_page inode \<and> block_page s p \<in> dom (ed_cache s'))"
proof -
  let ?b = "fst (inode_home s ino)"
  obtain r s1 where r: "alloc_block io s = Ret (r, s1)" "case r of Inr b \<Rightarrow> got_block s b s1 | Inl e \<Rightarrow> e = NoSpace"
    using alloc_block_ok [OF assms(1,2)] by blast
  show ?thesis
  proof (cases r)
    case (Inl e)
    then show ?thesis using r by (simp add: convert_inline_to_extents_def Let_def)
  next
    case (Inr p)
    then have g: "fs_ok s1" "is_free s p" "\<not> used s p" "used s1 p" "p < 2 ^ 48" "keeps {} s s1"
      using r(2) by (auto simp: got_block_def)
    have len: "length (inline_page inode) = 4096" by (simp add: inline_page_def INODE_DATA_AREA_SIZE_def)
    let ?s2 = "put_page (block_page s1 p) (inline_page inode) s1"
    note s2 = put_used [OF g(1,4) len]
    have k2: "keeps {} s ?s2" using g(3,6) s2(2,3) by (auto simp: keeps_def same_geometry_def)
    note home = keeps_home [OF k2 assms(3)]
    let ?u = "inode\<lparr>ino_flags := ino_flags inode AND NOT INODE_FLAG_INLINE_DATA,
      ino_data_area := node_image INODE_DATA_AREA_SIZE (node_header 1 13 0) extent_bytes [new_extent 0 1 p], ino_blocks := 1\<rparr>"
    have wf: "inode_wf (with_checksum ?u)"
      using ext.node_image_length [of "[new_extent 0 1 p]" INODE_DATA_AREA_SIZE] by (simp add: inode_wf_def with_checksum_def INODE_DATA_AREA_SIZE_def)
    have u: "used ?s2 (fst (inode_home ?s2 ino))" using k2 assms(4) home by (simp add: keeps_def)
    obtain s' where s': "write_inode io ino (with_checksum ?u) ?s2 = Ret (Inr (), s')" "fs_ok s'"
      "the_inode s' ino = with_checksum ?u" "keeps {?b} ?s2 s'" "\<forall>c. used s' c \<longleftrightarrow> used ?s2 c"
      "dom (ed_cache ?s2) \<subseteq> dom (ed_cache s')"
      using inode_update_ok [OF assms(1) s2(1) home(2) u wf] home by auto
    note home' = keeps_home [OF s'(4) home(2)]
    have ne: "p \<noteq> ?b" using g(3) assms(4) by auto
    have "convert_inline_to_extents io ino inode s = Ret (Inr (), s')"
      using r(1) Inr assms(1) len s'(1)
      by (simp add: convert_inline_to_extents_def Let_def one_extent_area inline_page_def BLOCK_SIZE_def)
    moreover have "used s' (fst (inode_home s' ino))" using s'(5) u home home' by simp
    note one_extent_file [OF s'(2) home'(2) this s'(3)]
    moreover have "block_page s p \<in> dom (ed_cache s')"
      using s'(6) g(6) block_page_cong [of s1 s p] by (auto simp: keeps_def same_geometry_def)
    moreover have "\<not> is_inline_data (the_inode s' ino)" by (simp add: s'(3) is_inline_data_def with_checksum_def and_not_and)
    moreover have "view s' p = inline_page inode" "used s' p" using s'(4,5) s2(2) g(4) ne by (auto simp: keeps_def)
    moreover have "keeps {?b} s s'" using k2 s'(4) by (auto intro: keeps_trans keeps_mono)
    ultimately show ?thesis using g(2,3,5) by auto
  qed
qed

lemma the_inode_wf: "pages_4k s \<Longrightarrow> inode_wf (the_inode s ino)"
proof -
  assume p: "pages_4k s"
  obtain b off where h: "inode_home s ino = (b, off)" by fastforce
  then show ?thesis using inode_slot [OF h] p
    by (simp add: the_inode_def inode_wf_def inode_of_def pages_4k_def INODE_DATA_AREA_SIZE_def)
qed

text \<open>The part of \<open>write_file_data\<close> behind the data: the size and the time of the inode.\<close>

lemma finish_write_ok:
  assumes "io_ok io" "file_ok s ino m"
  shows "\<exists>s' v. finish_write io now ino e s = Ret (Inr v, s') \<and>
    file_ok s' ino m \<and> ed_disk s' = ed_disk s \<and> keeps {fst (inode_home s ino)} s s'"
proof -
  let ?s = "touch (block_page s (fst (inode_home s ino))) s" and ?i = "the_inode s ino"
  have f: "fs_ok s" "ino_ok s ino" "used s (fst (inode_home s ino))" "fst (inode_home s ino) \<notin> tree_set ?i" "stored s ?i m" "em_wf m"
    using assms(2) by (simp_all add: file_ok_def)
  have q: "quiet s ?s" by simp
  let ?u = "with_checksum ((if e > ino_size ?i then ?i\<lparr>ino_size := e\<rparr> else ?i)\<lparr>ino_mtime_sec := now\<rparr>)"
  have d: "ino_data_area ?u = ino_data_area ?i" by (simp add: with_checksum_def)
  have wf: "inode_wf ?u" using f(5) stored_data_area(3) [OF d] by (simp add: stored_def)
  have h: "inode_home ?s ino = inode_home s ino" "ino_ok ?s ino" using quiet_inodes [OF q] f(2) by simp_all
  obtain s' where s': "write_inode io ino ?u ?s = Ret (Inr (), s')" "fs_ok s'" "the_inode s' ino = ?u"
    "keeps {fst (inode_home s ino)} ?s s'" "\<forall>c. used s' c \<longleftrightarrow> used ?s c"
    using inode_update_ok [OF assms(1) _ h(2) _ wf] f(1,3) h(1) by auto
  have k: "keeps {fst (inode_home s ino)} s s'" using quiet_keeps [OF q] s'(4) by (rule keeps_trans)
  have "stored s' ?i m" by (rule stored_keeps [OF f(5) k s'(2)]) (use f(4) in simp)
  then have "file_ok s' ino m"
    using s'(2,3,5) f stored_data_area [OF d] keeps_home [OF k f(2)] by (simp add: file_ok_def)
  moreover have "ed_disk s' = ed_disk s" using k by (simp add: keeps_def same_geometry_def)
  ultimately show ?thesis using read_inode_ok [OF assms(1) f(2)] s'(1) k by (simp add: finish_write_def Let_def)
qed

lemma grow_block:
  assumes "io_ok io" "file_ok s ino [new_extent 0 1 p]" "aligned s" "p < 2 ^ 48" "data \<noteq> []" "off + length data \<le> 4096"
  shows "\<exists>s1. quiet s s1 \<and> write_via_extents io ino off data s =
    Ret (Inr (), write_page_direct p (splice_at off data (ed_disk s (block_page s p))) s1)"
proof -
  have off: "off < 4096" "min (length data) (4096 - off) = length data" using assms(5,6) by (cases data; simp)+
  have e: "em_abs [new_extent 0 1 p] (off div 4096) = Some p"
    using off(1) assms(4) by (simp add: ext_abs_def map_add_def)
  from write_step [OF assms(1-3) e assms(5) _ refl refl] off assms(6)
  show ?thesis by (auto simp: write_via_extents.simps [of io ino _ "[]"])
qed

lemma grow_converted:
  assumes "io_ok io" "file_ok s ino [new_extent 0 1 p]" "tree_set (the_inode s ino) = {}" "used s p" "p \<noteq> fst (inode_home s ino)"
    "aligned s" "p < 2 ^ 48" "data \<noteq> []" "off + length data \<le> 4096" "block_page s p \<in> dom (ed_cache s)"
  shows "\<exists>v s'. ef_bind (write_via_extents io ino off data) (\<lambda>_. finish_write io now ino e) s = Ret (Inr v, s') \<and>
    file_ok s' ino [new_extent 0 1 p] \<and> view s' p = view s p \<and>
    ed_disk s' (block_page s' p) = splice_at off data (ed_disk s (block_page s p))"
proof -
  let ?d = "splice_at off data (ed_disk s (block_page s p))"
  obtain s2 where s2: "quiet s s2" "write_via_extents io ino off data s = Ret (Inr (), write_page_direct p ?d s2)"
    using grow_block [OF assms(1,2,6-9)] by blast
  have len: "length ?d = 4096" using assms(6,9) by (simp add: aligned_def)
  have f2: "file_ok s2 ino [new_extent 0 1 p]" using assms(2) s2(1) by (simp add: file_ok_quiet)
  have ap: "p \<notin> bitmap_blocks s2" "p \<noteq> fst (inode_home s2 ino)" "p \<notin> tree_set (the_inode s2 ino)"
    using assms(3-5) quiet_inodes [OF s2(1)] quiet_frame(2) [OF s2(1), of p] by (auto simp: used_def)
  let ?s3 = "write_page_direct p ?d s2"
  note f3 = direct_ok [OF f2 len ap]
  have c2: "ed_cache s2 (block_page s2 p) \<noteq> None" "block_page s2 p = block_page s p" "view s2 p = view s p"
    using assms(10) s2(1) by (auto simp: quiet_def same_meta_def block_page_alt)
  obtain s' v where fin: "finish_write io now ino e ?s3 = Ret (Inr v, s')"
    "file_ok s' ino [new_extent 0 1 p]" "ed_disk s' = ed_disk ?s3" "keeps {fst (inode_home ?s3 ino)} ?s3 s'"
    using finish_write_ok [OF assms(1) f3(1)] by blast
  have "used ?s3 p" using f3(5) assms(4) quiet_frame(2) [OF s2(1)] by simp
  then have "view s' p = view s p" using fin(4) f3(3) ap(2) c2 by (auto simp: keeps_def view_direct)
  moreover have "ed_disk s' (block_page s' p) = ?d"
    using fin(3,4) c2(2) block_page_cong [of s2 s' p] by (simp add: keeps_def same_geometry_def)
  ultimately show ?thesis using s2(2) fin(1,2) by simp
qed

text \<open>C34. A write that makes an inline file outgrow its inode splits the content.  The bytes that
  were inline go to the cached page of the new block, through the journal; the new data is
  merged with what the device held in that block before, behind the back of the cache.  The
  device, which is what file reads go to, then has the old content of a free block where the
  inline bytes belong, and the dirty cached page, which is written back later, lacks the
  new data.\<close>

theorem inline_growth_splits_content:
  assumes "io_ok io" "fs_ok s" "ino_ok s ino" "used s (fst (inode_home s ino))" "is_inline_data (the_inode s ino)" "aligned s"
    "data \<noteq> []" "176 < off + length data" "off + length data \<le> 4096"
  shows "\<exists>r s'. write_file_data io now ino off data s = Ret (r, s') \<and> (case r of Inl e \<Rightarrow> e = NoSpace
    | Inr _ \<Rightarrow> \<exists>p. is_free s p \<and> file_ok s' ino [new_extent 0 1 p] \<and> view s' p = inline_page (the_inode s ino) \<and>
        ed_disk s' (block_page s' p) = splice_at off data (ed_disk s (block_page s p)))"
proof -
  let ?b = "fst (inode_home s ino)" and ?i = "the_inode s ino"
  let ?s0 = "touch (block_page s ?b) s"
  have q: "quiet s ?s0" by simp
  note q0 = quiet_frame [OF q] quiet_inodes [OF q]
  obtain r s1 where r: "convert_inline_to_extents io ino ?i ?s0 = Ret (r, s1)" "case r of Inl e \<Rightarrow> e = NoSpace
    | Inr _ \<Rightarrow> \<exists>p. is_free ?s0 p \<and> \<not> used ?s0 p \<and> used s1 p \<and> p < 2 ^ 48 \<and> keeps {fst (inode_home ?s0 ino)} ?s0 s1 \<and>
        file_ok s1 ino [new_extent 0 1 p] \<and> tree_set (the_inode s1 ino) = {} \<and> \<not> is_inline_data (the_inode s1 ino) \<and>
        view s1 p = inline_page ?i \<and> block_page ?s0 p \<in> dom (ed_cache s1)"
    using convert_inline_ok [OF assms(1), of ?s0 ino ?i] assms(2-4) the_inode_wf [OF fs_ok_pages [OF assms(2)]] q0 by auto
  have run: "write_file_data io now ino off data s = ef_bind (convert_inline_to_extents io ino ?i) (\<lambda>_.
      ef_bind (write_via_extents io ino off data) (\<lambda>_. finish_write io now ino (word_of_nat (off + length data)))) ?s0"
    using assms(5,7,8) read_inode_ok [OF assms(1,3)] by (simp add: write_file_data_def INODE_DATA_AREA_SIZE_def Let_def)
  show ?thesis
  proof (cases r)
    case (Inl e)
    then show ?thesis using r run by simp
  next
    case (Inr x)
    then obtain p where p: "is_free s p" "\<not> used s p" "used s1 p" "p < 2 ^ 48" "keeps {?b} ?s0 s1"
      "file_ok s1 ino [new_extent 0 1 p]" "tree_set (the_inode s1 ino) = {}" "view s1 p = inline_page ?i"
      "block_page s p \<in> dom (ed_cache s1)" using r(2) q0 by auto
    have geo: "ed_disk s1 = ed_disk s" "ed_starting_lba s1 = ed_starting_lba s" using p(5) by (simp_all add: keeps_def same_geometry_def)
    then have al: "aligned s1" "block_page s1 p = block_page s p" using assms(6) by (simp_all add: aligned_def block_page_alt)
    have "p \<noteq> fst (inode_home s1 ino)" using keeps_home(1) [OF p(5)] assms(3,4) q0 p(2) by auto
    from grow_converted [OF assms(1) p(6,7,3) this al(1) p(4) assms(7,9)] p(1,8,9) run r(1) Inr geo al
    show ?thesis by fastforce
  qed
qed

section \<open>Examples\<close>

theorem write_in_place_correct_witness:
  "\<exists>s'. write_via_extents good_io 2 10 [1, 2, 3] example_file = Ret (Inr (), s') \<and>
     wrote example_file 2 [new_extent 0 1 100] 10 [1, 2, 3] s'"
proof (rule write_in_place_correct [OF good_io_ok example_file_ok _ example_aligned])
  show "data_apart example_file 2 [new_extent 0 1 100]"
    using example_with_ok(3,4) [OF example_inode_wf(1)] example_inode_wf(3)
    by (auto simp: data_apart_def example_with_fields map_add_def ext_abs_def split: if_splits)
  show "\<forall>k. 10 \<le> k \<and> k < 10 + length [1, 2, 3 :: byte] \<longrightarrow> em_abs [new_extent 0 1 100] (k div 4096) \<noteq> None"
    by (auto simp: map_add_def ext_abs_def)
qed simp

definition example_inline :: EfsInode where
  "example_inline = (inode_new S_IFREG (100, 5))\<lparr>ino_size := 3, ino_flags := INODE_FLAG_INLINE_DATA,
     ino_data_area := [7, 8, 9] @ replicate 173 0\<rparr>"

theorem inline_growth_splits_content_witness:
  "\<exists>r s'. write_file_data good_io 50 2 3 (replicate 200 1) (example_with example_inline) = Ret (r, s') \<and> (case r of
      Inl e \<Rightarrow> e = NoSpace
    | Inr _ \<Rightarrow> \<exists>p. is_free (example_with example_inline) p \<and> file_ok s' 2 [new_extent 0 1 p] \<and>
        view s' p = inline_page (the_inode (example_with example_inline) 2) \<and>
        ed_disk s' (block_page s' p) =
          splice_at 3 (replicate 200 1) (ed_disk (example_with example_inline) (block_page (example_with example_inline) p)))"
proof -
  have wf: "inode_wf example_inline" by (simp add: inode_wf_def example_inline_def INODE_DATA_AREA_SIZE_def)
  have fl: "is_inline_data example_inline" by (simp add: is_inline_data_def example_inline_def INODE_FLAG_INLINE_DATA_def)
  note ok = example_with_ok [OF wf]
  show ?thesis
    by (rule inline_growth_splits_content [OF good_io_ok ok(1) example_with_fields(5) _ _ example_aligned])
      (simp_all add: ok example_with_fields fl)
qed

end
