(* ===== verification/Efs_Dir.thy ===== *)
theory Efs_Dir
  imports Efs_File
begin

text \<open>
  Directories of the EFS driver (\<open>kernel/src/fs/efs/mod.rs\<close>): the chain of records in the
  directory's bytes, listing, lookup, adding and removing an entry, and the driver's
  operations around them.  A record is a twelve-byte header with inode, record length, name
  length and type, the name, and slack; a record with inode zero is deleted.  Every index
  and slice that can be out of range on a damaged directory panics in the model, and so does a
  buffer larger than half the address space.
\<close>

section \<open>UTF-8\<close>

text \<open>\<open>core::str::from_utf8\<close>: the well-formed byte sequences of the Unicode standard.\<close>

definition cont_byte :: "byte \<Rightarrow> bool" where "cont_byte b \<longleftrightarrow> 0x80 \<le> b \<and> b \<le> 0xBF"

fun valid_utf8 :: "bytes \<Rightarrow> bool" where
  "valid_utf8 [] = True"
| "valid_utf8 (a # rest) =
     (if a \<le> 0x7F then valid_utf8 rest
      else if 0xC2 \<le> a \<and> a \<le> 0xDF then (case rest of
          b # rest' \<Rightarrow> cont_byte b \<and> valid_utf8 rest' | _ \<Rightarrow> False)
      else if 0xE0 \<le> a \<and> a \<le> 0xEF then (case rest of
          b # c # rest' \<Rightarrow> cont_byte b \<and> cont_byte c \<and> (a = 0xE0 \<longrightarrow> 0xA0 \<le> b) \<and> (a = 0xED \<longrightarrow> b \<le> 0x9F) \<and> valid_utf8 rest'
        | _ \<Rightarrow> False)
      else if 0xF0 \<le> a \<and> a \<le> 0xF4 then (case rest of
          b # c # d # rest' \<Rightarrow> cont_byte b \<and> cont_byte c \<and> cont_byte d \<and> (a = 0xF0 \<longrightarrow> 0x90 \<le> b) \<and>
            (a = 0xF4 \<longrightarrow> b \<le> 0x8F) \<and> valid_utf8 rest'
        | _ \<Rightarrow> False)
      else False)"

section \<open>Records\<close>

definition hdr_at :: "bytes \<Rightarrow> nat \<Rightarrow> EfsDirEntryHeader" where
  "hdr_at data offset = dir_entry_header_of (drop offset data)"

function parse_from :: "bytes \<Rightarrow> nat \<Rightarrow> (bytes \<times> u64 \<times> u8) list" where
  "parse_from data offset =
     (if offset + DIR_ENTRY_HEADER_SIZE > length data then []
      else let hdr = hdr_at data offset; rec_len = unat (de_rec_len hdr)
        in if rec_len < DIR_ENTRY_HEADER_SIZE \<or> offset + rec_len > length data then []
           else let name_start = offset + DIR_ENTRY_HEADER_SIZE;
                    name_bytes = slice_at name_start (unat (de_name_len hdr)) data;
                    rest = parse_from data (offset + rec_len)
                in if de_inode hdr \<noteq> 0 \<and> name_start + unat (de_name_len hdr) \<le> length data \<and> valid_utf8 name_bytes
                   then (name_bytes, de_inode hdr, de_file_type hdr) # rest else rest)"
  by pat_completeness auto
termination
  by (relation "measure (\<lambda>(data, offset). length data - offset)") (auto simp: DIR_ENTRY_HEADER_SIZE_def)

definition parse_dir_entries_from_bytes :: "bytes \<Rightarrow> (bytes \<times> u64 \<times> u8) list" where
  "parse_dir_entries_from_bytes data = parse_from data 0"

function lookup_from :: "bytes \<Rightarrow> bytes \<Rightarrow> nat \<Rightarrow> (u64 \<times> u8) option" where
  "lookup_from data name offset =
     (if offset + DIR_ENTRY_HEADER_SIZE > length data then None
      else let hdr = hdr_at data offset; rec_len = unat (de_rec_len hdr)
        in if rec_len < DIR_ENTRY_HEADER_SIZE \<or> offset + rec_len > length data then None
           else let ns = offset + DIR_ENTRY_HEADER_SIZE
                in if de_inode hdr \<noteq> 0 \<and> unat (de_name_len hdr) = length name \<and>
                      ns + unat (de_name_len hdr) \<le> length data \<and> slice_at ns (unat (de_name_len hdr)) data = name
                   then Some (de_inode hdr, de_file_type hdr)
                   else lookup_from data name (offset + rec_len))"
  by pat_completeness auto
termination
  by (relation "measure (\<lambda>(data, name, offset). length data - offset)") (auto simp: DIR_ENTRY_HEADER_SIZE_def)

declare parse_from.simps [simp del] lookup_from.simps [simp del]

section \<open>Adding\<close>

definition live_min :: "EfsDirEntryHeader \<Rightarrow> nat" where
  "live_min hdr = (if de_inode hdr \<noteq> 0 then unat (dir_entry_min_size (de_name_len hdr)) else 0)"

function find_slot :: "bytes \<Rightarrow> nat \<Rightarrow> nat \<Rightarrow> nat option" where
  "find_slot data needed offset =
     (if offset + DIR_ENTRY_HEADER_SIZE > length data then None
      else let hdr = hdr_at data offset; rec_len = unat (de_rec_len hdr)
        in if rec_len < DIR_ENTRY_HEADER_SIZE then None
           else if rec_len - live_min hdr \<ge> needed then Some offset
           else find_slot data needed (offset + rec_len))"
  by pat_completeness auto
termination
  by (relation "measure (\<lambda>(data, needed, offset). length data - offset)") (auto simp: DIR_ENTRY_HEADER_SIZE_def)

declare find_slot.simps [simp del]

definition write_dir_entry :: "bytes \<Rightarrow> u64 \<Rightarrow> u16 \<Rightarrow> u8 \<Rightarrow> u8 \<Rightarrow> bytes \<Rightarrow> bytes run" where
  "write_dir_entry buf inode rec_len name_len file_type name_bytes =
     (if length buf < DIR_ENTRY_HEADER_SIZE then Panic
      else let buf' = splice_at 0 (dir_entry_header_bytes \<lparr>de_inode = inode, de_rec_len = rec_len,
                 de_name_len = name_len, de_file_type = file_type\<rparr>) buf
        in if DIR_ENTRY_HEADER_SIZE + unat name_len \<le> length buf
           then if length name_bytes \<noteq> unat name_len then Panic
             else Ret (splice_at DIR_ENTRY_HEADER_SIZE name_bytes buf')
           else Ret buf')"

definition split_entry :: "bytes \<Rightarrow> nat \<Rightarrow> u64 \<Rightarrow> u8 \<Rightarrow> bytes \<Rightarrow> bytes run" where
  "split_entry data off entry_ino file_type name =
     (let hdr = hdr_at data off;
          rec_len = unat (de_rec_len hdr);
          existing_min = live_min hdr;
          data' = (if de_inode hdr \<noteq> 0 then splice_at (off + 8) (put_u16 (word_of_nat existing_min)) data else data);
          insert_off = off + existing_min;
          remaining = rec_len - existing_min
      in if rec_len < existing_min \<or> insert_off + remaining > length data' then Panic
         else run_bind (write_dir_entry (slice_at insert_off remaining data') entry_ino (word_of_nat remaining)
             (word_of_nat (length name)) file_type name) (\<lambda>buf. Ret (splice_at insert_off buf data')))"

section \<open>Removing\<close>

function find_prev_from :: "bytes \<Rightarrow> nat \<Rightarrow> nat \<Rightarrow> nat" where
  "find_prev_from data end_offset off =
     (if off < end_offset
      then if off + DIR_ENTRY_HEADER_SIZE > length data then 0
        else let rec_len = unat (get_u16 (off + 8) data); next = off + rec_len
          in if rec_len < DIR_ENTRY_HEADER_SIZE then 0
             else if next = end_offset then rec_len
             else if next > end_offset then 0
             else find_prev_from data end_offset next
      else 0)"
  by pat_completeness auto
termination
  by (relation "measure (\<lambda>(data, end_offset, off). end_offset - off)") (auto simp: DIR_ENTRY_HEADER_SIZE_def)

declare find_prev_from.simps [simp del]

definition find_prev_entry_len :: "bytes \<Rightarrow> nat \<Rightarrow> nat" where
  "find_prev_entry_len data end_offset = find_prev_from data end_offset (end_offset div BLOCK_SIZE * BLOCK_SIZE)"

text \<open>Deleting the record at \<open>offset\<close>: the inode is zeroed and the record before it takes over its
  space.\<close>

definition delete_record :: "bytes \<Rightarrow> nat \<Rightarrow> nat \<Rightarrow> nat \<Rightarrow> bytes run" where
  "delete_record data offset rec_len prev_end =
     (let data' = splice_at offset (replicate 8 0) data
      in if prev_end > 0
         then let prev_off = prev_end - find_prev_entry_len data' prev_end;
                  new_rec_len = unat (de_rec_len (hdr_at data' prev_off)) + rec_len
           in if prev_off + 10 > length data' then Panic
              else Ret (splice_at (prev_off + 8) (put_u16 (word_of_nat new_rec_len)) data')
         else Ret data')"

function remove_from :: "bytes \<Rightarrow> bytes \<Rightarrow> nat \<Rightarrow> nat \<Rightarrow> bytes option run" where
  "remove_from data name offset prev_end =
     (if offset + DIR_ENTRY_HEADER_SIZE > length data then Ret None
      else let hdr = hdr_at data offset; rec_len = unat (de_rec_len hdr)
        in if rec_len < DIR_ENTRY_HEADER_SIZE then Ret None
           else let name_start = offset + DIR_ENTRY_HEADER_SIZE
                in if de_inode hdr \<noteq> 0 \<and> name_start + unat (de_name_len hdr) \<le> length data \<and>
                      slice_at name_start (unat (de_name_len hdr)) data = name
                   then run_bind (delete_record data offset rec_len prev_end) (\<lambda>d. Ret (Some d))
                   else remove_from data name (offset + rec_len) (offset + rec_len))"
  by pat_completeness auto
termination
  by (relation "measure (\<lambda>(data, name, offset, prev_end). length data - offset)") (auto simp: DIR_ENTRY_HEADER_SIZE_def)

declare remove_from.simps [simp del]

section \<open>Driver operations\<close>

fun read_dir_blocks :: "page_io \<Rightarrow> nat \<Rightarrow> nat list \<Rightarrow> nat \<Rightarrow> bytes \<Rightarrow> bytes efs" where
  "read_dir_blocks io dir_size [] result_pos result = ef_ret result"
| "read_dir_blocks io dir_size (b # bs) result_pos result =
     (if result_pos \<ge> dir_size then read_dir_blocks io dir_size bs result_pos result
      else ef_bind (read_block io b) (\<lambda>block_data.
        let copy_len = min (dir_size - result_pos) BLOCK_SIZE
        in read_dir_blocks io dir_size bs (result_pos + copy_len) (splice_at result_pos (take copy_len block_data) result)))"

definition read_dir_data_cached :: "page_io \<Rightarrow> EfsInode \<Rightarrow> bytes efs" where
  "read_dir_data_cached io inode =
     (let dir_size = unat (ino_size inode) in
      if dir_size = 0 then ef_ret []
      else if is_inline_data inode then ef_ret (take (min dir_size INODE_DATA_AREA_SIZE) (ino_data_area inode))
      else ef_bind (load_extent_map io inode) (\<lambda>extents.
        ef_bind (ef_assert (dir_size < 2 ^ 63)) (\<lambda>_.
        read_dir_blocks io dir_size (extent_blocks extents) 0 (replicate dir_size 0))))"

definition read_dir_entries :: "page_io \<Rightarrow> nat \<Rightarrow> (bytes \<times> u64 \<times> u8) list efs" where
  "read_dir_entries io ino =
     ef_bind (read_inode io ino) (\<lambda>inode.
       if \<not> is_dir inode then ef_fail NotADir
       else ef_bind (read_dir_data_cached io inode) (\<lambda>dir_data. ef_ret (parse_dir_entries_from_bytes dir_data)))"

definition lookup_in_dir :: "page_io \<Rightarrow> nat \<Rightarrow> bytes \<Rightarrow> (u64 \<times> u8) option efs" where
  "lookup_in_dir io dir_ino name =
     ef_bind (read_inode io dir_ino) (\<lambda>inode.
       if \<not> is_dir inode then ef_fail NotADir
       else ef_bind (read_dir_data_cached io inode) (\<lambda>dir_data. ef_ret (lookup_from dir_data name 0)))"

function write_blocks_from :: "page_io \<Rightarrow> nat \<Rightarrow> bytes \<Rightarrow> nat \<Rightarrow> unit efs" where
  "write_blocks_from io dir_ino dir_data written s =
     (if written < length dir_data
      then case ef_bind (ensure_block_for_logical io dir_ino (word_of_nat (written div BLOCK_SIZE)) Overwritten) (\<lambda>phys_block.
             let chunk = slice_at written BLOCK_SIZE dir_data
             in write_block io phys_block (splice_at 0 chunk (replicate BLOCK_SIZE 0))) s of
             Panic \<Rightarrow> Panic
           | Ret (Inl e, s') \<Rightarrow> Ret (Inl e, s')
           | Ret (Inr _, s') \<Rightarrow> write_blocks_from io dir_ino dir_data (written + BLOCK_SIZE) s'
      else Ret (Inr (), s))"
  by pat_completeness auto
termination
  by (relation "measure (\<lambda>(io, ino, data, written, s). length data - written)") (auto simp: BLOCK_SIZE_def)

declare write_blocks_from.simps [simp del]

definition write_dir_blocks :: "page_io \<Rightarrow> nat \<Rightarrow> bytes \<Rightarrow> unit efs" where
  "write_dir_blocks io dir_ino dir_data =
     ef_bind (read_inode io dir_ino) (\<lambda>dir_inode.
       if is_inline_data dir_inode
       then let copy_len = min (length dir_data) INODE_DATA_AREA_SIZE
         in write_inode io dir_ino (with_checksum (dir_inode\<lparr>ino_data_area :=
              splice_at 0 (take copy_len dir_data) (ino_data_area dir_inode)\<rparr>))
       else write_blocks_from io dir_ino dir_data 0)"

text \<open>The new modification time, and the new size when the directory has grown.\<close>

definition stamp_dir :: "page_io \<Rightarrow> u64 \<Rightarrow> nat \<Rightarrow> u64 option \<Rightarrow> unit efs" where
  "stamp_dir io now dir_ino new_size =
     ef_bind (read_inode io dir_ino) (\<lambda>inode.
       let sized = (case new_size of None \<Rightarrow> inode | Some sz \<Rightarrow> inode\<lparr>ino_size := sz\<rparr>)
       in write_inode io dir_ino (with_checksum (sized\<lparr>ino_mtime_sec := now\<rparr>)))"

definition append_dir_block :: "page_io \<Rightarrow> u64 \<Rightarrow> nat \<Rightarrow> nat \<Rightarrow> bytes \<Rightarrow> unit efs" where
  "append_dir_block io now dir_ino dir_size block =
     ef_bind (read_inode io dir_ino) (\<lambda>dir_inode2.
     ef_bind (if is_inline_data dir_inode2 then convert_inline_to_extents io dir_ino dir_inode2 else ef_ret ()) (\<lambda>_.
     ef_bind (ensure_block_for_logical io dir_ino (word_of_nat (dir_size div BLOCK_SIZE)) Overwritten) (\<lambda>phys_block.
     ef_bind (write_block io phys_block block) (\<lambda>_.
     stamp_dir io now dir_ino (Some (word_of_nat (dir_size + BLOCK_SIZE)))))))"

definition add_dir_entry :: "page_io \<Rightarrow> u64 \<Rightarrow> nat \<Rightarrow> bytes \<Rightarrow> u64 \<Rightarrow> u8 \<Rightarrow> unit efs" where
  "add_dir_entry io now dir_ino name entry_ino file_type =
     (let name_len = word_of_nat (length name) :: u8;
          needed = unat (dir_entry_min_size name_len)
      in ef_bind (read_inode io dir_ino) (\<lambda>dir_inode.
         ef_bind (read_dir_data_cached io dir_inode) (\<lambda>dir_data. case find_slot dir_data needed 0 of
           Some off \<Rightarrow>
             ef_bind (ef_run (split_entry dir_data off entry_ino file_type name)) (\<lambda>dir_data'.
             ef_bind (write_dir_blocks io dir_ino dir_data') (\<lambda>_. stamp_dir io now dir_ino None))
         | None \<Rightarrow>
             let dir_size = unat (ino_size dir_inode);
                 grown = take (dir_size + BLOCK_SIZE) (dir_data @ replicate (dir_size + BLOCK_SIZE) 0)
             in ef_bind (ef_assert (dir_size + BLOCK_SIZE < 2 ^ 63)) (\<lambda>_.
                ef_bind (ef_run (write_dir_entry (slice_at dir_size BLOCK_SIZE grown) entry_ino (word_of_nat BLOCK_SIZE)
                  name_len file_type name)) (\<lambda>block. append_dir_block io now dir_ino dir_size block)))))"

definition remove_dir_entry :: "page_io \<Rightarrow> u64 \<Rightarrow> nat \<Rightarrow> bytes \<Rightarrow> unit efs" where
  "remove_dir_entry io now dir_ino name =
     ef_bind (read_inode io dir_ino) (\<lambda>dir_inode.
     ef_bind (read_dir_data_cached io dir_inode) (\<lambda>dir_data.
     ef_bind (ef_run (remove_from dir_data name 0 0)) (\<lambda>r. case r of
       None \<Rightarrow> ef_fail FileNotFound
     | Some dir_data' \<Rightarrow> ef_bind (write_dir_blocks io dir_ino dir_data') (\<lambda>_. stamp_dir io now dir_ino None))))"

end
