(* ===== verification/Efs_Dir_Records.thy ===== *)
theory Efs_Dir_Records
  imports Efs_Dir
begin

text \<open>
  What the operations of \<open>Efs_Dir\<close> do to the bytes of a directory.  The bytes are the images
  of a list of records; the directory is the partial function from names to inode and type
  that the live records of the list stand for.
\<close>

section \<open>Lookup and listing\<close>

lemma lookup_is_listing:
  assumes "valid_utf8 name"
  shows "lookup_from data name offset = map_of (parse_from data offset) name"
proof (induction data offset rule: parse_from.induct)
  case (1 data offset)
  let ?h = "hdr_at data offset"
  show ?case
  proof (cases "offset + DIR_ENTRY_HEADER_SIZE > length data \<or> unat (de_rec_len ?h) < DIR_ENTRY_HEADER_SIZE \<or>
      offset + unat (de_rec_len ?h) > length data")
    case True
    then show ?thesis by (subst lookup_from.simps, subst parse_from.simps) (auto simp: Let_def)
  next
    case False
    then have "lookup_from data name (offset + unat (de_rec_len ?h)) = map_of (parse_from data (offset + unat (de_rec_len ?h))) name"
      using 1 by simp
    then show ?thesis using False assms
      by (subst lookup_from.simps, subst parse_from.simps) (auto simp: Let_def)
  qed
qed

section \<open>Record images\<close>

record drec =
  dr_inode :: u64
  dr_name_len :: u8
  dr_file_type :: u8
  dr_body :: bytes

definition dr_len :: "drec \<Rightarrow> nat" where "dr_len r = 12 + length (dr_body r)"

definition dr_hdr :: "drec \<Rightarrow> EfsDirEntryHeader" where
  "dr_hdr r = \<lparr>de_inode = dr_inode r, de_rec_len = word_of_nat (dr_len r),
     de_name_len = dr_name_len r, de_file_type = dr_file_type r\<rparr>"

definition rec_bytes :: "drec \<Rightarrow> bytes" where
  "rec_bytes r = dir_entry_header_bytes (dr_hdr r) @ dr_body r"

definition dr_name :: "drec \<Rightarrow> bytes" where "dr_name r = take (unat (dr_name_len r)) (dr_body r)"

definition drec_ok :: "drec \<Rightarrow> bool" where
  "drec_ok r \<longleftrightarrow> dr_len r < 65536 \<and> (dr_inode r \<noteq> 0 \<longrightarrow> unat (dir_entry_min_size (dr_name_len r)) \<le> dr_len r)"

definition chain :: "drec list \<Rightarrow> bytes" where "chain rs = concat (map rec_bytes rs)"

definition entry_of :: "drec \<Rightarrow> bytes \<rightharpoonup> u64 \<times> u8" where
  "entry_of r = (if dr_inode r = 0 then Map.empty else [dr_name r \<mapsto> (dr_inode r, dr_file_type r)])"

primrec dir_abs :: "drec list \<Rightarrow> bytes \<rightharpoonup> u64 \<times> u8" where
  "dir_abs [] = Map.empty"
| "dir_abs (r # rs) = dir_abs rs ++ entry_of r"

lemma rec_bytes_length [simp]: "length (rec_bytes r) = dr_len r"
  by (simp add: rec_bytes_def dr_len_def len_simps)

lemma dr_len_ge: "12 \<le> dr_len r"
  by (simp add: dr_len_def)

lemma chain_simps [simp]:
  "chain [] = []" "chain (r # rs) = rec_bytes r @ chain rs" "chain (rs @ ts) = chain rs @ chain ts"
  by (simp_all add: chain_def)

lemma dir_abs_append: "dir_abs (xs @ ys) = dir_abs ys ++ dir_abs xs"
  by (induction xs) simp_all

lemma min_size_value: "unat (dir_entry_min_size n) = (unat n + 15) div 4 * 4"
proof -
  have n: "unat n < 256" using unat_less2p [of n] by simp
  have "(12 + ucast n + 3 :: u16) AND NOT 3 = (ucast n + 15) AND NOT (mask 2)"
    by (simp add: mask_eq_exp_minus_1 add.commute)
  also have "\<dots> = push_bit 2 (drop_bit 2 (ucast n + 15))"
    by (rule bit_word_eqI) (auto simp: bit_simps simp flip: add_2_eq_Suc)
  finally have e: "dir_entry_min_size n = push_bit 2 (drop_bit 2 (ucast n + 15))"
    by (simp add: dir_entry_min_size_def DIR_ENTRY_HEADER_SIZE_def)
  have v: "unat (ucast n + 15 :: u16) = unat n + 15"
    using n by (simp add: unat_word_ariths unsigned_ucast_eq take_bit_eq_mod)
  have "unat (push_bit 2 (drop_bit 2 (ucast n + 15)) :: u16) = take_bit 16 (push_bit 2 (drop_bit 2 (unat n + 15)))"
    using n by (simp only: unsigned_push_bit_eq unsigned_drop_bit_eq v) (simp add: take_bit_eq_mod)
  then show ?thesis unfolding e using n
    by (simp add: push_bit_eq_mult drop_bit_eq_div take_bit_eq_mod)
qed

lemma drec_ok_name: "drec_ok r \<Longrightarrow> dr_inode r \<noteq> 0 \<Longrightarrow> 12 + unat (dr_name_len r) \<le> dr_len r"
  by (auto simp: drec_ok_def min_size_value)

lemma hdr_at_chain:
  assumes "off = length a"
  shows "hdr_at (a @ rec_bytes r @ b) off = dr_hdr r"
  using assms by (simp add: hdr_at_def rec_bytes_def dir_entry_header_roundtrip)

lemma rec_len_val: "drec_ok r \<Longrightarrow> unat (de_rec_len (dr_hdr r)) = dr_len r"
  by (simp add: dr_hdr_def drec_ok_def unat_of_nat take_bit_eq_mod)

lemma slice_name:
  assumes "off = length a" "drec_ok r" "dr_inode r \<noteq> 0"
  shows "slice_at (off + 12) (unat (dr_name_len r)) (a @ rec_bytes r @ b) = dr_name r"
  using drec_ok_name [OF assms(2,3)] assms(1)
  by (simp add: rec_bytes_def slice_append_ge slice_at_def dr_name_def dr_len_def len_simps)

lemma dr_name_length: "drec_ok r \<Longrightarrow> dr_inode r \<noteq> 0 \<Longrightarrow> length (dr_name r) = unat (dr_name_len r)"
  using drec_ok_name [of r] by (simp add: dr_name_def dr_len_def)

section \<open>Looking up in a chain\<close>

lemma lookup_step:
  assumes "off = length a" "drec_ok r"
  shows "lookup_from (a @ rec_bytes r @ b) name off =
    (if dr_inode r \<noteq> 0 \<and> dr_name r = name then Some (dr_inode r, dr_file_type r)
     else lookup_from (a @ rec_bytes r @ b) name (off + dr_len r))"
proof -
  let ?d = "a @ rec_bytes r @ b"
  have h: "hdr_at ?d off = dr_hdr r" by (rule hdr_at_chain [OF assms(1)])
  have hd: "de_inode (dr_hdr r) = dr_inode r" "de_name_len (dr_hdr r) = dr_name_len r" "de_file_type (dr_hdr r) = dr_file_type r"
    by (simp_all add: dr_hdr_def)
  have len: "off + dr_len r \<le> length ?d" using assms(1) by simp
  note nm = slice_name [OF assms(1,2), of b] drec_ok_name [OF assms(2)] dr_name_length [OF assms(2)]
  show ?thesis
    using dr_len_ge [of r] len nm
    by (subst lookup_from.simps) (auto simp: Let_def h hd rec_len_val [OF assms(2)] DIR_ENTRY_HEADER_SIZE_def add.assoc)
qed

lemma lookup_chain_at:
  assumes "\<forall>r \<in> set rs. drec_ok r" "off = length a"
  shows "lookup_from (a @ chain rs) name off = dir_abs rs name"
  using assms
proof (induction rs arbitrary: a off)
  case Nil
  then show ?case by (subst lookup_from.simps) (simp add: DIR_ENTRY_HEADER_SIZE_def)
next
  case (Cons r rs)
  have "lookup_from ((a @ rec_bytes r) @ chain rs) name (off + dr_len r) = dir_abs rs name"
    by (rule Cons.IH) (use Cons.prems in simp_all)
  then show ?case
    using lookup_step [of off a r "chain rs" name] Cons.prems by (auto simp: entry_of_def map_add_def)
qed

lemma lookup_chain: "\<forall>r \<in> set rs. drec_ok r \<Longrightarrow> lookup_from (chain rs) name 0 = dir_abs rs name"
  using lookup_chain_at [of rs 0 "[]" name] by simp

section \<open>Adding to a chain\<close>

definition dr_min :: "drec \<Rightarrow> nat" where
  "dr_min r = (if dr_inode r \<noteq> 0 then unat (dir_entry_min_size (dr_name_len r)) else 0)"

definition shrunk :: "drec \<Rightarrow> drec list" where
  "shrunk r = (if dr_inode r \<noteq> 0 then [r\<lparr>dr_body := take (dr_min r - 12) (dr_body r)\<rparr>] else [])"

definition fresh :: "u64 \<Rightarrow> u8 \<Rightarrow> bytes \<Rightarrow> bytes \<Rightarrow> drec" where
  "fresh ino ft name slack = \<lparr>dr_inode = ino, dr_name_len = word_of_nat (length name), dr_file_type = ft, dr_body = name @ slack\<rparr>"

lemma live_min_hdr: "live_min (dr_hdr r) = dr_min r"
  by (simp add: live_min_def dr_hdr_def dr_min_def)

lemma find_slot_step:
  assumes "off = length a" "drec_ok r"
  shows "find_slot (a @ rec_bytes r @ b) needed off =
    (if dr_len r - dr_min r \<ge> needed then Some off else find_slot (a @ rec_bytes r @ b) needed (off + dr_len r))"
  using assms(1) dr_len_ge [of r]
  by (subst find_slot.simps) (simp add: Let_def hdr_at_chain [OF refl] rec_len_val [OF assms(2)] live_min_hdr DIR_ENTRY_HEADER_SIZE_def)

lemma find_slot_at:
  assumes "\<forall>r \<in> set rs. drec_ok r" "off = length a"
  shows "case find_slot (a @ chain rs) needed off of
      Some k \<Rightarrow> \<exists>xs r ys. rs = xs @ r # ys \<and> k = off + length (chain xs) \<and> dr_len r - dr_min r \<ge> needed
    | None \<Rightarrow> \<forall>r \<in> set rs. dr_len r - dr_min r < needed"
  using assms
proof (induction rs arbitrary: a off)
  case Nil
  then show ?case by (subst find_slot.simps) (simp add: DIR_ENTRY_HEADER_SIZE_def)
next
  case (Cons r rs)
  have ih: "case find_slot ((a @ rec_bytes r) @ chain rs) needed (off + dr_len r) of
      Some k \<Rightarrow> \<exists>xs q ys. rs = xs @ q # ys \<and> k = off + dr_len r + length (chain xs) \<and> dr_len q - dr_min q \<ge> needed
    | None \<Rightarrow> \<forall>r \<in> set rs. dr_len r - dr_min r < needed"
    by (rule Cons.IH) (use Cons.prems in simp_all)
  show ?case
  proof (cases "dr_len r - dr_min r \<ge> needed")
    case True
    then show ?thesis using find_slot_step [of off a r "chain rs" needed] Cons.prems
      by (auto intro!: exI [of _ "[]"])
  next
    case False
    then show ?thesis using find_slot_step [of off a r "chain rs" needed] Cons.prems ih
      by (auto split: option.splits) (metis append_Cons chain_simps(2) length_append rec_bytes_length add.assoc)
  qed
qed

lemma splice_mid: "off = length a \<Longrightarrow> length ys = length xs \<Longrightarrow> splice_at off ys (a @ xs @ b) = a @ ys @ b"
  by (simp add: splice_at_def)

lemma slice_mid: "off = length a \<Longrightarrow> n = length xs \<Longrightarrow> slice_at off n (a @ xs @ b) = xs"
  by (simp add: slice_at_def)

lemma set_rec_len:
  assumes "off = length a"
  shows "splice_at (off + 8) (put_u16 w) (a @ dir_entry_header_bytes h @ b) = a @ dir_entry_header_bytes (h\<lparr>de_rec_len := w\<rparr>) @ b"
  using splice_mid [of "off + 8" "a @ put_u64 (de_inode h)" "put_u16 w" "put_u16 (de_rec_len h)"
      "put_u8 (de_name_len h) @ put_u8 (de_file_type h) @ b"] assms
  by (simp add: dir_entry_header_bytes_def)

lemma zero_inode:
  assumes "off = length a"
  shows "splice_at off (replicate 8 0) (a @ dir_entry_header_bytes h @ b) = a @ dir_entry_header_bytes (h\<lparr>de_inode := 0\<rparr>) @ b"
proof -
  have "le_bytes n 0 = replicate n 0" for n by (induction n) simp_all
  then have "put_u64 0 = replicate 8 0" by (simp add: put_u64_def)
  then show ?thesis
    using splice_mid [of off a "replicate 8 0" "put_u64 (de_inode h)"
        "put_u16 (de_rec_len h) @ put_u8 (de_name_len h) @ put_u8 (de_file_type h) @ b"] assms
    by (simp add: dir_entry_header_bytes_def)
qed

definition slack_bytes :: "drec \<Rightarrow> bytes" where
  "slack_bytes r = (if dr_inode r \<noteq> 0 then drop (dr_min r - 12) (dr_body r) else rec_bytes r)"

lemma shrunk_bytes:
  assumes "off = length a" "drec_ok r"
  shows "(if dr_inode r \<noteq> 0 then splice_at (off + 8) (put_u16 (word_of_nat (dr_min r))) (a @ rec_bytes r @ b)
          else a @ rec_bytes r @ b) = a @ chain (shrunk r) @ slack_bytes r @ b"
    "length (chain (shrunk r)) = dr_min r" "length (slack_bytes r) = dr_len r - dr_min r"
proof -
  have m: "dr_inode r \<noteq> 0 \<Longrightarrow> 12 \<le> dr_min r \<and> dr_min r \<le> dr_len r"
    using assms(2) by (auto simp: dr_min_def drec_ok_def min_size_value)
  then show l: "length (chain (shrunk r)) = dr_min r" "length (slack_bytes r) = dr_len r - dr_min r"
    by (auto simp: shrunk_def slack_bytes_def dr_len_def dr_min_def)
  have "dr_inode r \<noteq> 0 \<Longrightarrow> (dr_hdr r)\<lparr>de_rec_len := word_of_nat (dr_min r)\<rparr> = dr_hdr (r\<lparr>dr_body := take (dr_min r - 12) (dr_body r)\<rparr>)"
    using m by (auto simp: dr_hdr_def dr_len_def)
  then show "(if dr_inode r \<noteq> 0 then splice_at (off + 8) (put_u16 (word_of_nat (dr_min r))) (a @ rec_bytes r @ b)
          else a @ rec_bytes r @ b) = a @ chain (shrunk r) @ slack_bytes r @ b"
    using set_rec_len [OF assms(1), of "word_of_nat (dr_min r)" "dr_hdr r" "dr_body r @ b"]
    by (auto simp: rec_bytes_def shrunk_def slack_bytes_def)
qed

lemma write_dir_entry_fresh:
  assumes "12 + length name \<le> length buf" "length name \<le> 255"
  shows "write_dir_entry buf ino (word_of_nat (length buf)) (word_of_nat (length name)) ft name =
    Ret (rec_bytes (fresh ino ft name (drop (12 + length name) buf)))"
proof -
  have n: "unat (word_of_nat (length name) :: u8) = length name"
    using assms(2) by (simp add: unat_of_nat take_bit_eq_mod)
  have l: "dr_len (fresh ino ft name (drop (12 + length name) buf)) = length buf"
    using assms(1) by (simp add: dr_len_def fresh_def)
  show ?thesis using assms(1)
    by (simp add: write_dir_entry_def DIR_ENTRY_HEADER_SIZE_def n Let_def rec_bytes_def dr_hdr_def l)
      (simp add: fresh_def splice_at_def len_simps drop_drop add.commute)
qed

lemma split_entry_chain:
  assumes "off = length a" "drec_ok r" "unat (dir_entry_min_size (word_of_nat (length name))) \<le> dr_len r - dr_min r"
    "length name \<le> 255"
  shows "split_entry (a @ rec_bytes r @ b) off ino ft name =
    Ret (a @ chain (shrunk r) @ rec_bytes (fresh ino ft name (drop (12 + length name) (slack_bytes r))) @ b)"
proof -
  note sh = shrunk_bytes(1) [OF assms(1,2), of b] shrunk_bytes(2,3) [OF assms(1,2)]
  have room: "12 + length name \<le> length (slack_bytes r)"
    using assms(3,4) unfolding sh(3) by (simp add: min_size_value unat_of_nat take_bit_eq_mod)
  have ino: "de_inode (dr_hdr r) = dr_inode r" by (simp add: dr_hdr_def)
  have sl: "slice_at (off + dr_min r) (dr_len r - dr_min r) (a @ chain (shrunk r) @ slack_bytes r @ b) = slack_bytes r"
    using slice_mid [of "off + dr_min r" "a @ chain (shrunk r)" "dr_len r - dr_min r" "slack_bytes r" b] sh(2,3) assms(1) by simp
  have len: "\<not> (dr_len r < dr_min r \<or> off + dr_min r + (dr_len r - dr_min r) > length (a @ chain (shrunk r) @ slack_bytes r @ b))"
    using room assms(1) sh(2,3) by simp
  let ?new = "rec_bytes (fresh ino ft name (drop (12 + length name) (slack_bytes r)))"
  have "split_entry (a @ rec_bytes r @ b) off ino ft name =
      run_bind (write_dir_entry (slack_bytes r) ino (word_of_nat (dr_len r - dr_min r)) (word_of_nat (length name)) ft name)
        (\<lambda>buf. Ret (splice_at (off + dr_min r) buf (a @ chain (shrunk r) @ slack_bytes r @ b)))"
    unfolding split_entry_def Let_def hdr_at_chain [OF assms(1)] rec_len_val [OF assms(2)] live_min_hdr ino sh(1) if_not_P [OF len] sl ..
  also have "\<dots> = Ret (splice_at (off + dr_min r) ?new ((a @ chain (shrunk r)) @ slack_bytes r @ b))"
    using write_dir_entry_fresh [OF room assms(4), of ino ft] unfolding sh(3) by simp
  also have "splice_at (off + dr_min r) ?new ((a @ chain (shrunk r)) @ slack_bytes r @ b) = (a @ chain (shrunk r)) @ ?new @ b"
    by (rule splice_mid) (use room sh(2) assms(1) in \<open>simp_all add: dr_len_def fresh_def\<close>)
  finally show ?thesis by simp
qed

section \<open>Blocks and names\<close>

text \<open>No record crosses a block boundary, the bytes are whole blocks and no name occurs twice.\<close>

primrec in_blocks :: "nat \<Rightarrow> drec list \<Rightarrow> bool" where
  "in_blocks off [] \<longleftrightarrow> True"
| "in_blocks off (r # rs) \<longleftrightarrow> off mod 4096 + dr_len r \<le> 4096 \<and> in_blocks (off + dr_len r) rs"

definition live :: "drec list \<Rightarrow> drec list" where "live rs = filter (\<lambda>r. dr_inode r \<noteq> 0) rs"

definition dir_wf :: "drec list \<Rightarrow> bool" where
  "dir_wf rs \<longleftrightarrow> (\<forall>r \<in> set rs. drec_ok r) \<and> in_blocks 0 rs \<and> 4096 dvd length (chain rs) \<and> distinct (map dr_name (live rs))"

lemma in_blocks_append: "in_blocks off (xs @ ys) \<longleftrightarrow> in_blocks off xs \<and> in_blocks (off + length (chain xs)) ys"
  by (induction xs arbitrary: off) (auto simp: add.assoc)

lemma live_simps [simp]: "live (xs @ ys) = live xs @ live ys" "live [] = []"
  "live (r # rs) = (if dr_inode r \<noteq> 0 then r # live rs else live rs)"
  by (simp_all add: live_def)

lemma dir_abs_dom: "dom (dir_abs rs) = dr_name ` set (live rs)"
  by (induction rs) (auto simp: entry_of_def)

lemma dir_abs_None: "dir_abs rs n = None \<longleftrightarrow> n \<notin> dr_name ` set (live rs)"
  unfolding dir_abs_dom [symmetric] by auto

lemma within_block:
  fixes n d k :: nat
  shows "n mod k + d < k \<Longrightarrow> (n + d) div k = n div k" "n mod k + d < k \<Longrightarrow> (n + d) mod k = n mod k + d"
    "n mod k + d = k \<Longrightarrow> (n + d) mod k = 0"
proof -
  define q m where "q = n div k" "m = n mod k"
  have e: "n + d = (m + d) + q * k" by (simp add: q_m_def)
  show "n mod k + d < k \<Longrightarrow> (n + d) div k = n div k" "n mod k + d < k \<Longrightarrow> (n + d) mod k = n mod k + d"
    "n mod k + d = k \<Longrightarrow> (n + d) mod k = 0"
    unfolding q_m_def(2) [symmetric] q_m_def(1) [symmetric] e by simp_all
qed

lemma block_boundary:
  "in_blocks 0 xs \<Longrightarrow> \<exists>as bs. xs = as @ bs \<and> length (chain as) = length (chain xs) div 4096 * 4096"
proof (induction xs rule: rev_induct)
  case (snoc r xs)
  let ?n = "length (chain xs)"
  have r: "in_blocks 0 xs" "?n mod 4096 + dr_len r \<le> 4096" using snoc.prems by (auto simp: in_blocks_append)
  obtain as bs where ih: "xs = as @ bs" "length (chain as) = ?n div 4096 * 4096" using snoc.IH [OF r(1)] by auto
  show ?case
  proof (cases "?n mod 4096 + dr_len r = 4096")
    case True
    then have "?n + dr_len r = (?n div 4096 + 1) * 4096" using div_mult_mod_eq [of ?n 4096] unfolding add_mult_distrib by linarith
    then show ?thesis by (intro exI [of _ "xs @ [r]"] exI [of _ "[]"]) simp
  next
    case False
    then have "(?n + dr_len r) div 4096 = ?n div 4096" using r(2) by (intro within_block(1)) simp
    then have "length (chain as) = length (chain (xs @ [r])) div 4096 * 4096" using ih(2) by simp
    moreover have "xs @ [r] = as @ bs @ [r]" using ih(1) by (simp only: append_assoc)
    ultimately show ?thesis by blast
  qed
qed simp

lemma same_block: "in_blocks 0 (xs @ [p, r]) \<Longrightarrow> length (chain xs @ rec_bytes p) mod 4096 \<noteq> 0 \<Longrightarrow>
    length (chain xs) mod 4096 + (dr_len p + dr_len r) \<le> 4096"
  using within_block(2,3) [of "length (chain xs)" 4096 "dr_len p"]
  by (cases "length (chain xs) mod 4096 + dr_len p < 4096") (auto simp: in_blocks_append)

section \<open>Removing from a chain\<close>

lemma get_rec_len: "get_u16 (off + 8) data = de_rec_len (hdr_at data off)"
  by (simp add: hdr_at_def dir_entry_header_of_def get_u16_def get_le_def slice_at_def add.commute)

lemma find_prev_walk:
  assumes "\<forall>r \<in> set (bs @ [p]). drec_ok r" "off = length a"
  shows "find_prev_from (a @ chain bs @ rec_bytes p @ rest) (off + length (chain bs) + dr_len p) off = dr_len p"
  using assms
proof (induction bs arbitrary: a off)
  case Nil
  then show ?case using dr_len_ge [of p]
    by (subst find_prev_from.simps) (simp add: get_rec_len hdr_at_chain rec_len_val Let_def DIR_ENTRY_HEADER_SIZE_def)
next
  case (Cons r bs)
  have "find_prev_from ((a @ rec_bytes r) @ chain bs @ rec_bytes p @ rest) (off + dr_len r + length (chain bs) + dr_len p) (off + dr_len r) = dr_len p"
    by (rule Cons.IH) (use Cons.prems in simp_all)
  moreover have "hdr_at (a @ rec_bytes r @ chain bs @ rec_bytes p @ rest) off = dr_hdr r"
    by (rule hdr_at_chain [OF Cons.prems(2)])
  moreover have "unat (de_rec_len (dr_hdr r)) = dr_len r" using Cons.prems by (simp add: rec_len_val)
  ultimately show ?case using dr_len_ge [of p] dr_len_ge [of r] Cons.prems(2)
    by (subst find_prev_from.simps) (simp add: get_rec_len Let_def DIR_ENTRY_HEADER_SIZE_def add.assoc)
qed

definition matches :: "bytes \<Rightarrow> drec \<Rightarrow> bool" where "matches name r \<longleftrightarrow> dr_inode r \<noteq> 0 \<and> dr_name r = name"

lemma remove_step:
  assumes "off = length a" "drec_ok r"
  shows "remove_from (a @ rec_bytes r @ b) name off prev =
    (if matches name r then run_bind (delete_record (a @ rec_bytes r @ b) off (dr_len r) prev) (\<lambda>d. Ret (Some d))
     else remove_from (a @ rec_bytes r @ b) name (off + dr_len r) (off + dr_len r))"
proof -
  let ?d = "a @ rec_bytes r @ b"
  have h: "hdr_at ?d off = dr_hdr r" by (rule hdr_at_chain [OF assms(1)])
  have hd: "de_inode (dr_hdr r) = dr_inode r" "de_name_len (dr_hdr r) = dr_name_len r"
    by (simp_all add: dr_hdr_def)
  have len: "off + dr_len r \<le> length ?d" using assms(1) by simp
  note nm = slice_name [OF assms, of b] drec_ok_name [OF assms(2)]
  show ?thesis
    using dr_len_ge [of r] len nm
    by (subst remove_from.simps) (auto simp: matches_def Let_def h hd rec_len_val [OF assms(2)] DIR_ENTRY_HEADER_SIZE_def add.assoc)
qed

lemma remove_skip:
  assumes "\<forall>r \<in> set xs. drec_ok r \<and> \<not> matches name r" "off = length a"
  shows "remove_from (a @ chain xs @ b) name off off = remove_from (a @ chain xs @ b) name (off + length (chain xs)) (off + length (chain xs))"
  using assms
proof (induction xs arbitrary: a off)
  case (Cons r xs)
  have "remove_from ((a @ rec_bytes r) @ chain xs @ b) name (off + dr_len r) (off + dr_len r) =
      remove_from ((a @ rec_bytes r) @ chain xs @ b) name (off + dr_len r + length (chain xs)) (off + dr_len r + length (chain xs))"
    by (rule Cons.IH) (use Cons.prems in simp_all)
  then show ?case using remove_step [of off a r "chain xs @ b" name off] Cons.prems by (simp add: add.assoc)
qed simp

definition dead :: "drec \<Rightarrow> drec" where "dead r = r\<lparr>dr_inode := 0\<rparr>"

definition grown :: "drec \<Rightarrow> bytes \<Rightarrow> drec" where "grown p bs = p\<lparr>dr_body := dr_body p @ bs\<rparr>"

lemma dead_simps [simp]: "dr_inode (dead r) = 0" "dr_body (dead r) = dr_body r" "dr_len (dead r) = dr_len r"
  by (simp_all add: dead_def dr_len_def)

lemma grown_simps [simp]: "dr_inode (grown p bs) = dr_inode p" "dr_name_len (grown p bs) = dr_name_len p"
  "dr_len (grown p bs) = dr_len p + length bs" "dr_file_type (grown p bs) = dr_file_type p"
  by (simp_all add: grown_def dr_len_def)

lemma dead_ok: "drec_ok r \<Longrightarrow> drec_ok (dead r)"
  by (simp add: drec_ok_def)

lemma grown_ok: "drec_ok p \<Longrightarrow> dr_len p + length bs < 65536 \<Longrightarrow> drec_ok (grown p bs)"
  by (auto simp: drec_ok_def)

lemma grown_name: "drec_ok p \<Longrightarrow> dr_inode p \<noteq> 0 \<Longrightarrow> dr_name (grown p bs) = dr_name p"
  using drec_ok_name [of p] by (simp add: dr_name_def grown_def dr_len_def)

lemma zero_record: "off = length a \<Longrightarrow> splice_at off (replicate 8 0) (a @ rec_bytes r @ b) = a @ rec_bytes (dead r) @ b"
  using zero_inode [of off a "dr_hdr r" "dr_body r @ b"] by (simp add: rec_bytes_def dr_hdr_def dead_def dr_len_def)

lemma grow_record:
  assumes "off = length a"
  shows "splice_at (off + 8) (put_u16 (word_of_nat (dr_len p + length bs))) (a @ rec_bytes p @ bs @ b) = a @ rec_bytes (grown p bs) @ b"
  using set_rec_len [OF assms, of "word_of_nat (dr_len p + length bs)" "dr_hdr p" "dr_body p @ bs @ b"]
  by (simp add: rec_bytes_def dr_hdr_def grown_def dr_len_def add.assoc)

lemma delete_first: "delete_record (rec_bytes r @ b) 0 len 0 = Ret (rec_bytes (dead r) @ b)"
  using zero_record [of 0 "[]" r b] by (simp add: delete_record_def)

lemma delete_mid:
  assumes "\<forall>q \<in> set (xs @ [p]). drec_ok q" "in_blocks 0 (xs @ [p])" "off = length (chain xs) + dr_len p" "off mod 4096 \<noteq> 0"
  shows "delete_record (chain xs @ rec_bytes p @ rec_bytes r @ b) off (dr_len r) off =
    Ret (chain xs @ rec_bytes (grown p (rec_bytes (dead r))) @ b)"
proof -
  let ?d = "chain xs @ rec_bytes p @ rec_bytes (dead r) @ b"
  have z: "splice_at off (replicate 8 0) (chain xs @ rec_bytes p @ rec_bytes r @ b) = ?d"
    using zero_record [of off "chain xs @ rec_bytes p" r b] assms(3) by simp
  have "length (chain xs) mod 4096 + dr_len p \<le> 4096" using assms(2) by (simp add: in_blocks_append)
  moreover have "length (chain xs) mod 4096 + dr_len p \<noteq> 4096"
    using within_block(3) [of "length (chain xs)" 4096 "dr_len p"] assms(4) [unfolded assms(3)] by blast
  ultimately have nz: "length (chain xs) mod 4096 + dr_len p < 4096" by linarith
  obtain as bs where ab: "xs = as @ bs" "length (chain as) = length (chain xs) div 4096 * 4096"
    using block_boundary [of xs] assms(2) unfolding in_blocks_append by blast
  have start: "off div 4096 * 4096 = length (chain as)" using within_block(1) [OF nz] ab(2) assms(3) by simp
  have "find_prev_from (chain as @ chain bs @ rec_bytes p @ rec_bytes (dead r) @ b)
      (length (chain as) + length (chain bs) + dr_len p) (length (chain as)) = dr_len p"
    by (rule find_prev_walk) (use assms(1) ab(1) in auto)
  then have prev: "find_prev_entry_len ?d off = dr_len p"
    unfolding find_prev_entry_len_def BLOCK_SIZE_def start using assms(3) ab(1) by simp
  have ok: "drec_ok p" using assms(1) by simp
  have po: "off - dr_len p = length (chain xs)" "(0 < off) = True" using assms(3) dr_len_ge [of p] by simp_all
  have hdr: "hdr_at ?d (length (chain xs)) = dr_hdr p" by (rule hdr_at_chain) simp
  have "splice_at (length (chain xs) + 8) (put_u16 (word_of_nat (dr_len p + length (rec_bytes (dead r))))) ?d =
      chain xs @ rec_bytes (grown p (rec_bytes (dead r))) @ b" by (rule grow_record) simp
  moreover have "(length (chain xs) + 10 > length ?d) = False" using dr_len_ge [of p] by simp
  ultimately show ?thesis
    by (simp only: delete_record_def z Let_def prev po hdr rec_len_val [OF ok] rec_bytes_length dead_simps if_True if_False)
qed

lemma delete_at_block_start:
  assumes "drec_ok r" "off = length a" "0 < off" "off mod 4096 = 0"
  shows "delete_record (a @ rec_bytes r @ b) off (dr_len r) off =
    Ret (a @ dir_entry_header_bytes ((dr_hdr (dead r))\<lparr>de_rec_len := word_of_nat (2 * dr_len r)\<rparr>) @ dr_body r @ b)"
proof -
  let ?d = "a @ rec_bytes (dead r) @ b"
  have "off div 4096 * 4096 = off" using assms(4) by (simp add: mod_eq_0_iff_dvd)
  then have prev: "find_prev_entry_len ?d off = 0"
    by (simp add: find_prev_entry_len_def BLOCK_SIZE_def find_prev_from.simps)
  have hdr: "hdr_at ?d off = dr_hdr (dead r)" by (rule hdr_at_chain [OF assms(2)])
  have len: "unat (de_rec_len (dr_hdr (dead r))) + dr_len r = 2 * dr_len r" using rec_len_val [OF dead_ok [OF assms(1)]] by simp
  have "splice_at (off + 8) (put_u16 (word_of_nat (2 * dr_len r))) ?d =
      a @ dir_entry_header_bytes ((dr_hdr (dead r))\<lparr>de_rec_len := word_of_nat (2 * dr_len r)\<rparr>) @ dr_body r @ b"
    using set_rec_len [OF assms(2), of "word_of_nat (2 * dr_len r)" "dr_hdr (dead r)" "dr_body r @ b"] by (simp add: rec_bytes_def)
  moreover have "(off + 10 > length ?d) = False" using assms(2) dr_len_ge [of r] by simp
  ultimately show ?thesis
    by (simp only: delete_record_def zero_record [OF assms(2)] Let_def prev diff_zero hdr len assms(3) if_True if_False)
qed

section \<open>The operations on directories\<close>

lemma shrunk_entry:
  assumes "drec_ok r" "dr_inode r \<noteq> 0"
  shows "drec_ok (r\<lparr>dr_body := take (dr_min r - 12) (dr_body r)\<rparr>)" "dr_len (r\<lparr>dr_body := take (dr_min r - 12) (dr_body r)\<rparr>) = dr_min r"
    "dr_name (r\<lparr>dr_body := take (dr_min r - 12) (dr_body r)\<rparr>) = dr_name r"
proof -
  have m: "12 + unat (dr_name_len r) \<le> dr_min r" "dr_min r \<le> dr_len r" using assms by (auto simp: dr_min_def drec_ok_def min_size_value)
  then show l: "dr_len (r\<lparr>dr_body := take (dr_min r - 12) (dr_body r)\<rparr>) = dr_min r" by (simp add: dr_len_def)
  have "dr_min r < 65536" using m(2) assms(1) by (simp add: drec_ok_def)
  then show "drec_ok (r\<lparr>dr_body := take (dr_min r - 12) (dr_body r)\<rparr>)"
    using assms(2) unfolding drec_ok_def l by (simp add: dr_min_def)
  show "dr_name (r\<lparr>dr_body := take (dr_min r - 12) (dr_body r)\<rparr>) = dr_name r" using m(1) by (simp add: dr_name_def)
qed

lemma fresh_entry:
  assumes "length name \<le> 255"
  shows "dr_name (fresh ino ft name sl) = name" "dr_inode (fresh ino ft name sl) = ino" "dr_file_type (fresh ino ft name sl) = ft"
    "dr_len (fresh ino ft name sl) = 12 + length name + length sl"
    "unat (dir_entry_min_size (word_of_nat (length name))) \<le> 12 + length name + length sl \<Longrightarrow> 12 + length name + length sl < 65536 \<Longrightarrow>
      drec_ok (fresh ino ft name sl)"
proof -
  have "unat (word_of_nat (length name) :: u8) = length name" using assms by (simp add: unat_of_nat take_bit_eq_mod)
  then show "dr_name (fresh ino ft name sl) = name" by (simp add: dr_name_def fresh_def)
qed (simp_all add: fresh_def dr_len_def drec_ok_def)

lemma in_blocks_split:
  assumes "in_blocks off (r # ys)" "dr_len p + dr_len q = dr_len r"
  shows "in_blocks off (p # q # ys)"
proof -
  have "off mod 4096 + dr_len p < 4096" using assms dr_len_ge [of q] by simp
  note within_block(2) [OF this]
  moreover have "off + dr_len p + dr_len q = off + dr_len r" using assms(2) by simp
  ultimately show ?thesis using assms by (simp add: add.assoc)
qed

lemma in_blocks_replace: "in_blocks off (r # ys) \<Longrightarrow> dr_len q = dr_len r \<Longrightarrow> in_blocks off (q # ys)"
  by simp

lemma split_wf:
  assumes "dir_wf (xs @ r # ys)" "unat (dir_entry_min_size (word_of_nat (length name))) \<le> dr_len r - dr_min r"
    "length name \<le> 255" "dir_abs (xs @ r # ys) name = None" "ino \<noteq> 0"
    "new = fresh ino ft name (drop (12 + length name) (slack_bytes r))"
  shows "dir_wf (xs @ shrunk r @ new # ys)" "dir_abs (xs @ shrunk r @ new # ys) = (dir_abs (xs @ r # ys))(name \<mapsto> (ino, ft))"
    "length (chain (xs @ shrunk r @ new # ys)) = length (chain (xs @ r # ys))"
proof -
  have ok: "drec_ok r" using assms(1) by (simp add: dir_wf_def)
  note sl = shrunk_bytes(2,3) [OF refl ok]
  have room: "12 + length name \<le> dr_len r - dr_min r"
    using assms(2,3) by (simp add: min_size_value unat_of_nat take_bit_eq_mod)
  note fe = fresh_entry [OF assms(3), where ino = ino and ft = ft and sl = "drop (12 + length name) (slack_bytes r)", folded assms(6)]
  have len: "dr_len new = dr_len r - dr_min r" using fe(4) room sl(2) by simp
  have "dr_len r - dr_min r < 65536" using ok by (auto simp: drec_ok_def)
  then have new_ok: "drec_ok new" using fe(4,5) room assms(2) sl(2) by simp
  note se = shrunk_entry [OF ok]
  show lens: "length (chain (xs @ shrunk r @ new # ys)) = length (chain (xs @ r # ys))" using sl(1) len room by simp
  have rb: "in_blocks (length (chain xs)) (r # ys)" using assms(1) by (simp add: dir_wf_def in_blocks_append)
  have blk: "in_blocks (length (chain xs)) (shrunk r @ new # ys)"
  proof (cases "dr_inode r = 0")
    case True
    then show ?thesis using in_blocks_replace [OF rb, of new] len by (simp add: shrunk_def dr_min_def)
  next
    case False
    let ?p = "r\<lparr>dr_body := take (dr_min r - 12) (dr_body r)\<rparr>"
    have "dr_len ?p + dr_len new = dr_len r" using se(2) [OF False] len room by simp
    then have "in_blocks (length (chain xs)) (?p # new # ys)" by (rule in_blocks_split [OF rb])
    then show ?thesis using False by (simp add: shrunk_def)
  qed
  have names: "name \<notin> dr_name ` set (live (xs @ r # ys))" using assms(4) by (simp add: dir_abs_None)
  have lv: "map dr_name (live (shrunk r)) = map dr_name (live [r])" using se(3) by (simp add: shrunk_def)
  have dist: "distinct (map dr_name (live xs @ live (shrunk r) @ new # live ys))"
    using assms(1) names unfolding map_append lv list.map fe(1) by (auto simp: dir_wf_def)
  have oks: "\<forall>q \<in> set (xs @ shrunk r @ new # ys). drec_ok q"
    using assms(1) [unfolded dir_wf_def, THEN conjunct1] se(1) new_ok by (auto simp: shrunk_def)
  have blks: "in_blocks 0 (xs @ shrunk r @ new # ys)"
    using assms(1) blk unfolding dir_wf_def in_blocks_append [of 0 xs] by simp
  have lvs: "live (xs @ shrunk r @ new # ys) = live xs @ live (shrunk r) @ new # live ys" using fe(2) assms(5) by simp
  show "dir_wf (xs @ shrunk r @ new # ys)"
    using assms(1) dist oks blks unfolding dir_wf_def lvs lens by blast
  have "dir_abs (shrunk r) = dir_abs [r]" using se(3) by (simp add: shrunk_def entry_of_def)
  moreover have "entry_of new = [name \<mapsto> (ino, ft)]" using fe assms(5) by (simp add: entry_of_def)
  moreover have "dir_abs xs name = None" "entry_of r name = None" using assms(4) by (simp_all add: dir_abs_append map_add_None)
  ultimately show "dir_abs (xs @ shrunk r @ new # ys) = (dir_abs (xs @ r # ys))(name \<mapsto> (ino, ft))"
    by (auto simp: dir_abs_append map_add_def fun_eq_iff split: option.splits)
qed

text \<open>The bytes after an entry was added: in the slack of a record, or in a new block behind the
  others.\<close>

definition added :: "bytes \<Rightarrow> bytes \<Rightarrow> u64 \<Rightarrow> u8 \<Rightarrow> bytes run" where
  "added data name ino ft =
     (case find_slot data (unat (dir_entry_min_size (word_of_nat (length name)))) 0 of
        Some off \<Rightarrow> split_entry data off ino ft name
      | None \<Rightarrow> run_bind (write_dir_entry (replicate BLOCK_SIZE 0) ino (word_of_nat BLOCK_SIZE) (word_of_nat (length name)) ft name)
                  (\<lambda>block. Ret (data @ block)))"

lemma append_wf:
  assumes "dir_wf rs" "dir_abs rs name = None" "ino \<noteq> 0" "length name \<le> 255" "new = fresh ino ft name (replicate (4084 - length name) 0)"
  shows "dir_wf (rs @ [new])" "dir_abs (rs @ [new]) = (dir_abs rs)(name \<mapsto> (ino, ft))"
proof -
  note fe = fresh_entry [OF assms(4), where ino = ino and ft = ft and sl = "replicate (4084 - length name) 0", folded assms(5)]
  have len: "dr_len new = 4096" using fe(4) assms(4) by simp
  have "unat (dir_entry_min_size (word_of_nat (length name))) \<le> 4096"
    using assms(4) by (simp add: min_size_value unat_of_nat take_bit_eq_mod)
  then have "drec_ok new" using fe(4,5) len by simp
  then show "dir_wf (rs @ [new])"
    using assms(1-3) len fe(1,2) by (auto simp: dir_wf_def in_blocks_append dir_abs_None)
  show "dir_abs (rs @ [new]) = (dir_abs rs)(name \<mapsto> (ino, ft))"
    using assms(2,3) fe by (auto simp: dir_abs_append entry_of_def map_add_def fun_eq_iff split: option.splits)
qed

lemma added_ok:
  assumes "dir_wf rs" "dir_abs rs name = None" "ino \<noteq> 0" "length name \<le> 255"
  shows "\<exists>rs'. added (chain rs) name ino ft = Ret (chain rs') \<and> dir_wf rs' \<and> dir_abs rs' = (dir_abs rs)(name \<mapsto> (ino, ft))"
proof (cases "find_slot (chain rs) (unat (dir_entry_min_size (word_of_nat (length name)))) 0")
  case None
  let ?new = "fresh ino ft name (replicate (4084 - length name) 0)"
  have "write_dir_entry (replicate BLOCK_SIZE 0) ino (word_of_nat BLOCK_SIZE) (word_of_nat (length name)) ft name = Ret (rec_bytes ?new)"
    using write_dir_entry_fresh [of name "replicate BLOCK_SIZE 0" ino ft] assms(4) by (simp add: BLOCK_SIZE_def)
  then show ?thesis using append_wf [OF assms refl, of ft] None
    by (intro exI [of _ "rs @ [?new]"]) (simp add: added_def)
next
  case (Some off)
  have "\<forall>r \<in> set rs. drec_ok r" using assms(1) by (simp add: dir_wf_def)
  from find_slot_at [OF this, of 0 "[]" "unat (dir_entry_min_size (word_of_nat (length name)))"] Some obtain xs r ys where x: "rs = xs @ r # ys" "off = length (chain xs)"
    "unat (dir_entry_min_size (word_of_nat (length name))) \<le> dr_len r - dr_min r" by auto
  let ?new = "fresh ino ft name (drop (12 + length name) (slack_bytes r))"
  have ok: "drec_ok r" using assms(1) x(1) by (simp add: dir_wf_def)
  note sw = split_wf [OF assms(1) [unfolded x(1)] x(3) assms(4) assms(2) [unfolded x(1)] assms(3) refl, of ft]
  have "added (chain rs) name ino ft = Ret (chain (xs @ shrunk r @ ?new # ys))"
    using split_entry_chain [OF x(2) ok x(3) assms(4), of "chain ys" ino ft] Some x(1) by (simp add: added_def)
  then show ?thesis using sw(1,2) x(1) by blast
qed

text \<open>C9. Adding an entry to a directory.  In the slack of a record or in a new block, the bytes stay
  a chain of records that respects the blocks, the new name is found with its inode and
  type, and every other name is found as before.\<close>

theorem added_correct:
  assumes "dir_wf rs" "dir_abs rs name = None" "ino \<noteq> 0" "length name \<le> 255"
  shows "\<exists>rs'. added (chain rs) name ino ft = Ret (chain rs') \<and> dir_wf rs' \<and>
    (\<forall>n. lookup_from (chain rs') n 0 = (if n = name then Some (ino, ft) else lookup_from (chain rs) n 0))"
proof -
  obtain rs' where rs': "added (chain rs) name ino ft = Ret (chain rs')" "dir_wf rs'" "dir_abs rs' = (dir_abs rs)(name \<mapsto> (ino, ft))"
    using added_ok [OF assms] by blast
  then show ?thesis using assms(1) lookup_chain [of rs'] lookup_chain [of rs] by (auto simp: dir_wf_def)
qed

text \<open>What removing a record leaves: the record before it takes its space, or it becomes a deleted
  record when it is the first.\<close>

definition without :: "drec list \<Rightarrow> drec \<Rightarrow> drec list \<Rightarrow> drec list" where
  "without xs r ys = (if xs = [] then dead r # ys else butlast xs @ grown (last xs) (rec_bytes (dead r)) # ys)"

definition clear_of_block_start :: "drec list \<Rightarrow> bytes \<Rightarrow> bool" where
  "clear_of_block_start rs name \<longleftrightarrow>
     (\<forall>xs r ys. rs = xs @ r # ys \<and> matches name r \<longrightarrow> xs = [] \<or> length (chain xs) mod 4096 \<noteq> 0)"

lemma remove_reaches:
  assumes "\<forall>q \<in> set (xs @ [r]). drec_ok q" "\<forall>q \<in> set xs. \<not> matches name q" "matches name r"
  shows "remove_from (chain (xs @ r # ys)) name 0 0 =
    run_bind (delete_record (chain xs @ rec_bytes r @ chain ys) (length (chain xs)) (dr_len r) (length (chain xs))) (\<lambda>d. Ret (Some d))"
  using remove_skip [of xs name 0 "[]" "rec_bytes r @ chain ys"] remove_step [of "length (chain xs)" "chain xs" r "chain ys" name "length (chain xs)"] assms
  by simp

lemma remove_absent:
  assumes "\<forall>q \<in> set xs. drec_ok q \<and> \<not> matches name q"
  shows "remove_from (chain xs) name 0 0 = Ret None"
  using remove_skip [OF assms, of 0 "[]" "[]"] by (simp add: remove_from.simps [of _ _ "length (chain xs)"] DIR_ENTRY_HEADER_SIZE_def)

lemma find_match:
  assumes "name \<in> dr_name ` set (live rs)"
  shows "\<exists>xs r ys. rs = xs @ r # ys \<and> matches name r \<and> (\<forall>q \<in> set xs. \<not> matches name q)"
  using assms split_list_first_prop [of rs "matches name"] by (force simp: live_def matches_def)

lemma distinct_names:
  assumes "dir_wf (xs @ r # ys)" "matches name r"
  shows "name \<notin> dr_name ` set (live xs @ live ys)"
  using assms by (auto simp: dir_wf_def matches_def)

lemma delete_without:
  assumes "dir_wf (xs @ r # ys)" "xs = [] \<or> length (chain xs) mod 4096 \<noteq> 0"
  shows "delete_record (chain xs @ rec_bytes r @ chain ys) (length (chain xs)) (dr_len r) (length (chain xs)) = Ret (chain (without xs r ys))"
proof (cases xs rule: rev_cases)
  case Nil
  then show ?thesis using delete_first [of r "chain ys"] by (simp add: without_def)
next
  case (snoc zs p)
  then show ?thesis using assms delete_mid [of zs p "length (chain xs)" r "chain ys"]
    by (simp add: without_def dir_wf_def in_blocks_append)
qed

lemma without_abs:
  assumes "dir_wf (xs @ r # ys)" "matches name r"
  shows "dir_abs (without xs r ys) = (dir_abs (xs @ r # ys))(name := None)"
proof -
  have "dir_abs xs name = None" "dir_abs ys name = None" using distinct_names [OF assms] by (auto simp: dir_abs_None)
  moreover have "entry_of r = [name \<mapsto> (dr_inode r, dr_file_type r)]" using assms(2) by (simp add: entry_of_def matches_def)
  moreover have "dir_abs (without xs r ys) = dir_abs ys ++ dir_abs xs"
  proof (cases xs rule: rev_cases)
    case (snoc zs p)
    then have "entry_of (grown p (rec_bytes (dead r))) = entry_of p" using assms(1) grown_name [of p] by (simp add: dir_wf_def entry_of_def)
    then show ?thesis using snoc by (simp add: without_def dir_abs_append)
  qed (simp add: without_def entry_of_def)
  ultimately show ?thesis by (auto simp: dir_abs_append map_add_def fun_eq_iff split: option.splits)
qed

lemma without_wf:
  assumes "dir_wf (xs @ r # ys)" "xs = [] \<or> length (chain xs) mod 4096 \<noteq> 0"
  shows "dir_wf (without xs r ys)"
proof (cases xs rule: rev_cases)
  case Nil
  then show ?thesis using assms(1) dead_ok [of r] by (auto simp: without_def dir_wf_def split: if_splits)
next
  case (snoc zs p)
  let ?g = "grown p (rec_bytes (dead r))"
  have wf: "\<forall>q \<in> set (zs @ p # r # ys). drec_ok q" "in_blocks 0 ((zs @ [p, r]) @ ys)" "4096 dvd length (chain (xs @ r # ys))"
    "distinct (map dr_name (live (zs @ p # r # ys)))"
    using assms(1) snoc by (simp_all add: dir_wf_def)
  have sum: "length (chain zs) mod 4096 + (dr_len p + dr_len r) \<le> 4096"
    using same_block [of zs p r] wf(2) assms(2) snoc unfolding in_blocks_append [of 0 "zs @ [p, r]"] by simp
  have ok: "drec_ok ?g" using wf(1) sum by (intro grown_ok) simp_all
  have blk: "in_blocks 0 (zs @ ?g # ys)" using wf(2) sum by (simp add: in_blocks_append add.assoc)
  have nm: "dr_inode p \<noteq> 0 \<Longrightarrow> dr_name ?g = dr_name p" using grown_name [of p] wf(1) by simp
  have "distinct (map dr_name (live (zs @ ?g # ys)))" using wf(4) nm by (auto split: if_splits)
  then show ?thesis using wf(1,3) ok blk snoc by (auto simp: dir_wf_def without_def add.assoc)
qed

text \<open>C10. Removing an entry.  Unless the entry is the first one of a block behind the first, the
  bytes stay a chain of records that respects the blocks, the name is no longer found, and
  every other name is found as before; an absent name is reported and nothing changes.\<close>

theorem remove_entry_correct:
  assumes "dir_wf rs" "clear_of_block_start rs name"
  shows "case lookup_from (chain rs) name 0 of
      None \<Rightarrow> remove_from (chain rs) name 0 0 = Ret None
    | Some e \<Rightarrow> \<exists>rs'. remove_from (chain rs) name 0 0 = Ret (Some (chain rs')) \<and> dir_wf rs' \<and>
        (\<forall>n. lookup_from (chain rs') n 0 = (if n = name then None else lookup_from (chain rs) n 0))"
proof (cases "dir_abs rs name")
  case None
  then have "\<forall>q \<in> set rs. drec_ok q \<and> \<not> matches name q" using assms(1) by (auto simp: dir_wf_def dir_abs_None matches_def live_def)
  then show ?thesis using None remove_absent lookup_chain [of rs name] by simp
next
  case (Some e)
  then have "name \<in> dr_name ` set (live rs)" using dir_abs_None [of rs name] by auto
  then obtain xs r ys where x: "rs = xs @ r # ys" "matches name r" "\<forall>q \<in> set xs. \<not> matches name q" using find_match by blast
  have wf: "dir_wf (xs @ r # ys)" and st: "xs = [] \<or> length (chain xs) mod 4096 \<noteq> 0"
    using assms x(1,2) by (auto simp: clear_of_block_start_def)
  have "remove_from (chain rs) name 0 0 = Ret (Some (chain (without xs r ys)))"
    using remove_reaches [of xs r name ys] x wf delete_without [OF wf st] by (simp add: dir_wf_def)
  then show ?thesis
    using Some lookup_chain [of rs] lookup_chain [of "without xs r ys"] without_wf [OF wf st] without_abs [OF wf x(2)] wf x(1)
    by (auto simp: dir_wf_def intro!: exI [of _ "without xs r ys"])
qed

section \<open>The first entry of a later block\<close>

lemma find_slot_skip:
  assumes "\<forall>q \<in> set xs. drec_ok q \<and> dr_len q - dr_min q < needed" "off = length a"
  shows "find_slot (a @ chain xs @ b) needed off = find_slot (a @ chain xs @ b) needed (off + length (chain xs))"
  using assms
proof (induction xs arbitrary: a off)
  case (Cons r xs)
  have "find_slot ((a @ rec_bytes r) @ chain xs @ b) needed (off + dr_len r) =
      find_slot ((a @ rec_bytes r) @ chain xs @ b) needed (off + dr_len r + length (chain xs))"
    by (rule Cons.IH) (use Cons.prems in simp_all)
  then show ?case using find_slot_step [of off a r "chain xs @ b" needed] Cons.prems by (simp add: add.assoc)
qed simp

lemma remove_at_block_start:
  assumes "dir_wf (xs @ r # ys)" "xs \<noteq> []" "4096 dvd length (chain xs)" "dr_inode r \<noteq> 0"
  shows "remove_from (chain (xs @ r # ys)) (dr_name r) 0 0 =
    Ret (Some (chain xs @ dir_entry_header_bytes ((dr_hdr (dead r))\<lparr>de_rec_len := word_of_nat (2 * dr_len r)\<rparr>) @ dr_body r @ chain ys))"
proof -
  have m: "matches (dr_name r) r" using assms(4) by (simp add: matches_def)
  have "\<forall>q \<in> set xs. \<not> matches (dr_name r) q"
  proof (intro ballI notI)
    fix q
    assume "q \<in> set xs" "matches (dr_name r) q"
    then have "q \<in> set (live xs @ live ys)" "dr_name q = dr_name r" by (simp_all add: matches_def live_def)
    then show False using distinct_names [OF assms(1) m] imageI [of q _ dr_name] by metis
  qed
  moreover have "0 < length (chain xs)" using assms(2) dr_len_ge [of "hd xs"] by (cases xs) simp_all
  ultimately show ?thesis
    using remove_reaches [of xs r "dr_name r" ys] delete_at_block_start [of r "length (chain xs)" "chain xs" "chain ys"] assms(1,3) m
    by (simp add: dir_wf_def mod_eq_0_iff_dvd)
qed


text \<open>C36. Removing the only entry of a last block other than the first leaves a record that claims
  to be two blocks long.  The next entry that fits into no earlier record is put into it,
  and the slice for it ends behind the directory's bytes: the kernel panics.\<close>

theorem remove_then_add_panics:
  assumes "dir_wf (xs @ [r])" "xs \<noteq> []" "4096 dvd length (chain xs)" "dr_inode r \<noteq> 0" "dr_len r = 4096"
    "\<forall>q \<in> set xs. dr_len q - dr_min q < unat (dir_entry_min_size (word_of_nat (length name)))"
  shows "\<exists>data. remove_from (chain (xs @ [r])) (dr_name r) 0 0 = Ret (Some data) \<and> added data name ino ft = Panic"
proof -
  let ?off = "length (chain xs)" and ?n = "unat (dir_entry_min_size (word_of_nat (length name)))"
  define h where "h = (dr_hdr (dead r))\<lparr>de_rec_len := word_of_nat (2 * dr_len r)\<rparr>"
  define d where "d = chain xs @ dir_entry_header_bytes h @ dr_body r"
  have h: "hdr_at d ?off = h" by (simp add: d_def hdr_at_def dir_entry_header_roundtrip)
  have hv: "unat (de_rec_len h) = 8192" "de_inode h = 0" using assms(5) by (simp_all add: h_def dr_hdr_def)
  have len: "length d = ?off + 4096" using assms(5) by (simp add: d_def dr_len_def len_simps)
  have n: "?n \<le> 8192" using unat_less2p [of "word_of_nat (length name) :: u8"] by (simp add: min_size_value)
  have oks: "\<forall>q \<in> set xs. drec_ok q" using assms(1) by (simp add: dir_wf_def)
  have "find_slot d ?n 0 = find_slot d ?n ?off"
    using find_slot_skip [of xs ?n 0 "[]" "dir_entry_header_bytes h @ dr_body r"] oks assms(6) by (simp add: d_def)
  also have "\<dots> = Some ?off"
    using n by (subst find_slot.simps) (simp add: h hv len live_min_def Let_def DIR_ENTRY_HEADER_SIZE_def)
  finally have "added d name ino ft = split_entry d ?off ino ft name" by (simp add: added_def)
  also have "\<dots> = Panic" by (simp add: split_entry_def h hv len live_min_def Let_def)
  finally show ?thesis using remove_at_block_start [OF assms(1-4)] by (simp add: d_def h_def)
qed

text \<open>Lookup and listing agree.  On any bytes, well-formed or not, looking a name up gives the
  first entry of the listing with this name.\<close>

lemma lookup_matches_listing:
  assumes "valid_utf8 name"
  shows "lookup_from data name 0 = map_of (parse_dir_entries_from_bytes data) name"
  using lookup_is_listing [OF assms] by (simp add: parse_dir_entries_from_bytes_def)

section \<open>Witnesses\<close>

definition example_rec :: "byte \<Rightarrow> nat \<Rightarrow> drec" where
  "example_rec b n = \<lparr>dr_inode = 5, dr_name_len = 255, dr_file_type = 1, dr_body = b # replicate n 0\<rparr>"

definition example_dir :: "drec list" where
  "example_dir = map (\<lambda>b. example_rec b 499) [1, 2, 3, 4, 5, 6, 7, 8]"

lemma example_rec_facts [simp]: "dr_len (example_rec b n) = n + 13" "dr_inode (example_rec b n) = 5"
  "254 \<le> n \<Longrightarrow> dr_name (example_rec b n) = b # replicate 254 0" "dr_file_type (example_rec b n) = 1" "dr_min (example_rec b n) = 268"
  by (simp_all add: example_rec_def dr_len_def dr_name_def dr_min_def min_size_value take_Cons')

lemma example_rec_ok [simp]: "255 \<le> n \<Longrightarrow> n < 65000 \<Longrightarrow> drec_ok (example_rec b n)"
  by (simp add: drec_ok_def) (simp add: example_rec_def min_size_value)

lemma example_dir_facts:
  "length (chain example_dir) = 4096" "in_blocks 0 example_dir" "dir_wf example_dir" "example_dir \<noteq> []"
  "\<forall>q \<in> set example_dir. dr_len q - dr_min q < 268" "dr_name ` set (live example_dir) = (\<lambda>b. b # replicate 254 0) ` {1, 2, 3, 4, 5, 6, 7, 8}"
  by (simp_all add: example_dir_def dir_wf_def)

theorem added_correct_witness:
  "\<exists>rs'. added (chain example_dir) [97] 9 1 = Ret (chain rs') \<and> lookup_from (chain rs') [97] 0 = Some (9, 1)"
  using added_correct [of example_dir "[97]" 9 1] example_dir_facts by (auto simp: dir_abs_None)

lemma one_block_clear:
  assumes "length (chain rs) = 4096"
  shows "clear_of_block_start rs name"
  unfolding clear_of_block_start_def
proof (intro allI impI)
  fix xs r ys
  assume "rs = xs @ r # ys \<and> matches name r"
  then have "length (chain xs) < 4096" using assms dr_len_ge [of r] by simp
  then show "xs = [] \<or> length (chain xs) mod 4096 \<noteq> 0" using dr_len_ge [of "hd xs"] by (cases xs) simp_all
qed

theorem remove_entry_correct_witness:
  "\<exists>data. remove_from (chain example_dir) (3 # replicate 254 0) 0 0 = Ret (Some data) \<and>
     lookup_from data (3 # replicate 254 0) 0 = None"
proof -
  have "lookup_from (chain example_dir) (3 # replicate 254 0) 0 \<noteq> None"
    using lookup_chain [of example_dir "3 # replicate 254 0"] example_dir_facts by (simp add: dir_abs_None dir_wf_def)
  then show ?thesis
    using remove_entry_correct [OF example_dir_facts(3) one_block_clear [OF example_dir_facts(1)], of "3 # replicate 254 0"] by auto
qed

definition example_late :: "drec list" where "example_late = example_dir @ [example_rec 9 2035, example_rec 10 2035]"

lemma example_late_wf: "dir_wf example_late" "dir_wf (example_dir @ [example_rec 9 4083])"
  using example_dir_facts by (auto simp: dir_wf_def example_late_def in_blocks_append)


theorem remove_then_add_panics_witness:
  "\<exists>data. remove_from (chain (example_dir @ [example_rec 9 4083])) (9 # replicate 254 0) 0 0 = Ret (Some data) \<and>
     added data (replicate 255 65) 7 1 = Panic"
  using remove_then_add_panics [of example_dir "example_rec 9 4083" "replicate 255 65" 7 1] example_dir_facts(1,4,5) example_late_wf(2)
  by (simp add: min_size_value)

end
