(* ===== verification/Byte_Ring.thy ===== *)
theory Byte_Ring
  imports Edos_Prelude
begin

text \<open>
  The growable byte FIFO of the kernel (\<open>kernel/src/util/ring.rs\<close>): a ring whose length is its
  capacity, the position of the first live byte and the number of live bytes.  Out-of-range
  slices, overflow of the capacity and a buffer of half the address space panic.
\<close>

section \<open>Operations\<close>

record ByteRing =
  br_ring :: bytes
  br_head :: nat
  br_len :: nat

definition MIN_CAPACITY :: nat where "MIN_CAPACITY = 4096"

definition ring_new :: ByteRing where "ring_new = \<lparr>br_ring = [], br_head = 0, br_len = 0\<rparr>"

definition ring_is_empty :: "ByteRing \<Rightarrow> bool" where "ring_is_empty r \<longleftrightarrow> br_len r = 0"

definition ring_capacity :: "ByteRing \<Rightarrow> nat" where "ring_capacity r = length (br_ring r)"

text \<open>The loop that doubles the capacity.  From zero it would not end.\<close>

function double_until :: "nat \<Rightarrow> nat \<Rightarrow> nat run" where
  "double_until cap needed =
     (if cap < needed
      then if cap = 0 \<or> cap * 2 \<ge> 2 ^ 64 then Panic else double_until (cap * 2) needed
      else Ret cap)"
  by pat_completeness auto
termination by (relation "measure (\<lambda>(cap, needed). needed - cap)") auto

declare double_until.simps [simp del]

definition slices :: "ByteRing \<Rightarrow> (bytes \<times> bytes) run" where
  "slices r =
     (if br_len r = 0 then Ret ([], [])
      else let fin = br_head r + br_len r
        in if fin \<le> ring_capacity r then Ret (slice_at (br_head r) (br_len r) (br_ring r), [])
           else if br_head r > ring_capacity r \<or> fin - ring_capacity r > ring_capacity r then Panic
           else Ret (drop (br_head r) (br_ring r), take (fin - ring_capacity r) (br_ring r)))"

definition grow_for :: "nat \<Rightarrow> ByteRing \<Rightarrow> ByteRing run" where
  "grow_for extra r =
     (let needed = br_len r + extra
      in if needed \<ge> 2 ^ 64 then Panic
         else if needed \<le> ring_capacity r then Ret r
         else run_bind (double_until (max (ring_capacity r) MIN_CAPACITY) needed) (\<lambda>cap.
           if cap \<ge> 2 ^ 63 then Panic
           else run_bind (slices r) (\<lambda>(front, back).
             if length front + length back > cap then Panic
             else Ret (r\<lparr>br_ring := splice_at (length front) back (splice_at 0 front (replicate cap 0)), br_head := 0\<rparr>))))"

definition push :: "bytes \<Rightarrow> ByteRing \<Rightarrow> ByteRing run" where
  "push data r0 =
     (if data = [] then Ret r0
      else run_bind (grow_for (length data) r0) (\<lambda>r.
        let cap = ring_capacity r
        in if cap = 0 then Panic
           else let tail = (br_head r + br_len r) mod cap;
                    first = min (length data) (cap - tail);
                    ring1 = splice_at tail (take first data) (br_ring r)
                in if first < length data
                   then if length data - first > cap then Panic
                     else Ret (r\<lparr>br_ring := splice_at 0 (drop first data) ring1, br_len := br_len r + length data\<rparr>)
                   else Ret (r\<lparr>br_ring := ring1, br_len := br_len r + length data\<rparr>)))"

definition push_byte :: "byte \<Rightarrow> ByteRing \<Rightarrow> ByteRing run" where "push_byte b r = push [b] r"

text \<open>The number of bytes taken, the buffer after the call and the ring.\<close>

definition pop :: "bytes \<Rightarrow> ByteRing \<Rightarrow> (nat \<times> bytes \<times> ByteRing) run" where
  "pop out r =
     (let taken = min (length out) (br_len r)
      in if taken = 0 then Ret (0, out, r)
         else let cap = ring_capacity r
           in if br_head r > cap then Panic
              else let first = min taken (cap - br_head r);
                       out1 = splice_at 0 (slice_at (br_head r) first (br_ring r)) out
                in if taken - first > cap \<or> cap = 0 then Panic
                   else let out2 = (if first < taken then splice_at first (take (taken - first) (br_ring r)) out1 else out1);
                            left = br_len r - taken
                     in Ret (taken, out2, r\<lparr>br_len := left,
                          br_head := (if left = 0 then 0 else (br_head r + taken) mod cap)\<rparr>))"

section \<open>The bytes in the ring\<close>

definition ring_ok :: "ByteRing \<Rightarrow> bool" where
  "ring_ok r \<longleftrightarrow> br_len r \<le> length (br_ring r) \<and> (br_head r < length (br_ring r) \<or> br_ring r = [] \<and> br_head r = 0)"

definition contents :: "ByteRing \<Rightarrow> bytes" where
  "contents r = take (br_len r) (rotate (br_head r) (br_ring r))"

lemma contents_length [simp]: "ring_ok r \<Longrightarrow> length (contents r) = br_len r"
  by (simp add: contents_def ring_ok_def)

lemma ring_new_ok: "ring_ok ring_new" "contents ring_new = []"
  by (simp_all add: ring_ok_def ring_new_def contents_def)

lemma rotate_split: "h \<le> length xs \<Longrightarrow> rotate h xs = drop h xs @ take h xs"
  by (metis append_take_drop_id length_take min.absorb2 rotate_append)

lemma contents_split:
  assumes "ring_ok r"
  shows "contents r = (if br_head r + br_len r \<le> length (br_ring r) then slice_at (br_head r) (br_len r) (br_ring r)
    else drop (br_head r) (br_ring r) @ take (br_head r + br_len r - length (br_ring r)) (br_ring r))"
proof -
  have "br_head r + br_len r - length (br_ring r) \<le> br_head r" using assms by (auto simp: ring_ok_def)
  then show ?thesis using assms rotate_split [of "br_head r" "br_ring r"]
    by (auto simp: contents_def ring_ok_def slice_at_def min_def add.commute)
qed

lemma slices_ok:
  assumes "ring_ok r"
  shows "\<exists>front back. slices r = Ret (front, back) \<and> front @ back = contents r"
  using assms contents_split [OF assms]
  by (auto simp: slices_def ring_capacity_def ring_ok_def slice_at_def Let_def)

lemma double_until_ok:
  assumes "0 < cap" "needed \<le> 2 ^ 62" "cap \<le> 2 ^ 62"
  shows "\<exists>c. double_until cap needed = Ret c \<and> cap \<le> c \<and> needed \<le> c \<and> (c = cap \<or> c < 2 * needed)"
  using assms
proof (induction cap needed rule: double_until.induct)
  case (1 cap needed)
  show ?case
  proof (cases "cap < needed")
    case True
    then have "cap * 2 < 2 ^ 64" using "1.prems" by simp
    then have "\<not> (cap = 0 \<or> cap * 2 \<ge> 2 ^ 64)" using "1.prems"(1) by simp
    show ?thesis
    proof (cases "cap * 2 \<le> 2 ^ 62")
      case True
      then show ?thesis using "1.IH" [OF \<open>cap < needed\<close> \<open>\<not> (cap = 0 \<or> cap * 2 \<ge> 2 ^ 64)\<close>] "1.prems" \<open>cap < needed\<close>
        by (subst double_until.simps) auto
    next
      case False
      then have "\<not> cap * 2 < needed" using "1.prems"(2) by simp
      then have "double_until (cap * 2) needed = Ret (cap * 2)" by (subst double_until.simps) simp
      then show ?thesis using \<open>cap < needed\<close> \<open>\<not> (cap = 0 \<or> cap * 2 \<ge> 2 ^ 64)\<close> False "1.prems"(2)
        by (subst double_until.simps) simp
    qed
  qed (subst double_until.simps, simp)
qed

lemma contents_nth:
  assumes "ring_ok r" "i < br_len r"
  shows "contents r ! i = br_ring r ! ((br_head r + i) mod length (br_ring r))"
  using assms by (simp add: contents_def ring_ok_def nth_rotate)

lemma grow_for_ok:
  assumes "ring_ok r" "br_len r + extra \<le> 2 ^ 62" "ring_capacity r \<le> 2 ^ 62"
  shows "\<exists>r'. grow_for extra r = Ret r' \<and> ring_ok r' \<and> contents r' = contents r \<and> br_len r' = br_len r \<and>
    br_len r + extra \<le> ring_capacity r' \<and> (ring_capacity r' = ring_capacity r \<or> br_head r' = 0 \<and> ring_capacity r' \<le> max 4096 (2 * (br_len r + extra)))"
proof (cases "br_len r + extra \<le> ring_capacity r")
  case True
  then show ?thesis using assms by (auto simp: grow_for_def)
next
  case False
  let ?n = "br_len r + extra" and ?c = "max (ring_capacity r) MIN_CAPACITY"
  obtain c where c: "double_until ?c ?n = Ret c" "?c \<le> c" "?n \<le> c" "c = ?c \<or> c < 2 * ?n"
    using double_until_ok [of ?c ?n, OF _ assms(2)] assms(3) by (auto simp: MIN_CAPACITY_def less_max_iff_disj)
  obtain front rear where sl: "slices r = Ret (front, rear)" "front @ rear = contents r" using slices_ok [OF assms(1)] by blast
  have len: "length front + length rear = br_len r" using sl(2) contents_length [OF assms(1)] by (metis length_append)
  have cap: "c < 2 ^ 63" "0 < c" using c assms(2) False by (auto simp: MIN_CAPACITY_def max_def split: if_splits)
  have lay: "splice_at (length front) rear (splice_at 0 front (replicate c 0)) = contents r @ replicate (c - br_len r) 0"
    using sl(2) len c(3) by (auto simp: splice_at_def min_def simp flip: sl(2))
  have "grow_for extra r = Ret (r\<lparr>br_ring := contents r @ replicate (c - br_len r) 0, br_head := 0\<rparr>)"
    using False assms(2) c(1,3) cap(1) sl(1) len lay by (simp add: grow_for_def Let_def)
  then show ?thesis
    using cap c False len assms(1) by (auto simp: ring_ok_def contents_def ring_capacity_def MIN_CAPACITY_def max_def split: if_splits)
qed

lemma wrapped_nth:
  fixes ring data :: bytes
  assumes "h < length ring" "len + length data \<le> length ring" "i < len + length data"
    "t = (h + len) mod length ring" "f = min (length data) (length ring - t)"
  shows "splice_at 0 (drop f data) (splice_at t (take f data) ring) ! ((h + i) mod length ring) =
    (if i < len then ring ! ((h + i) mod length ring) else data ! (i - len))"
proof -
  let ?c = "length ring"
  have c: "0 < ?c" "t < ?c" using assms(1,4) by (cases ring; simp)+
  have tv: "t = (if h + len < ?c then h + len else h + len - ?c)" unfolding assms(4) by (rule mod_once) (use assms(1,2) in linarith)
  define k where "k = (h + i) mod ?c"
  have kv: "k = (if h + i < ?c then h + i else h + i - ?c)" unfolding k_def by (rule mod_once) (use assms(1-3) in linarith)
  have kl: "k < ?c" using c(1) by (simp add: k_def)
  have fl: "f \<le> length data" using assms(5) by simp
  have fv: "f = length data \<and> length data \<le> ?c - t \<or> f = ?c - t \<and> ?c - t \<le> length data" using assms(5) by linarith
  have in1: "t + length (take f data) \<le> ?c" using assms(5) c(2) by simp
  have in2: "length (drop f data) \<le> t" using assms(1,2,5) tv c(2) by (auto split: if_splits)
  have "splice_at 0 (drop f data) (splice_at t (take f data) ring) ! k =
      (if k < length data - f then data ! (f + k) else if t \<le> k \<and> k < t + f then data ! (k - t) else ring ! k)"
    using in1 in2 kl c(2) fl by (auto simp: nth_splice)
  also have "\<dots> = (if i < len then ring ! k else data ! (i - len))"
  proof (cases "i < len")
    case True
    have "\<not> k < length data - f \<and> \<not> (t \<le> k \<and> k < t + f)"
      using True fv tv kv assms(1-3) by (cases "h + len < ?c"; cases "h + i < ?c") (simp_all, linarith+)
    then show ?thesis using True by auto
  next
    case False
    have "k < length data - f \<and> f + k = i - len \<or> \<not> k < length data - f \<and> t \<le> k \<and> k < t + f \<and> k - t = i - len"
      using False fv tv kv assms(1-3) by (cases "h + len < ?c"; cases "h + i < ?c") (simp_all, linarith+)
    then show ?thesis using False by auto
  qed
  finally show ?thesis by (simp add: k_def)
qed

definition ring_inv :: "ByteRing \<Rightarrow> bool" where "ring_inv r \<longleftrightarrow> ring_ok r \<and> ring_capacity r \<le> 2 ^ 62"

lemma push_ok:
  assumes "ring_inv r" "length (contents r) + length data \<le> 2 ^ 61"
  shows "\<exists>r'. push data r = Ret r' \<and> ring_inv r' \<and> contents r' = contents r @ data"
proof (cases "data = []")
  case True
  then show ?thesis using assms(1) by (simp add: push_def)
next
  case False
  have ok: "ring_ok r" "ring_capacity r \<le> 2 ^ 62" using assms(1) by (simp_all add: ring_inv_def)
  have sz: "br_len r + length data \<le> 2 ^ 62" using assms(2) ok(1) by simp
  obtain g where g: "grow_for (length data) r = Ret g" "ring_ok g" "contents g = contents r" "br_len g = br_len r"
    "br_len r + length data \<le> ring_capacity g"
    "ring_capacity g = ring_capacity r \<or> br_head g = 0 \<and> ring_capacity g \<le> max 4096 (2 * (br_len r + length data))"
    using grow_for_ok [OF ok(1) sz ok(2)] by blast
  let ?c = "length (br_ring g)"
  define t f where "t = (br_head g + br_len g) mod ?c" "f = min (length data) (?c - t)"
  define ring' where "ring' = splice_at 0 (drop f data) (splice_at t (take f data) (br_ring g))"
  let ?r = "g\<lparr>br_ring := ring', br_len := br_len g + length data\<rparr>"
  have cap: "br_len g + length data \<le> ?c" "0 < ?c" "br_head g < ?c"
    using g(2,4,5) False by (auto simp: ring_capacity_def ring_ok_def)
  have tl: "t < ?c" using cap(2) by (simp add: t_f_def)
  have len: "length ring' = ?c" using tl cap(1) by (simp add: ring'_def t_f_def)
  have "\<not> f < length data \<Longrightarrow> ring' = splice_at t (take f data) (br_ring g)" by (simp add: ring'_def splice_at_def)
  then have run: "push data r = Ret ?r"
    using False g(1) cap tl by (auto simp: push_def ring_capacity_def Let_def t_f_def [symmetric] ring'_def)
  have rok: "ring_ok ?r" using cap len by (simp add: ring_ok_def)
  have "contents ?r = contents g @ data"
  proof (rule nth_equalityI)
    show "length (contents ?r) = length (contents g @ data)" using rok g(2) by simp
    fix i
    assume "i < length (contents ?r)"
    then have i: "i < br_len g + length data" using rok by simp
    show "contents ?r ! i = (contents g @ data) ! i"
      using contents_nth [OF rok, of i] i wrapped_nth [OF cap(3,1) i t_f_def] contents_nth [OF g(2), of i] g(2) len
      by (simp add: ring'_def nth_append)
  qed
  moreover have "ring_capacity ?r \<le> 2 ^ 62" using g(6) ok sz assms(2) len by (auto simp: ring_capacity_def)
  ultimately show ?thesis using run rok g(3) by (auto simp: ring_inv_def)
qed

lemma pop_ok:
  assumes "ring_inv r" "n = min (length out) (length (contents r))"
  shows "\<exists>r'. pop out r = Ret (n, take n (contents r) @ drop n out, r') \<and> ring_inv r' \<and> contents r' = drop n (contents r)"
proof (cases "n = 0")
  case True
  then have "length out = 0 \<or> br_len r = 0" using assms by (auto simp: ring_inv_def min_def split: if_splits)
  then show ?thesis using True assms(1) by (auto simp: pop_def)
next
  case False
  have ok: "ring_ok r" using assms(1) by (simp add: ring_inv_def)
  let ?c = "length (br_ring r)" and ?h = "br_head r"
  have n: "n = min (length out) (br_len r)" "0 < n" "n \<le> br_len r" "n \<le> length out" using assms(2) ok False by auto
  have c: "br_len r \<le> ?c" "?h < ?c" using ok n by (auto simp: ring_ok_def)
  define f where "f = min n (?c - ?h)"
  define out' where "out' = (if f < n then splice_at f (take (n - f) (br_ring r)) (splice_at 0 (slice_at ?h f (br_ring r)) out)
    else splice_at 0 (slice_at ?h f (br_ring r)) out)"
  let ?r = "r\<lparr>br_len := br_len r - n, br_head := (if br_len r - n = 0 then 0 else (?h + n) mod ?c)\<rparr>"
  have run: "pop out r = Ret (n, out', ?r)"
    using n c by (auto simp: pop_def Let_def n(1) [symmetric] ring_capacity_def f_def [symmetric] out'_def)
  define a b where "a = slice_at ?h f (br_ring r)" "b = take (n - f) (br_ring r)"
  have lens: "f \<le> n" "length a = f" "length b = n - f" using n c by (auto simp: f_def a_b_def)
  have "take n (contents r) = a @ b"
    using contents_split [OF ok] n c by (auto simp: a_b_def f_def slice_at_def min_def)
  moreover have "out' = a @ b @ drop n out"
    unfolding out'_def a_b_def(1) [symmetric] a_b_def(2) [symmetric] using lens by (auto simp: splice_at_def)
  ultimately have out: "out' = take n (contents r) @ drop n out" by simp
  have "(?h + n) mod ?c < ?c" using c(2) by (intro mod_less_divisor) linarith
  then have rok: "ring_ok ?r" using c by (auto simp: ring_ok_def)
  have "contents ?r = drop n (contents r)"
  proof (rule nth_equalityI)
    show "length (contents ?r) = length (drop n (contents r))" using rok ok by simp
    fix i
    assume "i < length (contents ?r)"
    then have i: "i < br_len r - n" using rok by simp
    then show "contents ?r ! i = drop n (contents r) ! i"
      using contents_nth [OF rok, of i] contents_nth [OF ok, of "n + i"] ok c by (simp add: add.assoc mod_add_left_eq)
  qed
  then show ?thesis using run out rok assms(1) by (auto simp: ring_inv_def ring_capacity_def)
qed

section \<open>A FIFO of bytes\<close>

datatype fifo_op = Push bytes | Pop nat

locale byte_fifo =
  fixes inv :: "'q \<Rightarrow> bool"
    and items :: "'q \<Rightarrow> bytes"
    and put :: "bytes \<Rightarrow> 'q \<Rightarrow> 'q run"
    and get :: "bytes \<Rightarrow> 'q \<Rightarrow> (nat \<times> bytes \<times> 'q) run"
    and limit :: nat
  assumes put_ok: "inv q \<Longrightarrow> length (items q) + length data \<le> limit \<Longrightarrow>
      \<exists>q'. put data q = Ret q' \<and> inv q' \<and> items q' = items q @ data"
    and get_ok: "inv q \<Longrightarrow> n = min (length out) (length (items q)) \<Longrightarrow>
      \<exists>q'. get out q = Ret (n, take n (items q) @ drop n out, q') \<and> inv q' \<and> items q' = drop n (items q)"
begin

text \<open>A run of operations, collecting the bytes that come out.\<close>

fun run_ops :: "fifo_op list \<Rightarrow> 'q \<Rightarrow> (bytes \<times> 'q) run" where
  "run_ops [] q = Ret ([], q)"
| "run_ops (Push data # ops) q = run_bind (put data q) (run_ops ops)"
| "run_ops (Pop k # ops) q = run_bind (get (replicate k 0) q) (\<lambda>(n, out, q').
     run_bind (run_ops ops q') (\<lambda>(rest, q''). Ret (take n out @ rest, q'')))"

primrec pushed :: "fifo_op list \<Rightarrow> bytes" where
  "pushed [] = []"
| "pushed (p # ops) = (case p of Push data \<Rightarrow> data | Pop k \<Rightarrow> []) @ pushed ops"

lemma in_order:
  assumes "inv q" "length (items q) + length (pushed ops) \<le> limit"
  shows "\<exists>out q'. run_ops ops q = Ret (out, q') \<and> inv q' \<and> out @ items q' = items q @ pushed ops"
  using assms
proof (induction ops arbitrary: q)
  case (Cons p ops)
  show ?case
  proof (cases p)
    case (Push data)
    then obtain q1 where q1: "put data q = Ret q1" "inv q1" "items q1 = items q @ data"
      using put_ok [of q data] Cons.prems by auto
    then show ?thesis using Cons.IH [of q1] Cons.prems(2) Push by (auto simp: add.assoc)
  next
    case (Pop k)
    define n where "n = min k (length (items q))"
    obtain q1 where q1: "get (replicate k 0) q = Ret (n, take n (items q) @ drop n (replicate k 0), q1)" "inv q1" "items q1 = drop n (items q)"
      using get_ok [of q n "replicate k 0"] Cons.prems(1) by (auto simp: n_def)
    moreover have "length (items q1) + length (pushed ops) \<le> limit" using Cons.prems(2) Pop q1(3) by simp
    ultimately obtain out q' where "run_ops ops q1 = Ret (out, q')" "inv q'" "out @ items q' = drop n (items q) @ pushed ops"
      using Cons.IH [of q1] by auto
    then show ?thesis using q1 Pop by (simp add: n_def)
  qed
qed simp

end

interpretation ring: byte_fifo ring_inv contents push pop "2 ^ 61"
  by unfold_locales (rule push_ok, assumption+, rule pop_ok, assumption+)



end
