(* ===== verification/Kernel_Pipe.thy ===== *)
theory Kernel_Pipe
  imports Byte_Ring
begin

text \<open>
  Pipes (\<open>kernel/src/thread/pipe.rs\<close>) and named pipes (\<open>kernel/src/fs/fifo.rs\<close>) over the byte FIFO, with the poll state of
  \<open>libs/syscall-abi\<close>.  A pipe is guarded by a mutex, so each method is one step.  Whether
  threads are enrolled in the two wait queues when a method runs is the argument \<open>wq\<close>; the
  poll entries are opaque.
\<close>

section \<open>Poll states\<close>

record PollState =
  ps_readable :: bool
  ps_writable :: bool
  ps_error :: bool
  ps_hangup :: bool
  ps_invalid :: bool

definition poll_none :: PollState where
  "poll_none = \<lparr>ps_readable = False, ps_writable = False, ps_error = False, ps_hangup = False, ps_invalid = False\<rparr>"

definition poll_matches :: "PollState \<Rightarrow> PollState \<Rightarrow> bool" where
  "poll_matches st interests =
     (if ps_error st \<or> ps_hangup st \<or> ps_invalid st then True
      else if \<not> ps_readable interests \<and> \<not> ps_writable interests then ps_readable st \<or> ps_writable st
      else ps_readable interests \<and> ps_readable st \<or> ps_writable interests \<and> ps_writable st)"

section \<open>Operations\<close>

definition PIPE_CAPACITY :: nat where "PIPE_CAPACITY = 64 * 1024"
definition PIPE_BUF :: nat where "PIPE_BUF = 4096"

record 'e Pipe =
  pi_buffer :: ByteRing
  pi_readers :: nat
  pi_writers :: nat
  pi_closed :: bool
  pi_pollers :: "(u64 \<times> 'e) list"
  pi_next_poll_key :: u64

record waiters =
  wq_reader :: bool
  wq_writer :: bool

record 'e PipeNotifications =
  pn_entries :: "'e list"
  pn_state :: PollState
  pn_reader_wq :: bool
  pn_writer_wq :: bool

definition pipe_new :: "'e Pipe" where
  "pipe_new = \<lparr>pi_buffer = ring_new, pi_readers = 1, pi_writers = 1, pi_closed = False, pi_pollers = [], pi_next_poll_key = 1\<rparr>"

definition new_fifo :: "'e Pipe" where
  "new_fifo = pipe_new\<lparr>pi_readers := 0, pi_writers := 0\<rparr>"

definition pipe_space :: "'e Pipe \<Rightarrow> nat" where
  "pipe_space p = PIPE_CAPACITY - br_len (pi_buffer p)"

definition write_ready :: "nat \<Rightarrow> 'e Pipe \<Rightarrow> bool" where
  "write_ready len p = (if pi_readers p = 0 then True else pipe_space p \<ge> min (max len 1) PIPE_BUF)"

definition no_notifications :: "'e PipeNotifications" where
  "no_notifications = \<lparr>pn_entries = [], pn_state = poll_none, pn_reader_wq = False, pn_writer_wq = False\<rparr>"

definition poll_state :: "'e Pipe \<Rightarrow> PollState" where
  "poll_state p = \<lparr>ps_readable = (\<not> ring_is_empty (pi_buffer p) \<or> pi_closed p),
     ps_writable = (pi_readers p > 0 \<and> \<not> pi_closed p \<and> pipe_space p > 0),
     ps_error = (pi_readers p = 0 \<and> pi_writers p > 0),
     ps_hangup = (pi_closed p \<and> ring_is_empty (pi_buffer p)), ps_invalid = False\<rparr>"

definition notify_ends :: "waiters \<Rightarrow> 'e Pipe \<Rightarrow> 'e PipeNotifications" where
  "notify_ends wq p = (let st = poll_state p in \<lparr>pn_entries = map snd (pi_pollers p), pn_state = st,
     pn_reader_wq = ((ps_readable st \<or> ps_hangup st) \<and> wq_reader wq),
     pn_writer_wq = ((ps_writable st \<or> pi_readers p = 0) \<and> wq_writer wq)\<rparr>)"

definition close_writer_silent :: "'e Pipe \<Rightarrow> 'e Pipe" where
  "close_writer_silent p = (let w = pi_writers p - 1 in p\<lparr>pi_writers := w, pi_closed := (if w = 0 then True else pi_closed p)\<rparr>)"

definition close_reader_silent :: "'e Pipe \<Rightarrow> 'e Pipe" where
  "close_reader_silent p = p\<lparr>pi_readers := pi_readers p - 1\<rparr>"

definition close_writer :: "waiters \<Rightarrow> 'e Pipe \<Rightarrow> 'e PipeNotifications \<times> 'e Pipe" where
  "close_writer wq p = (let p' = close_writer_silent p in (notify_ends wq p', p'))"

definition close_reader :: "waiters \<Rightarrow> 'e Pipe \<Rightarrow> 'e PipeNotifications \<times> 'e Pipe" where
  "close_reader wq p = (let p' = close_reader_silent p in (notify_ends wq p', p'))"

definition pipe_write :: "waiters \<Rightarrow> bytes \<Rightarrow> 'e Pipe \<Rightarrow> (nat option \<times> 'e PipeNotifications \<times> 'e Pipe) run" where
  "pipe_write wq data p =
     (if pi_readers p = 0 then Ret (None, notify_ends wq p, p)
      else if \<not> write_ready (length data) p then Ret (Some 0, no_notifications, p)
      else let n = min (length data) (pipe_space p)
        in run_bind (push (take n data) (pi_buffer p)) (\<lambda>ring.
             let p' = p\<lparr>pi_buffer := ring\<rparr> in Ret (Some n, notify_ends wq p', p')))"

definition read_into :: "waiters \<Rightarrow> bytes \<Rightarrow> 'e Pipe \<Rightarrow> (nat \<times> bytes \<times> 'e PipeNotifications \<times> 'e Pipe) run" where
  "read_into wq out p =
     run_bind (pop out (pi_buffer p)) (\<lambda>(taken, out', ring).
       let p' = p\<lparr>pi_buffer := ring\<rparr>
       in if taken = 0 then Ret (0, out', no_notifications, p') else Ret (taken, out', notify_ends wq p', p'))"

definition at_eof :: "'e Pipe \<Rightarrow> bool" where "at_eof p \<longleftrightarrow> pi_closed p \<and> ring_is_empty (pi_buffer p)"

definition pipe_readable :: "'e Pipe \<Rightarrow> bool" where
  "pipe_readable p \<longleftrightarrow> \<not> ring_is_empty (pi_buffer p) \<or> pi_closed p"

definition add_poller :: "'e \<Rightarrow> 'e Pipe \<Rightarrow> u64 \<times> 'e Pipe" where
  "add_poller entry p = (let key = pi_next_poll_key p
     in (key, p\<lparr>pi_next_poll_key := max (key + 1) 1, pi_pollers := pi_pollers p @ [(key, entry)]\<rparr>))"

definition remove_poller :: "u64 \<Rightarrow> 'e Pipe \<Rightarrow> 'e Pipe" where
  "remove_poller key p = p\<lparr>pi_pollers := filter (\<lambda>(stored, _). stored \<noteq> key) (pi_pollers p)\<rparr>"

text \<open>Registering an entry whose interests are \<open>interests\<close>: the state it is told, and the key when
  it has to wait.\<close>

definition pipe_register :: "PollState \<Rightarrow> 'e \<Rightarrow> 'e Pipe \<Rightarrow> (PollState \<times> u64 option) \<times> 'e Pipe" where
  "pipe_register interests entry p =
     (let st = poll_state p
      in if poll_matches st interests then ((st, None), p)
         else let (key, p') = add_poller entry p in ((st, Some key), p'))"

section \<open>Descriptors and named pipes\<close>

datatype OpenMode = ReadOnly | WriteOnly | ReadWrite

definition mode_readable :: "OpenMode \<Rightarrow> bool" where "mode_readable m \<longleftrightarrow> m = ReadOnly \<or> m = ReadWrite"
definition mode_writable :: "OpenMode \<Rightarrow> bool" where "mode_writable m \<longleftrightarrow> m = WriteOnly \<or> m = ReadWrite"

text \<open>Duplicating and closing a descriptor of a pipe; the mode tells \<open>PipeRead\<close>, \<open>PipeWrite\<close> and
  \<open>PipeReadWrite\<close> apart.\<close>

definition inc_refcount :: "OpenMode \<Rightarrow> 'e Pipe \<Rightarrow> 'e Pipe" where
  "inc_refcount m p = (case m of
       ReadOnly \<Rightarrow> p\<lparr>pi_readers := pi_readers p + 1\<rparr>
     | WriteOnly \<Rightarrow> p\<lparr>pi_writers := pi_writers p + 1\<rparr>
     | ReadWrite \<Rightarrow> p\<lparr>pi_readers := pi_readers p + 1, pi_writers := pi_writers p + 1\<rparr>)"

definition close_descriptor :: "OpenMode \<Rightarrow> waiters \<Rightarrow> 'e Pipe \<Rightarrow> 'e PipeNotifications \<times> 'e Pipe" where
  "close_descriptor m wq p = (case m of
       ReadOnly \<Rightarrow> close_reader wq p
     | WriteOnly \<Rightarrow> close_writer wq p
     | ReadWrite \<Rightarrow> (let p' = close_writer_silent (close_reader_silent p) in (notify_ends wq p', p')))"

record 'e Fifo =
  fi_pipe :: "'e Pipe"
  fi_reader_seen :: bool
  fi_writer_seen :: bool

definition fifo_new :: "'e Fifo" where
  "fifo_new = \<lparr>fi_pipe = new_fifo, fi_reader_seen = False, fi_writer_seen = False\<rparr>"

definition attach_reader :: "'e Fifo \<Rightarrow> 'e Fifo" where
  "attach_reader f = f\<lparr>fi_pipe := (fi_pipe f)\<lparr>pi_readers := pi_readers (fi_pipe f) + 1\<rparr>, fi_reader_seen := True\<rparr>"

definition attach_writer :: "'e Fifo \<Rightarrow> 'e Fifo" where
  "attach_writer f = f\<lparr>fi_pipe := (fi_pipe f)\<lparr>pi_writers := pi_writers (fi_pipe f) + 1, pi_closed := False\<rparr>, fi_writer_seen := True\<rparr>"

definition attach :: "OpenMode \<Rightarrow> waiters \<Rightarrow> 'e Fifo \<Rightarrow> 'e PipeNotifications \<times> 'e Fifo" where
  "attach m wq f0 =
     (let f1 = (if mode_readable m then attach_reader f0 else f0);
          f2 = (if mode_writable m then attach_writer f1 else f1)
      in (notify_ends wq (fi_pipe f2), f2))"

definition detach :: "OpenMode \<Rightarrow> waiters \<Rightarrow> 'e Fifo \<Rightarrow> 'e PipeNotifications \<times> 'e Fifo" where
  "detach m wq f =
     (let p1 = (if mode_readable m then close_reader_silent (fi_pipe f) else fi_pipe f);
          p2 = (if mode_writable m then close_writer_silent p1 else p1)
      in (notify_ends wq p2, f\<lparr>fi_pipe := p2\<rparr>))"

section \<open>The life of a pipe\<close>

text \<open>The steps any threads take on one pipe, in the order of the mutex: what a step accepted and
  what it delivered.\<close>

inductive pipe_step :: "'e Pipe \<Rightarrow> bytes \<Rightarrow> bytes \<Rightarrow> 'e Pipe \<Rightarrow> bool" where
  accept: "pipe_write wq data p = Ret (Some n, notif, p') \<Longrightarrow> pipe_step p (take n data) [] p'"
| broken: "pipe_write wq data p = Ret (None, notif, p') \<Longrightarrow> pipe_step p [] [] p'"
| read: "read_into wq out p = Ret (n, out', notif, p') \<Longrightarrow> pipe_step p [] (take n out') p'"
| dup: "pipe_step p [] [] (inc_refcount m p)"
| close: "close_descriptor m wq p = (notif, p') \<Longrightarrow> pipe_step p [] [] p'"
| opened: "attach m wq f = (notif, f') \<Longrightarrow> pipe_step (fi_pipe f) [] [] (fi_pipe f')"
| abandoned: "detach m wq f = (notif, f') \<Longrightarrow> pipe_step (fi_pipe f) [] [] (fi_pipe f')"
| register: "pipe_register interests entry p = (r, p') \<Longrightarrow> pipe_step p [] [] p'"
| unregister: "pipe_step p [] [] (remove_poller key p)"

inductive pipe_trace :: "'e Pipe \<Rightarrow> bytes \<Rightarrow> bytes \<Rightarrow> 'e Pipe \<Rightarrow> bool" where
  start: "pipe_trace p [] [] p"
| more: "pipe_trace p i d p' \<Longrightarrow> pipe_step p' i' d' p'' \<Longrightarrow> pipe_trace p (i @ i') (d @ d') p''"

definition pipe_ok :: "'e Pipe \<Rightarrow> bool" where
  "pipe_ok p \<longleftrightarrow> ring_inv (pi_buffer p) \<and> br_len (pi_buffer p) \<le> PIPE_CAPACITY"

abbreviation buffered :: "'e Pipe \<Rightarrow> bytes" where "buffered p \<equiv> contents (pi_buffer p)"

lemma pipe_new_ok: "pipe_ok pipe_new" "pipe_ok new_fifo" "buffered pipe_new = []" "buffered new_fifo = []"
  using ring_new_ok by (simp_all add: pipe_ok_def pipe_new_def new_fifo_def ring_inv_def ring_capacity_def ring_new_def)

lemma buffered_length: "pipe_ok p \<Longrightarrow> length (buffered p) = br_len (pi_buffer p)"
  by (simp add: pipe_ok_def ring_inv_def)

lemma pipe_write_ok:
  assumes "pipe_ok p" "0 < pi_readers p"
  shows "\<exists>notif p'. pipe_write wq data p = Ret (Some (if write_ready (length data) p then min (length data) (pipe_space p) else 0), notif, p') \<and>
    pipe_ok p' \<and> buffered p' = buffered p @ (if write_ready (length data) p then take (pipe_space p) data else [])"
proof (cases "write_ready (length data) p")
  case True
  let ?n = "min (length data) (pipe_space p)"
  have sp: "br_len (pi_buffer p) + ?n \<le> PIPE_CAPACITY" using assms(1) by (auto simp: pipe_ok_def pipe_space_def)
  obtain ring where r: "push (take ?n data) (pi_buffer p) = Ret ring" "ring_inv ring" "contents ring = buffered p @ take ?n data"
    using ring.put_ok [of "pi_buffer p" "take ?n data"] assms(1) sp buffered_length [OF assms(1)]
    by (auto simp: pipe_ok_def PIPE_CAPACITY_def)
  have "br_len ring = br_len (pi_buffer p) + ?n"
    using r(2,3) buffered_length [OF assms(1)] contents_length [of ring] by (simp add: ring_inv_def)
  then show ?thesis using True assms r sp by (auto simp: pipe_write_def pipe_ok_def Let_def min_def)
next
  case False
  then show ?thesis using assms by (simp add: pipe_write_def)
qed

lemma read_into_ok:
  assumes "pipe_ok p" "n = min (length out) (length (buffered p))"
  shows "\<exists>notif p'. read_into wq out p = Ret (n, take n (buffered p) @ drop n out, notif, p') \<and> pipe_ok p' \<and> buffered p' = drop n (buffered p)"
proof -
  obtain ring where r: "pop out (pi_buffer p) = Ret (n, take n (buffered p) @ drop n out, ring)" "ring_inv ring" "contents ring = drop n (buffered p)"
    using ring.get_ok [of "pi_buffer p" n out] assms by (auto simp: pipe_ok_def)
  have "br_len ring \<le> br_len (pi_buffer p)" using r(2,3) buffered_length [OF assms(1)] contents_length [of ring] by (simp add: ring_inv_def)
  then show ?thesis using r assms(1) by (cases "n = 0") (auto simp: read_into_def pipe_ok_def Let_def)
qed

inductive_cases pipe_stepE: "pipe_step p i d p'"

lemma pipe_ok_cong: "pi_buffer p' = pi_buffer p \<Longrightarrow> pipe_ok p' \<longleftrightarrow> pipe_ok p"
  by (simp add: pipe_ok_def)

lemma step_keeps_order:
  assumes "pipe_step p i d p'" "pipe_ok p"
  shows "pipe_ok p' \<and> buffered p @ i = d @ buffered p'"
  using assms(1)
proof cases
  case (accept wq data n notif)
  then have "0 < pi_readers p" by (cases "pi_readers p = 0") (auto simp: pipe_write_def)
  from pipe_write_ok [OF assms(2) this, of wq data] show ?thesis
    using accept by (cases "write_ready (length data) p") (auto simp: min_def)
next
  case (broken wq data notif)
  then have "p' = p" by (auto simp: pipe_write_def Let_def run_bind_eq_Ret split: if_splits)
  then show ?thesis using broken assms(2) by simp
next
  case (read wq out n out' notif)
  from read_into_ok [OF assms(2) refl, of wq out] read show ?thesis by auto
next
  case (close m wq notif)
  then have "pi_buffer p' = pi_buffer p"
    by (auto simp: close_descriptor_def close_writer_def close_writer_silent_def close_reader_def close_reader_silent_def Let_def split: OpenMode.splits)
  then show ?thesis using close assms(2) pipe_ok_cong [of p' p] by simp
next
  case (opened m wq f notif f')
  then have "pi_buffer p' = pi_buffer p" by (auto simp: attach_def attach_reader_def attach_writer_def Let_def)
  then show ?thesis using opened assms(2) pipe_ok_cong [of p' p] by simp
next
  case (abandoned m wq f notif f')
  then have "pi_buffer p' = pi_buffer p" by (auto simp: detach_def close_writer_silent_def close_reader_silent_def Let_def)
  then show ?thesis using abandoned assms(2) pipe_ok_cong [of p' p] by simp
next
  case (register interests entry r)
  then have "pi_buffer p' = pi_buffer p" by (auto simp: pipe_register_def add_poller_def Let_def split: if_splits)
  then show ?thesis using register assms(2) pipe_ok_cong [of p' p] by simp
qed (use assms(2) in \<open>simp_all add: pipe_ok_def remove_poller_def inc_refcount_def split: OpenMode.splits\<close>)

lemma trace_keeps_order: "pipe_trace p i d p' \<Longrightarrow> pipe_ok p \<Longrightarrow> pipe_ok p' \<and> buffered p @ i = d @ buffered p'"
proof (induction rule: pipe_trace.induct)
  case (more p i d p' i' d' p'')
  then show ?case using step_keeps_order [OF more.hyps(2)] by (metis append_assoc)
qed simp

lemma small_write_whole:
  assumes "pipe_ok p" "length data \<le> PIPE_BUF"
  shows "\<exists>r notif p'. pipe_write wq data p = Ret (r, notif, p') \<and> (r = None \<and> pi_readers p = 0 \<or> r = Some 0 \<or> r = Some (length data))"
proof (cases "pi_readers p = 0")
  case False
  then have "0 < pi_readers p" by simp
  from pipe_write_ok [OF assms(1) this, of wq data] show ?thesis
    using assms(2) False by (fastforce simp: write_ready_def)
qed (simp add: pipe_write_def)

text \<open>C14. A pipe delivers what it accepted, in order.  Whatever threads write, read, duplicate, open,
  close and poll, in any interleaving: the bytes delivered so far, followed by the bytes in the
  buffer, are the bytes accepted so far; the buffer never exceeds its capacity; and a write
  of at most \<open>PIPE_BUF\<close> bytes is taken whole or not at all, and fails only without readers.\<close>

theorem pipe_delivers_in_order:
  assumes "pipe_trace pipe_new accepted delivered p"
  shows "accepted = delivered @ buffered p \<and> length (buffered p) \<le> PIPE_CAPACITY \<and>
    (\<forall>wq data. length data \<le> PIPE_BUF \<longrightarrow> (\<exists>r notif p'. pipe_write wq data p = Ret (r, notif, p') \<and>
      (r = None \<and> pi_readers p = 0 \<or> r = Some 0 \<or> r = Some (length data))))"
  using trace_keeps_order [OF assms pipe_new_ok(1)] small_write_whole [of p] buffered_length [of p]
  by (auto simp: pipe_ok_def pipe_new_ok(3))

theorem pipe_delivers_in_order_witness:
  "\<exists>p :: nat Pipe. pipe_trace pipe_new [7, 8, 9] [7, 8] p \<and> [7, 8, 9] = [7, 8] @ buffered p"
proof -
  obtain notif and p :: "nat Pipe" where p: "pipe_write \<lparr>wq_reader = False, wq_writer = False\<rparr> [7, 8, 9] pipe_new = Ret (Some 3, notif, p)"
    "pipe_ok p" "buffered p = [7, 8, 9]"
    using pipe_write_ok [OF pipe_new_ok(1), of "\<lparr>wq_reader = False, wq_writer = False\<rparr>" "[7, 8, 9]"] pipe_new_ok(3)
    by (auto simp: pipe_new_def write_ready_def pipe_space_def ring_new_def PIPE_CAPACITY_def PIPE_BUF_def numeral_3_eq_3)
  obtain notif' p' where p': "read_into \<lparr>wq_reader = False, wq_writer = False\<rparr> [0, 0] p = Ret (2, [7, 8], notif', p')"
    using read_into_ok [OF p(2) refl, of "\<lparr>wq_reader = False, wq_writer = False\<rparr>" "[0, 0]"] p(3) by auto
  have "pipe_trace pipe_new ([] @ take 3 [7, 8, 9]) ([] @ []) p" by (rule pipe_trace.more [OF pipe_trace.start pipe_step.accept [OF p(1)]])
  from pipe_trace.more [OF this pipe_step.read [OF p']] have "pipe_trace pipe_new [7, 8, 9] [7, 8] p'" by simp
  then show ?thesis using pipe_delivers_in_order [of "[7, 8, 9]" "[7, 8]" p'] by blast
qed

end
