(* ===== verification/Valloc.thy ===== *)
theory Valloc
  imports Edos_Prelude
begin

text \<open>
  The allocator of kernel virtual addresses (\<open>kernel/src/memory/valloc.rs\<close>): a sorted array of at
  most \<open>MAX_REGIONS\<close> free regions, first fit with a guard page behind every allocation, and
  merging on free.  Addresses and sizes are natural numbers below \<open>2 ^ 64\<close>; an addition that
  leaves this range panics.  The model keeps the live prefix of the array and the three
  counters.  \<open>align_up\<close> of the crate \<open>x86_64\<close> is a parameter; its
  \<open>VirtAddr\<close> is the address it holds, all addresses of the allocator being canonical.
\<close>

section \<open>Operations\<close>

definition MAX_REGIONS :: nat where "MAX_REGIONS = 4096"
definition VMALLOC_END :: nat where "VMALLOC_END = 0xFFFFE00000000000"

record FreeRegion =
  fr_start :: nat
  fr_size :: nat

record VAlloc =
  va_regions :: "FreeRegion list"
  va_leaked_regions :: nat
  va_leaked_bytes :: nat
  va_rejected_frees :: nat

type_synonym align = "nat \<Rightarrow> nat \<Rightarrow> nat run"

definition valloc_new :: "nat \<Rightarrow> VAlloc" where
  "valloc_new start = \<lparr>va_regions = [\<lparr>fr_start = start, fr_size = VMALLOC_END - start\<rparr>],
     va_leaked_regions = 0, va_leaked_bytes = 0, va_rejected_frees = 0\<rparr>"

definition region_end :: "FreeRegion \<Rightarrow> nat" where "region_end r = fr_start r + fr_size r"

definition remove_region :: "nat \<Rightarrow> FreeRegion list \<Rightarrow> FreeRegion list" where
  "remove_region i rs = take i rs @ drop (i + 1) rs"

definition insert_region :: "nat \<Rightarrow> FreeRegion \<Rightarrow> FreeRegion list \<Rightarrow> FreeRegion list" where
  "insert_region i r rs = take i rs @ r # drop i rs"

fun alloc_scan :: "nat \<Rightarrow> FreeRegion list \<Rightarrow> (nat \<times> FreeRegion list) option" where
  "alloc_scan need [] = None"
| "alloc_scan need (r # rs) =
     (if fr_size r \<ge> need
      then let remaining = fr_size r - need
        in Some (fr_start r, if remaining > 0 then \<lparr>fr_start = fr_start r + need, fr_size = remaining\<rparr> # rs else rs)
      else map_option (\<lambda>(a, rs'). (a, r # rs')) (alloc_scan need rs))"

definition valloc_alloc :: "align \<Rightarrow> nat \<Rightarrow> VAlloc \<Rightarrow> (nat option \<times> VAlloc) run" where
  "valloc_alloc align_up size0 v =
     (if size0 = 0 then Ret (None, v)
      else run_bind (align_up size0 4096) (\<lambda>size.
        if size + 4096 \<ge> 2 ^ 64 then Ret (None, v)
        else case alloc_scan (size + 4096) (va_regions v) of
            None \<Rightarrow> Ret (None, v)
          | Some (result, rs) \<Rightarrow> Ret (Some result, v\<lparr>va_regions := rs\<rparr>)))"

definition insertion_point :: "nat \<Rightarrow> FreeRegion list \<Rightarrow> nat" where
  "insertion_point addr rs = length (takeWhile (\<lambda>r. \<not> fr_start r \<ge> addr) rs)"

definition merge_region :: "nat \<Rightarrow> nat \<Rightarrow> nat \<Rightarrow> VAlloc \<Rightarrow> VAlloc" where
  "merge_region pos addr region_size v =
     (let rs = va_regions v; last_end = addr + region_size;
          merge_prev = (pos > 0 \<and> region_end (rs ! (pos - 1)) = addr);
          merge_next = (pos < length rs \<and> fr_start (rs ! pos) = last_end)
      in if merge_prev \<and> merge_next
         then let next_end = region_end (rs ! pos); prev = rs ! (pos - 1)
           in v\<lparr>va_regions := remove_region pos (rs[pos - 1 := prev\<lparr>fr_size := next_end - fr_start prev\<rparr>])\<rparr>
         else if merge_prev
         then v\<lparr>va_regions := rs[pos - 1 := (rs ! (pos - 1))\<lparr>fr_size := fr_size (rs ! (pos - 1)) + region_size\<rparr>]\<rparr>
         else if merge_next
         then v\<lparr>va_regions := rs[pos := \<lparr>fr_start = addr, fr_size = fr_size (rs ! pos) + region_size\<rparr>]\<rparr>
         else if length rs = MAX_REGIONS
         then v\<lparr>va_leaked_regions := va_leaked_regions v + 1, va_leaked_bytes := va_leaked_bytes v + region_size\<rparr>
         else v\<lparr>va_regions := insert_region pos \<lparr>fr_start = addr, fr_size = region_size\<rparr> rs\<rparr>)"

definition valloc_free :: "align \<Rightarrow> nat \<Rightarrow> nat \<Rightarrow> VAlloc \<Rightarrow> VAlloc run" where
  "valloc_free align_up addr size0 v =
     run_bind (align_up size0 4096) (\<lambda>size.
       let region_size = size + 4096; last_end = addr + region_size
       in if region_size \<ge> 2 ^ 64 \<or> last_end \<ge> 2 ^ 64 then Panic
          else let rs = va_regions v; pos = insertion_point addr rs;
                   overlaps_prev = (pos > 0 \<and> region_end (rs ! (pos - 1)) > addr);
                   overlaps_next = (pos < length rs \<and> fr_start (rs ! pos) < last_end)
            in if overlaps_prev \<or> overlaps_next then Ret (v\<lparr>va_rejected_frees := va_rejected_frees v + 1\<rparr>)
               else Ret (merge_region pos addr region_size v))"

record VallocStats =
  vs_regions :: nat
  vs_free_bytes :: nat
  vs_largest_free :: nat
  vs_leaked_regions :: nat
  vs_leaked_bytes :: nat
  vs_rejected_frees :: nat

definition valloc_stats :: "VAlloc \<Rightarrow> VallocStats" where
  "valloc_stats v = \<lparr>vs_regions = length (va_regions v), vs_free_bytes = sum_list (map fr_size (va_regions v)),
     vs_largest_free = foldl max 0 (map fr_size (va_regions v)), vs_leaked_regions = va_leaked_regions v,
     vs_leaked_bytes = va_leaked_bytes v, vs_rejected_frees = va_rejected_frees v\<rparr>"

section \<open>Free space\<close>

definition span :: "FreeRegion \<Rightarrow> nat set" where "span r = {fr_start r..<region_end r}"

definition space :: "FreeRegion list \<Rightarrow> nat set" where "space rs = (\<Union>r \<in> set rs. span r)"

text \<open>Regions are not empty, do not touch, and lie on pages.\<close>

definition region_ok :: "FreeRegion \<Rightarrow> bool" where
  "region_ok r \<longleftrightarrow> 0 < fr_size r \<and> 4096 dvd fr_start r \<and> 4096 dvd fr_size r"

definition regions_ok :: "FreeRegion list \<Rightarrow> bool" where
  "regions_ok rs \<longleftrightarrow> (\<forall>r \<in> set rs. region_ok r) \<and> sorted_wrt (\<lambda>a b. region_end a < fr_start b) rs"

lemma space_simps [simp]: "space [] = {}" "space (r # rs) = span r \<union> space rs" "space (xs @ ys) = space xs \<union> space ys"
  by (auto simp: space_def)

lemma regions_ok_simps [simp]:
  "regions_ok []"
  "regions_ok (r # rs) \<longleftrightarrow> region_ok r \<and> (\<forall>q \<in> set rs. region_end r < fr_start q) \<and> regions_ok rs"
  by (auto simp: regions_ok_def)

lemma regions_ok_append: "regions_ok (xs @ ys) \<longleftrightarrow> regions_ok xs \<and> regions_ok ys \<and> (\<forall>a \<in> set xs. \<forall>b \<in> set ys. region_end a < fr_start b)"
  by (auto simp: regions_ok_def sorted_wrt_append)

lemma space_after: "\<forall>q \<in> set rs. k < fr_start q \<Longrightarrow> x \<in> space rs \<Longrightarrow> k < x"
  by (force simp: space_def span_def)

lemma alloc_scan_ok:
  assumes "regions_ok rs" "0 < need" "4096 dvd need"
  shows "case alloc_scan need rs of
      None \<Rightarrow> \<forall>a. \<not> {a..<a + need} \<subseteq> space rs
    | Some (a, rs') \<Rightarrow> regions_ok rs' \<and> 4096 dvd a \<and> {a..<a + need} \<subseteq> space rs \<and> space rs' = space rs - {a..<a + need} \<and>
        length rs' \<le> length rs \<and> (\<forall>q \<in> set rs'. \<exists>r \<in> set rs. fr_start r \<le> fr_start q)"
  using assms
proof (induction rs)
  case (Cons r rs)
  show ?case
  proof (cases "need \<le> fr_size r")
    case True
    then show ?thesis using Cons.prems space_after [of rs "region_end r"]
      by (auto simp: Let_def span_def region_end_def region_ok_def intro!: dvd_add dvd_diff_nat) (force+)
  next
    case False
    note after = space_after [of rs "region_end r"]
    have gap: "\<forall>q \<in> set rs. region_end r < fr_start q" using Cons.prems by simp
    show ?thesis
    proof (cases "alloc_scan need rs")
      case None
      have "\<not> {a..<a + need} \<subseteq> span r \<union> space rs" for a
      proof
        assume sub: "{a..<a + need} \<subseteq> span r \<union> space rs"
        show False
        proof (cases "region_end r \<le> a")
          case True
          then have "{a..<a + need} \<subseteq> space rs" using sub by (auto simp: span_def)
          then show False using Cons None by auto
        next
          case False
          then have "a \<in> span r" using subsetD [OF sub, of a] after [OF gap, of a] Cons.prems(2) by auto
          then have "region_end r \<in> {a..<a + need}" using \<open>\<not> need \<le> fr_size r\<close> by (auto simp: span_def region_end_def)
          then show False using sub after [OF gap, of "region_end r"] by (auto simp: span_def)
        qed
      qed
      then show ?thesis using None \<open>\<not> need \<le> fr_size r\<close> by simp
    next
      case (Some p)
      then obtain a rs' where p: "alloc_scan need rs = Some (a, rs')" by (cases p) auto
      then have ih: "regions_ok rs'" "4096 dvd a" "{a..<a + need} \<subseteq> space rs" "space rs' = space rs - {a..<a + need}"
        "length rs' \<le> length rs" "\<forall>q \<in> set rs'. \<exists>r \<in> set rs. fr_start r \<le> fr_start q" using Cons by auto
      have "\<forall>q \<in> set rs'. region_end r < fr_start q" using ih(6) gap by (meson less_le_trans)
      moreover have "span r \<inter> {a..<a + need} = {}" using after [OF gap] ih(3) by (force simp: span_def)
      ultimately show ?thesis using p ih Cons.prems \<open>\<not> need \<le> fr_size r\<close> by auto
    qed
  qed
qed (auto simp: subset_iff intro: exI)

section \<open>Freeing\<close>

lemma insertion_split:
  assumes "regions_ok rs" "pos = insertion_point addr rs"
  shows "\<exists>xs ys. rs = xs @ ys \<and> length xs = pos \<and> (\<forall>r \<in> set xs. fr_start r < addr) \<and> (\<forall>r \<in> set ys. addr \<le> fr_start r)"
proof (intro exI conjI)
  let ?P = "\<lambda>r. \<not> fr_start r \<ge> addr"
  show "rs = takeWhile ?P rs @ dropWhile ?P rs" by simp
  show "length (takeWhile ?P rs) = pos" using assms(2) by (simp add: insertion_point_def)
  show "\<forall>r \<in> set (takeWhile ?P rs). fr_start r < addr" by (auto dest: set_takeWhileD)
  show "\<forall>r \<in> set (dropWhile ?P rs). addr \<le> fr_start r"
  proof (cases "dropWhile ?P rs")
    case (Cons q qs)
    have "regions_ok (takeWhile ?P rs @ dropWhile ?P rs)" using assms(1) by simp
    then have "regions_ok (q # qs)" unfolding regions_ok_append Cons by simp
    moreover have "addr \<le> fr_start q" using Cons by (metis dropWhile_eq_Cons_conv)
    ultimately show ?thesis using Cons by (auto simp: region_end_def)
  next
    case Nil
    then show ?thesis unfolding Nil by simp
  qed
qed

lemma ends_before: "regions_ok (xs @ [p]) \<Longrightarrow> a \<in> set xs \<Longrightarrow> region_end a < fr_start p"
  by (simp add: regions_ok_append)

definition freed :: "nat \<Rightarrow> nat \<Rightarrow> VAlloc \<Rightarrow> VAlloc \<Rightarrow> bool" where
  "freed addr sz v v' \<longleftrightarrow> regions_ok (va_regions v') \<and> length (va_regions v') \<le> MAX_REGIONS \<and>
     va_rejected_frees v' = va_rejected_frees v \<and>
     (space (va_regions v') = space (va_regions v) \<union> {addr..<addr + sz} \<and> va_leaked_bytes v' = va_leaked_bytes v \<or>
      length (va_regions v) = MAX_REGIONS \<and> va_regions v' = va_regions v \<and> va_leaked_bytes v' = va_leaked_bytes v + sz)"

lemma merge_both:
  assumes "xs = xs' @ [p]" "ys = n # ys'" "region_end p = addr" "fr_start n = addr + sz"
    and "va_regions v = xs @ ys" "regions_ok (xs @ ys)" "length (xs @ ys) \<le> MAX_REGIONS" "region_ok \<lparr>fr_start = addr, fr_size = sz\<rparr>"
    "\<forall>r \<in> set xs. region_end r \<le> addr" "\<forall>r \<in> set ys. addr + sz \<le> fr_start r"
  shows "freed addr sz v (merge_region (length xs) addr sz v)"
proof -
  note both = assms(1-4)
  have new: "0 < sz" "4096 dvd addr" "4096 dvd sz" using assms(8) by (simp_all add: region_ok_def)
  let ?m = "p\<lparr>fr_size := region_end n - fr_start p\<rparr>"
  have "merge_region (length xs) addr sz v = v\<lparr>va_regions := xs' @ ?m # ys'\<rparr>"
    using both assms(5) by (simp add: merge_region_def remove_region_def nth_append list_update_append)
  moreover have "region_ok p" "region_ok n" using assms(6) both by (simp_all add: regions_ok_append)
  moreover have "region_end ?m = region_end n" "fr_start ?m = fr_start p" using both by (auto simp: region_end_def)
  moreover have "span ?m = span p \<union> {addr..<addr + sz} \<union> span n"
    using both calculation(4) by (auto simp: span_def region_end_def)
  moreover have "region_ok ?m" using both new calculation(2,3) by (auto simp: region_ok_def region_end_def intro!: dvd_diff_nat)
  ultimately show ?thesis using assms(6,7) both by (auto simp: freed_def assms(5) regions_ok_append)
qed

lemma merge_prev:
  assumes "xs = xs' @ [p]" "region_end p = addr" "ys = [] \<or> fr_start (hd ys) \<noteq> addr + sz"
    and "va_regions v = xs @ ys" "regions_ok (xs @ ys)" "length (xs @ ys) \<le> MAX_REGIONS" "region_ok \<lparr>fr_start = addr, fr_size = sz\<rparr>"
    "\<forall>r \<in> set xs. region_end r \<le> addr" "\<forall>r \<in> set ys. addr + sz \<le> fr_start r"
  shows "freed addr sz v (merge_region (length xs) addr sz v)"
proof -
  note prev = assms(1-3)
  have new: "0 < sz" "4096 dvd addr" "4096 dvd sz" using assms(7) by (simp_all add: region_ok_def)
  let ?m = "p\<lparr>fr_size := fr_size p + sz\<rparr>"
  have "merge_region (length xs) addr sz v = v\<lparr>va_regions := xs' @ ?m # ys\<rparr>"
    using prev assms(4) by (cases ys) (simp_all add: merge_region_def nth_append list_update_append)
  moreover have "region_ok p" using assms(5) prev by (simp add: regions_ok_append)
  moreover have "region_end ?m = addr + sz" "fr_start ?m = fr_start p" using prev by (auto simp: region_end_def)
  moreover have "span ?m = span p \<union> {addr..<addr + sz}" using prev by (auto simp: span_def region_end_def)
  moreover have "region_ok ?m" using new calculation(2) by (auto simp: region_ok_def)
  moreover have "\<forall>r \<in> set ys. addr + sz < fr_start r"
    using assms(5,9) prev(3) by (cases ys) (auto simp: regions_ok_append region_end_def order_le_less)
  ultimately show ?thesis using assms(5,6) prev by (auto simp: freed_def assms(4) regions_ok_append)
qed

lemma merge_nxt:
  assumes "ys = n # ys'" "fr_start n = addr + sz" "xs = [] \<or> region_end (last xs) \<noteq> addr"
    and "va_regions v = xs @ ys" "regions_ok (xs @ ys)" "length (xs @ ys) \<le> MAX_REGIONS" "region_ok \<lparr>fr_start = addr, fr_size = sz\<rparr>"
    "\<forall>r \<in> set xs. region_end r \<le> addr" "\<forall>r \<in> set ys. addr + sz \<le> fr_start r"
  shows "freed addr sz v (merge_region (length xs) addr sz v)"
proof -
  note nxt = assms(1-3)
  have new: "0 < sz" "4096 dvd addr" "4096 dvd sz" using assms(7) by (simp_all add: region_ok_def)
  let ?m = "\<lparr>fr_start = addr, fr_size = fr_size n + sz\<rparr>"
  have "merge_region (length xs) addr sz v = v\<lparr>va_regions := xs @ ?m # ys'\<rparr>"
    using nxt assms(4) by (cases xs rule: rev_cases) (simp_all add: merge_region_def nth_append list_update_append)
  moreover have "region_ok n" using assms(5) nxt by (simp add: regions_ok_append)
  moreover have "region_end ?m = region_end n" using nxt by (auto simp: region_end_def)
  moreover have "span ?m = {addr..<addr + sz} \<union> span n" using nxt by (auto simp: span_def region_end_def)
  moreover have "region_ok ?m" using new calculation(2) by (auto simp: region_ok_def)
  moreover have "\<forall>r \<in> set xs. region_end r < addr"
    using assms(5,8) nxt(3) by (cases xs rule: rev_cases) (fastforce simp: regions_ok_append region_end_def order_le_less)+
  ultimately show ?thesis using assms(5,6) nxt by (auto simp: freed_def assms(4) regions_ok_append)
qed

lemma merge_none:
  assumes "xs = [] \<or> region_end (last xs) \<noteq> addr" "ys = [] \<or> fr_start (hd ys) \<noteq> addr + sz"
    and "va_regions v = xs @ ys" "regions_ok (xs @ ys)" "length (xs @ ys) \<le> MAX_REGIONS" "region_ok \<lparr>fr_start = addr, fr_size = sz\<rparr>"
    "\<forall>r \<in> set xs. region_end r \<le> addr" "\<forall>r \<in> set ys. addr + sz \<le> fr_start r"
  shows "freed addr sz v (merge_region (length xs) addr sz v)"
proof -
  note none = assms(1-2)
  have new: "0 < sz" "4096 dvd addr" "4096 dvd sz" using assms(6) by (simp_all add: region_ok_def)
  let ?m = "\<lparr>fr_start = addr, fr_size = sz\<rparr>"
  have "merge_region (length xs) addr sz v = (if length (xs @ ys) = MAX_REGIONS
      then v\<lparr>va_leaked_regions := va_leaked_regions v + 1, va_leaked_bytes := va_leaked_bytes v + sz\<rparr>
      else v\<lparr>va_regions := xs @ ?m # ys\<rparr>)"
    using none assms(3) by (cases xs rule: rev_cases; cases ys) (simp_all add: merge_region_def insert_region_def nth_append)
  moreover have "\<forall>r \<in> set xs. region_end r < addr"
    using assms(4,7) none(1) by (cases xs rule: rev_cases) (fastforce simp: regions_ok_append region_end_def order_le_less)+
  moreover have "\<forall>r \<in> set ys. addr + sz < fr_start r"
    using assms(4,8) none(2) by (cases ys) (auto simp: regions_ok_append region_end_def order_le_less)
  moreover have "span ?m = {addr..<addr + sz}" "region_end ?m = addr + sz" by (simp_all add: span_def region_end_def)
  ultimately show ?thesis using assms(4-6) by (auto simp: freed_def assms(3) regions_ok_append)
qed

lemma merge_region_ok:
  assumes "va_regions v = xs @ ys" "regions_ok (xs @ ys)" "length (xs @ ys) \<le> MAX_REGIONS" "region_ok \<lparr>fr_start = addr, fr_size = sz\<rparr>"
    "\<forall>r \<in> set xs. region_end r \<le> addr" "\<forall>r \<in> set ys. addr + sz \<le> fr_start r"
  shows "freed addr sz v (merge_region (length xs) addr sz v)"
proof -
  consider (both) xs' p n ys' where "xs = xs' @ [p]" "ys = n # ys'" "region_end p = addr" "fr_start n = addr + sz"
    | (prev) xs' p where "xs = xs' @ [p]" "region_end p = addr" "ys = [] \<or> fr_start (hd ys) \<noteq> addr + sz"
    | (nxt) n ys' where "ys = n # ys'" "fr_start n = addr + sz" "xs = [] \<or> region_end (last xs) \<noteq> addr"
    | (none) "xs = [] \<or> region_end (last xs) \<noteq> addr" "ys = [] \<or> fr_start (hd ys) \<noteq> addr + sz"
    by (cases xs rule: rev_cases; cases ys) auto
  then show ?thesis
    by cases (rule merge_both [OF _ _ _ _ assms] merge_prev [OF _ _ _ assms] merge_nxt [OF _ _ _ assms] merge_none [OF _ _ assms], assumption+)+
qed

section \<open>Live allocations\<close>

definition round_up :: "nat \<Rightarrow> nat" where "round_up n = (n + 4095) div 4096 * 4096"

text \<open>What the documentation of \<open>x86_64::align_up\<close> promises for pages: the smallest multiple not
  below the argument, or a panic when that overflows.\<close>

definition align_doc :: "align \<Rightarrow> bool" where
  "align_doc align_up \<longleftrightarrow> (\<forall>n. align_up n 4096 = (if n \<le> 2 ^ 64 - 4096 then Ret (round_up n) else Panic))"

definition DYNAMIC_MEM_START :: nat where "DYNAMIC_MEM_START = 0xFFFFC00020000000"

text \<open>An allocation occupies its pages and the guard page.\<close>

definition footprint :: "nat \<times> nat \<Rightarrow> nat set" where
  "footprint al = {fst al..<fst al + (round_up (snd al) + 4096)}"

inductive vstep :: "align \<Rightarrow> VAlloc \<times> (nat \<times> nat) set \<Rightarrow> VAlloc \<times> (nat \<times> nat) set \<Rightarrow> bool" for align_up where
  allocated: "valloc_alloc align_up sz v = Ret (Some a, v') \<Longrightarrow> vstep align_up (v, live) (v', insert (a, sz) live)"
| exhausted: "valloc_alloc align_up sz v = Ret (None, v') \<Longrightarrow> vstep align_up (v, live) (v', live)"
| released: "(a, sz) \<in> live \<Longrightarrow> valloc_free align_up a sz v = Ret v' \<Longrightarrow> vstep align_up (v, live) (v', live - {(a, sz)})"

inductive vreach :: "align \<Rightarrow> VAlloc \<Rightarrow> (nat \<times> nat) set \<Rightarrow> bool" for align_up where
  boot: "vreach align_up (valloc_new DYNAMIC_MEM_START) {}"
| step: "vreach align_up v live \<Longrightarrow> vstep align_up (v, live) (v', live') \<Longrightarrow> vreach align_up v' live'"

definition vinv :: "VAlloc \<Rightarrow> (nat \<times> nat) set \<Rightarrow> bool" where
  "vinv v live \<longleftrightarrow> regions_ok (va_regions v) \<and> length (va_regions v) \<le> MAX_REGIONS \<and>
     space (va_regions v) \<subseteq> {DYNAMIC_MEM_START..<VMALLOC_END} \<and> va_rejected_frees v = 0 \<and>
     (\<forall>al \<in> live. 4096 dvd fst al \<and> 0 < snd al \<and> footprint al \<subseteq> {DYNAMIC_MEM_START..<VMALLOC_END} - space (va_regions v)) \<and>
     (\<forall>al \<in> live. \<forall>al' \<in> live. al \<noteq> al' \<longrightarrow> footprint al \<inter> footprint al' = {})"

lemma round_up_facts: "n \<le> round_up n" "4096 dvd round_up n" "0 < n \<Longrightarrow> 0 < round_up n"
proof -
  show "n \<le> round_up n" using div_mult_mod_eq [of "n + 4095" 4096] mod_less_divisor [of 4096 "n + 4095"] unfolding round_up_def by linarith
  then show "0 < n \<Longrightarrow> 0 < round_up n" by linarith
qed (simp add: round_up_def)

lemma valloc_alloc_step:
  assumes "align_doc align_up" "vinv v live" "valloc_alloc align_up sz v = Ret (r, v')"
  shows "case r of None \<Rightarrow> v' = v
    | Some a \<Rightarrow> vinv v' (insert (a, sz) live) \<and> footprint (a, sz) \<subseteq> space (va_regions v)"
proof (cases r)
  case None
  then show ?thesis using assms by (auto simp: valloc_alloc_def run_bind_eq_Ret split: if_splits option.splits)
next
  case (Some a)
  let ?need = "round_up sz + 4096"
  have pos: "0 < sz" and sc: "\<exists>rs. alloc_scan ?need (va_regions v) = Some (a, rs) \<and> v' = v\<lparr>va_regions := rs\<rparr>"
    using assms(1) [unfolded align_doc_def, rule_format, of sz] assms(3) Some
    by (auto simp: valloc_alloc_def run_bind_eq_Ret split: if_splits option.splits)
  then obtain rs where rs: "alloc_scan ?need (va_regions v) = Some (a, rs)" "v' = v\<lparr>va_regions := rs\<rparr>" by blast
  have ok: "regions_ok rs" "4096 dvd a" "{a..<a + ?need} \<subseteq> space (va_regions v)" "space rs = space (va_regions v) - {a..<a + ?need}"
    "length rs \<le> length (va_regions v)"
    using alloc_scan_ok [of "va_regions v" ?need] assms(2) rs(1) round_up_facts(2) [of sz] by (auto simp: vinv_def)
  have fp: "footprint (a, sz) = {a..<a + ?need}" by (simp add: footprint_def)
  have old: "\<forall>al \<in> live. footprint al \<inter> footprint (a, sz) = {}" using assms(2) ok(3) unfolding fp vinv_def by blast
  then have "vinv v' (insert (a, sz) live)"
    using assms(2) ok rs(2) pos unfolding vinv_def by (auto simp: fp)
  then show ?thesis using Some fp ok(3) by simp
qed

lemma footprint_facts: "fst al \<in> footprint al" "al \<in> live \<Longrightarrow> vinv v live \<Longrightarrow> fst al + (round_up (snd al) + 4096) \<le> VMALLOC_END"
proof -
  show "fst al \<in> footprint al" by (simp add: footprint_def)
  assume "al \<in> live" "vinv v live"
  then have "footprint al \<subseteq> {DYNAMIC_MEM_START..<VMALLOC_END}" unfolding vinv_def by blast
  moreover have "fst al + (round_up (snd al) + 4095) \<in> footprint al" by (simp add: footprint_def)
  ultimately have "fst al + (round_up (snd al) + 4095) < VMALLOC_END" by auto
  then show "fst al + (round_up (snd al) + 4096) \<le> VMALLOC_END" by simp
qed

lemma vinv_freed:
  assumes "vinv v live" "al \<in> live" "freed (fst al) (round_up (snd al) + 4096) v v'"
  shows "vinv v' (live - {al})"
proof -
  have sp: "space (va_regions v') \<subseteq> space (va_regions v) \<union> footprint al"
    using assms(3) by (auto simp: freed_def footprint_def)
  have fp: "footprint al \<subseteq> {DYNAMIC_MEM_START..<VMALLOC_END}" "space (va_regions v) \<subseteq> {DYNAMIC_MEM_START..<VMALLOC_END}"
    using assms(1,2) by (auto simp: vinv_def)
  have keep: "4096 dvd fst k \<and> 0 < snd k \<and> footprint k \<subseteq> {DYNAMIC_MEM_START..<VMALLOC_END} - space (va_regions v')" if "k \<in> live - {al}" for k
  proof -
    have "footprint k \<inter> footprint al = {}" "footprint k \<subseteq> {DYNAMIC_MEM_START..<VMALLOC_END} - space (va_regions v)" "4096 dvd fst k" "0 < snd k"
      using assms(1,2) that unfolding vinv_def by blast+
    then show ?thesis using sp by blast
  qed
  have "\<forall>k \<in> live. \<forall>k' \<in> live. k \<noteq> k' \<longrightarrow> footprint k \<inter> footprint k' = {}" using assms(1) unfolding vinv_def by blast
  moreover have "regions_ok (va_regions v')" "length (va_regions v') \<le> MAX_REGIONS" "va_rejected_frees v' = 0"
    using assms(1,3) by (simp_all add: vinv_def freed_def)
  moreover have "space (va_regions v') \<subseteq> {DYNAMIC_MEM_START..<VMALLOC_END}" using sp fp by blast
  ultimately show ?thesis using keep unfolding vinv_def by blast
qed

lemma free_step:
  assumes "align_doc align_up" "vinv v live" "(a, sz) \<in> live"
  shows "\<exists>v'. valloc_free align_up a sz v = Ret v' \<and> vinv v' (live - {(a, sz)})"
proof -
  let ?need = "round_up sz + 4096" and ?rs = "va_regions v"
  have inv: "regions_ok ?rs" "length ?rs \<le> MAX_REGIONS" "4096 dvd a" "footprint (a, sz) \<inter> space ?rs = {}" "footprint (a, sz) \<subseteq> {DYNAMIC_MEM_START..<VMALLOC_END}"
    using assms(2,3) by (auto simp: vinv_def)
  have fits: "a + ?need \<le> VMALLOC_END" using footprint_facts(2) [OF assms(3,2)] by simp
  then have au: "align_up sz 4096 = Ret (round_up sz)"
    using assms(1) round_up_facts(1) [of sz] by (simp add: align_doc_def VMALLOC_END_def)
  obtain xs ys where x: "?rs = xs @ ys" "length xs = insertion_point a ?rs" "\<forall>r \<in> set xs. fr_start r < a" "\<forall>r \<in> set ys. a \<le> fr_start r"
    using insertion_split [OF inv(1) refl, of a] by blast
  have sp: "span r \<inter> {a..<a + ?need} = {}" "0 < fr_size r" if "r \<in> set ?rs" for r
    using inv(1,4) that by (auto simp: space_def footprint_def regions_ok_def region_ok_def)
  have before: "\<forall>r \<in> set xs. region_end r \<le> a"
  proof
    fix r assume r: "r \<in> set xs"
    then have "a \<notin> span r" using sp(1) [of r] x(1) by auto
    then show "region_end r \<le> a" using x(3) r by (auto simp: span_def)
  qed
  have behind: "\<forall>r \<in> set ys. a + ?need \<le> fr_start r"
  proof
    fix r assume r: "r \<in> set ys"
    then have "fr_start r \<in> span r" using sp(2) [of r] x(1) by (simp add: span_def region_end_def)
    then show "a + ?need \<le> fr_start r" using sp(1) [of r] x(1,4) r by auto
  qed
  have fr: "freed a ?need v (merge_region (length xs) a ?need v)"
    using merge_region_ok [OF x(1) inv(1) [unfolded x(1)] inv(2) [unfolded x(1)] _ before behind] inv(3) round_up_facts(2) [of sz]
    by (simp add: region_ok_def)
  have apart: "\<not> (0 < length xs \<and> region_end (?rs ! (length xs - 1)) > a)"
      "\<not> (length xs < length ?rs \<and> fr_start (?rs ! length xs) < a + ?need)"
    using before behind nth_mem [of "length xs - 1" xs] nth_mem [of 0 ys] by (auto simp: x(1) nth_append linorder_not_less [symmetric])
  have "valloc_free align_up a sz v = Ret (merge_region (length xs) a ?need v)"
    using au fits apart by (auto simp: valloc_free_def VMALLOC_END_def Let_def x(2) [symmetric])
  then show ?thesis using vinv_freed [OF assms(2,3)] fr by auto
qed

lemma vreach_inv: "vreach align_up v live \<Longrightarrow> align_doc align_up \<Longrightarrow> vinv v live"
proof (induction rule: vreach.induct)
  case boot
  have "(4096 :: nat) dvd 35184372088832 * 1" by simp
  then show ?case
    by (auto simp: vinv_def valloc_new_def region_ok_def MAX_REGIONS_def span_def region_end_def DYNAMIC_MEM_START_def VMALLOC_END_def)
next
  case (step v live v' live')
  from step.hyps(2) show ?case
  proof cases
    case (allocated n a)
    then show ?thesis using valloc_alloc_step [OF step.prems step.IH [OF step.prems]] by fastforce
  next
    case (exhausted n)
    then show ?thesis using valloc_alloc_step [OF step.prems step.IH [OF step.prems]] step.IH [OF step.prems] by fastforce
  next
    case (released a n)
    then show ?thesis using free_step [OF step.prems step.IH [OF step.prems]] by fastforce
  qed
qed

text \<open>C16. Kernel address ranges do not overlap.  Whatever sequence of allocations and of frees of
  live allocations the kernel makes, every live allocation lies on whole pages inside the
  allocator's range, together with its guard page it overlaps no other live allocation and
  no free space, and freeing it succeeds without being taken for a double free.\<close>

theorem valloc_live_disjoint:
  assumes "align_doc align_up" "vreach align_up v live"
  shows "(\<forall>al \<in> live. 4096 dvd fst al \<and> footprint al \<subseteq> {DYNAMIC_MEM_START..<VMALLOC_END} - space (va_regions v)) \<and>
    (\<forall>al \<in> live. \<forall>al' \<in> live. al \<noteq> al' \<longrightarrow> footprint al \<inter> footprint al' = {}) \<and>
    (\<forall>al \<in> live. \<exists>v'. valloc_free align_up (fst al) (snd al) v = Ret v' \<and> va_rejected_frees v' = 0)"
proof -
  have inv: "vinv v live" by (rule vreach_inv [OF assms(2,1)])
  have "\<exists>v'. valloc_free align_up (fst al) (snd al) v = Ret v' \<and> va_rejected_frees v' = 0" if "al \<in> live" for al
    using free_step [OF assms(1) inv, of "fst al" "snd al"] that by (auto simp: vinv_def)
  then show ?thesis using inv unfolding vinv_def by blast
qed

definition example_align :: align where
  "example_align n k = (if n \<le> 2 ^ 64 - 4096 then Ret (round_up n) else Panic)"

theorem valloc_live_disjoint_witness:
  "\<exists>v live. vreach example_align v live \<and> (DYNAMIC_MEM_START, 100) \<in> live \<and>
    (\<exists>v'. valloc_free example_align DYNAMIC_MEM_START 100 v = Ret v' \<and> va_rejected_frees v' = 0)"
proof -
  have doc: "align_doc example_align" by (simp add: align_doc_def example_align_def)
  have "\<exists>v. valloc_alloc example_align 100 (valloc_new DYNAMIC_MEM_START) = Ret (Some DYNAMIC_MEM_START, v)"
    by (simp add: valloc_alloc_def example_align_def round_up_def valloc_new_def VMALLOC_END_def DYNAMIC_MEM_START_def)
  then obtain v where "vstep example_align (valloc_new DYNAMIC_MEM_START, {}) (v, insert (DYNAMIC_MEM_START, 100) {})"
    using vstep.allocated by blast
  from vreach.step [OF vreach.boot this] show ?thesis
    using valloc_live_disjoint [OF doc] by fastforce
qed

end
