(* ===== verification/Vma.thy ===== *)
theory Vma
  imports Btree_Map
begin

text \<open>
  The address space of a process (\<open>kernel/src/memory/vma.rs\<close>): the ordered set of its mapped areas,
  splitting and removing ranges, and claiming a free range.  Addresses are natural numbers
  below \<open>2 ^ 64\<close>; \<open>None\<close> of a checked addition is an overflow.  \<open>VirtAddr\<close> of the crate \<open>x86_64\<close> is
  the address it holds; its constructor and its alignment are the parameter \<open>x\<close>.  Inodes
  and cached pages are opaque.
\<close>

section \<open>Areas\<close>

definition USER_VA_END :: nat where "USER_VA_END = 0x0000800000000000"
definition PAGE_SIZE :: nat where "PAGE_SIZE = 4096"

datatype ('i, 'p) VmaBacking =
    Anonymous
  | Physical nat
  | SharedMemory nat
  | Tls
  | Stack
  | FileBacked 'i nat bool bool "'p option list"

record ('i, 'p) Vma =
  vm_start :: nat
  vm_end :: nat
  vm_prot :: u8
  vm_flags :: u8
  vm_backing :: "('i, 'p) VmaBacking"

datatype VmaError = OutOfUserSpace | NoSpace

record ('i, 'p) VmaSet =
  vs_vmas :: "(nat, ('i, 'p) Vma) btree"
  vs_mmap_base :: nat

record x86_64 =
  x_virt_new :: "nat \<Rightarrow> nat run"
  x_align_down :: "nat \<Rightarrow> nat \<Rightarrow> nat"

definition vma_contains :: "('i, 'p) Vma \<Rightarrow> nat \<Rightarrow> bool" where
  "vma_contains v addr \<longleftrightarrow> addr \<ge> vm_start v \<and> addr < vm_end v"

definition vma_size :: "('i, 'p) Vma \<Rightarrow> nat run" where
  "vma_size v = (if vm_end v < vm_start v then Panic else Ret (vm_end v - vm_start v))"

definition checked_add :: "nat \<Rightarrow> nat \<Rightarrow> nat option" where
  "checked_add a b = (if a + b < 2 ^ 64 then Some (a + b) else None)"

definition page_round_up :: "nat \<Rightarrow> nat option" where
  "page_round_up addr = (case checked_add addr (PAGE_SIZE - 1) of
       None \<Rightarrow> None | Some a \<Rightarrow> Some (unat (word_of_nat a AND NOT (word_of_nat (PAGE_SIZE - 1)) :: u64)))"

definition vmaset_new :: "('i, 'p) VmaSet" where "vmaset_new = \<lparr>vs_vmas = [], vs_mmap_base = 0\<rparr>"

text \<open>The last entry at or below a key, the last one below it, and the entries from a key on.\<close>

definition last_le :: "nat \<Rightarrow> (nat \<times> 'v) list \<Rightarrow> (nat \<times> 'v) option" where
  "last_le a m = (let xs = filter (\<lambda>(k, _). k \<le> a) m in if xs = [] then None else Some (last xs))"

definition last_lt :: "nat \<Rightarrow> (nat \<times> 'v) list \<Rightarrow> (nat \<times> 'v) option" where
  "last_lt a m = (let xs = filter (\<lambda>(k, _). k < a) m in if xs = [] then None else Some (last xs))"

definition range_from :: "nat \<Rightarrow> (nat \<times> 'v) list \<Rightarrow> (nat \<times> 'v) list" where
  "range_from a m = filter (\<lambda>(k, _). k \<ge> a) m"

section \<open>Operations\<close>

definition vma_find :: "nat \<Rightarrow> ('i, 'p) VmaSet \<Rightarrow> ('i, 'p) Vma option" where
  "vma_find addr s = (case last_le addr (vs_vmas s) of
       None \<Rightarrow> None | Some (_, v) \<Rightarrow> if vma_contains v addr then Some v else None)"

definition vma_insert :: "('i, 'p) Vma \<Rightarrow> ('i, 'p) VmaSet \<Rightarrow> (VmaError + unit) \<times> ('i, 'p) VmaSet" where
  "vma_insert v s =
     (if vm_end v < vm_start v \<or> vm_end v > USER_VA_END then (Inl OutOfUserSpace, s)
      else (Inr (), s\<lparr>vs_vmas := bt_insert (vm_start v) v (vs_vmas s)\<rparr>))"

definition insert_validated :: "('i, 'p) Vma \<Rightarrow> ('i, 'p) VmaSet \<Rightarrow> ('i, 'p) VmaSet run" where
  "insert_validated v s =
     (if vm_end v \<ge> vm_start v \<and> vm_end v \<le> USER_VA_END
      then Ret (s\<lparr>vs_vmas := bt_insert (vm_start v) v (vs_vmas s)\<rparr>) else Panic)"

definition vma_remove :: "nat \<Rightarrow> ('i, 'p) VmaSet \<Rightarrow> ('i, 'p) Vma option \<times> ('i, 'p) VmaSet" where
  "vma_remove start s = (bt_get (vs_vmas s) start, s\<lparr>vs_vmas := bt_remove start (vs_vmas s)\<rparr>)"

text \<open>The backing of the two halves of an area that is cut \<open>off\<close> bytes behind its start.\<close>

definition split_backing :: "nat \<Rightarrow> ('i, 'p) VmaBacking \<Rightarrow> (('i, 'p) VmaBacking \<times> ('i, 'p) VmaBacking) run" where
  "split_backing off b = (case b of
       FileBacked inode file_offset shared writable pages \<Rightarrow>
         (let idx = off div 4096
          in if idx > length pages \<or> file_offset + off \<ge> 2 ^ 64 then Panic
             else Ret (FileBacked inode file_offset shared writable (take idx pages),
                       FileBacked inode (file_offset + off) shared writable (drop idx pages)))
     | other \<Rightarrow> Ret (other, other))"

definition split_at :: "x86_64 \<Rightarrow> nat \<Rightarrow> ('i, 'p) VmaSet \<Rightarrow> ('i, 'p) VmaSet run" where
  "split_at x addr s =
     (let aligned = x_align_down x addr 4096
      in case last_lt aligned (vs_vmas s) of
           None \<Rightarrow> Ret s
         | Some (start_key, v) \<Rightarrow>
             if \<not> (vma_contains v aligned \<and> vm_start v \<noteq> aligned) then Ret s
             else run_bind (split_backing (aligned - vm_start v) (vm_backing v)) (\<lambda>(head_backing, tail_backing).
               let original = v\<lparr>vm_backing := head_backing, vm_end := aligned\<rparr>;
                   tail = \<lparr>vm_start = aligned, vm_end = vm_end v, vm_prot = vm_prot v, vm_flags = vm_flags v, vm_backing = tail_backing\<rparr>
               in Ret (s\<lparr>vs_vmas := bt_insert (vm_start tail) tail (bt_insert (vm_start original) original
                    (bt_remove start_key (vs_vmas s)))\<rparr>)))"

definition remove_range :: "x86_64 \<Rightarrow> nat \<Rightarrow> nat \<Rightarrow> ('i, 'p) VmaSet \<Rightarrow> (('i, 'p) Vma list \<times> ('i, 'p) VmaSet) run" where
  "remove_range x start fin s =
     run_bind (split_at x start s) (\<lambda>s1. run_bind (split_at x fin s1) (\<lambda>s2.
       if start > fin then Panic
       else let gone = filter (\<lambda>(k, _). start \<le> k \<and> k < fin) (vs_vmas s2)
         in Ret (map snd gone, s2\<lparr>vs_vmas := bt_remove_all (map fst gone) (vs_vmas s2)\<rparr>)))"

fun gap_loop :: "nat \<Rightarrow> nat \<Rightarrow> (nat \<times> ('i, 'p) Vma) list \<Rightarrow> nat option" where
  "gap_loop len cursor [] = (case checked_add cursor len of None \<Rightarrow> None
     | Some fin \<Rightarrow> if fin \<le> USER_VA_END then Some cursor else None)"
| "gap_loop len cursor ((start, v) # rest) = (case checked_add cursor len of None \<Rightarrow> None
     | Some fin \<Rightarrow> if start \<ge> fin then Some cursor
         else (case page_round_up (vm_end v) of None \<Rightarrow> None | Some e \<Rightarrow> gap_loop len (max cursor e) rest))"

definition first_fit :: "x86_64 \<Rightarrow> nat \<Rightarrow> nat \<Rightarrow> ('i, 'p) VmaSet \<Rightarrow> nat option run" where
  "first_fit x floor len s =
     run_bind (x_virt_new x floor) (\<lambda>a. Ret (
       case (case last_le a (vs_vmas s) of None \<Rightarrow> Some floor
             | Some (_, prev) \<Rightarrow> map_option (max floor) (page_round_up (vm_end prev))) of
         None \<Rightarrow> None
       | Some cursor \<Rightarrow> gap_loop len cursor (range_from a (vs_vmas s))))"

text \<open>The cursor \<open>hint\<close> is updated along with the set.\<close>

definition find_free_address :: "x86_64 \<Rightarrow> nat \<Rightarrow> nat \<Rightarrow> ('i, 'p) VmaSet \<Rightarrow> ((VmaError + nat) \<times> nat \<times> ('i, 'p) VmaSet) run" where
  "find_free_address x hint len0 s =
     (case page_round_up len0 of None \<Rightarrow> Ret (Inl OutOfUserSpace, hint, s)
      | Some len \<Rightarrow>
          if vs_mmap_base s = 0 \<and> hint + 0xFFF \<ge> 2 ^ 64 then Panic
          else let base = (if vs_mmap_base s = 0 then unat (word_of_nat (hint + 0xFFF) AND NOT 0xFFF :: u64) else vs_mmap_base s);
                   s' = s\<lparr>vs_mmap_base := base\<rparr>
            in run_bind (first_fit x base len s') (\<lambda>r. case r of
                 None \<Rightarrow> Ret (Inl NoSpace, hint, s')
               | Some found \<Rightarrow> run_bind (x_virt_new x found) (\<lambda>a. Ret (Inr a, found + len, s'))))"

definition reserve :: "x86_64 \<Rightarrow> nat \<Rightarrow> nat \<Rightarrow> u8 \<Rightarrow> u8 \<Rightarrow> ('i, 'p) VmaBacking \<Rightarrow> ('i, 'p) VmaSet \<Rightarrow>
    ((VmaError + nat) \<times> nat \<times> ('i, 'p) VmaSet) run" where
  "reserve x hint len0 prot flags backing s =
     (case page_round_up len0 of None \<Rightarrow> Ret (Inl OutOfUserSpace, hint, s)
      | Some len \<Rightarrow> run_bind (find_free_address x hint len s) (\<lambda>(r, hint', s'). case r of
            Inl e \<Rightarrow> Ret (Inl e, hint', s')
          | Inr start \<Rightarrow> (case checked_add start len of None \<Rightarrow> Ret (Inl OutOfUserSpace, hint', s')
              | Some fin \<Rightarrow>
                  if \<not> (start mod PAGE_SIZE = 0 \<and> fin mod PAGE_SIZE = 0) then Panic
                  else run_bind (x_virt_new x fin) (\<lambda>fin'.
                    case vma_insert \<lparr>vm_start = start, vm_end = fin', vm_prot = prot, vm_flags = flags, vm_backing = backing\<rparr> s' of
                      (Inl e, s'') \<Rightarrow> Ret (Inl e, hint', s'')
                    | (Inr _, s'') \<Rightarrow> Ret (Inr start, hint', s'')))))"

section \<open>Disjoint areas\<close>

definition round_page :: "nat \<Rightarrow> nat" where "round_page a = (a + 4095) div 4096 * 4096"

lemma round_page_facts: "a \<le> round_page a" "4096 dvd round_page a" "4096 dvd c \<Longrightarrow> a \<le> c \<Longrightarrow> round_page a \<le> c"
  "4096 dvd a \<Longrightarrow> round_page a = a"
proof -
  show "a \<le> round_page a" using div_mult_mod_eq [of "a + 4095" 4096] mod_less_divisor [of 4096 "a + 4095"] unfolding round_page_def by linarith
  show "4096 dvd round_page a" by (simp add: round_page_def)
  have small: "round_page a \<le> c" if c: "4096 dvd c" "a \<le> c" for c
  proof -
    obtain k where k: "c = 4096 * k" using c(1) unfolding dvd_def by blast
    then have "(a + 4095) div 4096 \<le> k" using c(2) by simp
    then show ?thesis using k by (simp add: round_page_def)
  qed
  then show "4096 dvd c \<Longrightarrow> a \<le> c \<Longrightarrow> round_page a \<le> c" .
  show "round_page a = a" if "4096 dvd a" using small [of a] that \<open>a \<le> round_page a\<close> by simp
qed

lemma round_word: "unat (word_of_nat n AND NOT 0xFFF :: u64) = n div 4096 * 4096" if "n < 2 ^ 64"
proof -
  let ?w = "word_of_nat n :: u64"
  have m: "(0xFFF :: u64) = mask 12" by (simp add: mask_eq_exp_minus_1)
  have "?w AND NOT (mask 12) = push_bit 12 (drop_bit 12 ?w)"
    by (rule bit_word_eqI) (simp add: bit_simps not_le, auto)
  then have "unat (?w AND NOT 0xFFF) = take_bit 64 (push_bit 12 (drop_bit 12 (take_bit 64 (unat ?w))))"
    unfolding m by (simp add: unsigned_push_bit_eq unsigned_drop_bit_eq)
  moreover have "take_bit 64 (unat ?w) = n" using that by (simp add: unat_of_nat take_bit_eq_mod)
  moreover have "n div 4096 * 4096 < 2 ^ 64" using that div_times_less_eq_dividend [of n 4096] by linarith
  ultimately show ?thesis by (simp add: push_bit_eq_mult drop_bit_eq_div take_bit_eq_mod)
qed

lemma page_round_up_val: "page_round_up a = (if a + 4095 < 2 ^ 64 then Some (round_page a) else None)"
  using round_word [of "a + 4095"] by (simp add: page_round_up_def checked_add_def PAGE_SIZE_def round_page_def)

text \<open>Keys are start addresses, areas are not empty, lie in the user half and do not overlap.\<close>

definition area_ok :: "nat \<times> ('i, 'p) Vma \<Rightarrow> bool" where
  "area_ok kv \<longleftrightarrow> vm_start (snd kv) = fst kv \<and> fst kv < vm_end (snd kv) \<and> vm_end (snd kv) \<le> USER_VA_END"

definition areas_ok :: "(nat, ('i, 'p) Vma) btree \<Rightarrow> bool" where
  "areas_ok m \<longleftrightarrow> (\<forall>kv \<in> set m. area_ok kv) \<and> sorted_wrt (\<lambda>a b. vm_end (snd a) \<le> fst b) m"

definition free_gap :: "nat \<Rightarrow> nat \<Rightarrow> (nat, ('i, 'p) Vma) btree \<Rightarrow> bool" where
  "free_gap c len m \<longleftrightarrow> 4096 dvd c \<and> c + len \<le> USER_VA_END \<and> (\<forall>kv \<in> set m. vm_end (snd kv) \<le> c \<or> c + len \<le> fst kv)"

lemma areas_ok_bt_wf: "areas_ok m \<Longrightarrow> bt_wf m"
proof (induction m)
  case (Cons kv m)
  have "fst kv < k" if "k \<in> set (bt_keys m)" for k
    using Cons.prems that by (fastforce simp: areas_ok_def area_ok_def bt_keys_def)
  then show ?case using Cons by (auto simp: bt_wf_Cons areas_ok_def)
qed simp

lemma gap_loop_ok:
  assumes "areas_ok rest" "4096 dvd cursor" "0 < len" "\<forall>kv \<in> set before. vm_end (snd kv) \<le> cursor"
    "\<forall>c \<ge> floor. free_gap c len (before @ rest) \<longrightarrow> cursor \<le> c" "floor \<le> cursor"
  shows "case gap_loop len cursor rest of
      Some c \<Rightarrow> floor \<le> c \<and> free_gap c len (before @ rest) \<and> (\<forall>c' \<ge> floor. free_gap c' len (before @ rest) \<longrightarrow> c \<le> c')
    | None \<Rightarrow> \<forall>c \<ge> floor. \<not> free_gap c len (before @ rest)"
  using assms
proof (induction rest arbitrary: cursor before)
  case Nil
  have "\<not> free_gap c len before" if "floor \<le> c" "\<not> cursor + len \<le> USER_VA_END" for c
    using Nil.prems(5) that by (force simp: free_gap_def)
  moreover have "cursor + len \<le> USER_VA_END \<Longrightarrow> cursor + len < 2 ^ 64" by (simp add: USER_VA_END_def)
  ultimately show ?case using Nil.prems by (auto simp: checked_add_def free_gap_def)
next
  case (Cons kv rest)
  obtain k v where kv: "kv = (k, v)" by (cases kv)
  have a: "vm_start v = k" "k < vm_end v" "vm_end v \<le> USER_VA_END" "areas_ok rest" "\<forall>q \<in> set rest. vm_end v \<le> fst q"
    using Cons.prems(1) kv by (auto simp: areas_ok_def area_ok_def)
  have ru: "page_round_up (vm_end v) = Some (round_page (vm_end v))" using a(3) by (simp add: page_round_up_val USER_VA_END_def)
  show ?case
  proof (cases "cursor + len \<le> k")
    case True
    then have "free_gap cursor len (before @ kv # rest)"
      using Cons.prems a kv by (fastforce simp: free_gap_def)
    then show ?thesis using True Cons.prems(5,6) kv a(2,3) by (simp add: checked_add_def USER_VA_END_def)
  next
    case False
    let ?c = "max cursor (round_page (vm_end v))"
    have low: "?c \<le> c" if "floor \<le> c" "free_gap c len (before @ kv # rest)" for c
    proof -
      have "cursor \<le> c" using Cons.prems(5) that by blast
      moreover have "vm_end v \<le> c" using that(2) False calculation kv by (auto simp: free_gap_def)
      ultimately show ?thesis using round_page_facts(3) [of c "vm_end v"] that(2) by (simp add: free_gap_def)
    qed
    have next_loop: "case gap_loop len ?c rest of
        Some c \<Rightarrow> floor \<le> c \<and> free_gap c len ((before @ [kv]) @ rest) \<and> (\<forall>c' \<ge> floor. free_gap c' len ((before @ [kv]) @ rest) \<longrightarrow> c \<le> c')
      | None \<Rightarrow> \<forall>c \<ge> floor. \<not> free_gap c len ((before @ [kv]) @ rest)"
      by (rule Cons.IH) (use Cons.prems a low round_page_facts(1,2) [of "vm_end v"] kv in \<open>auto simp: max_def\<close>)
    show ?thesis
    proof (cases "cursor + len < 2 ^ 64")
      case True
      then show ?thesis using next_loop False kv ru by (simp add: checked_add_def split: option.splits)
    next
      case big: False
      have "\<not> free_gap c len (before @ kv # rest)" if "floor \<le> c" for c
        using Cons.prems(5) that big by (force simp: free_gap_def USER_VA_END_def)
      then show ?thesis using big kv by (simp add: checked_add_def)
    qed
  qed
qed

lemma bt_split_at_key: "bt_wf m \<Longrightarrow> filter (\<lambda>(k, _). k < a) m @ range_from a m = m"
proof (induction m)
  case (Cons kv m)
  have "filter (\<lambda>(k, _). k < a) m = []" if "a \<le> fst kv"
    using Cons.prems that by (fastforce simp: bt_wf_Cons bt_keys_def filter_empty_conv)
  then show ?case using Cons by (cases kv) (auto simp: range_from_def bt_wf_Cons)
qed (simp add: range_from_def)

lemma last_le_ends:
  assumes "areas_ok m" "last_le a m = Some (k, v)"
  shows "(k, v) \<in> set m" "k \<le> a" "\<forall>kv \<in> set m. fst kv \<le> a \<longrightarrow> vm_end (snd kv) \<le> vm_end v"
proof -
  let ?xs = "filter (\<lambda>(k, _). k \<le> a) m"
  have ne: "?xs \<noteq> []" "last ?xs = (k, v)" using assms(2) by (auto simp: last_le_def Let_def split: if_splits)
  then have "(k, v) \<in> set ?xs" by (metis last_in_set)
  then show kv: "(k, v) \<in> set m" "k \<le> a" by auto
  obtain ys where ys: "?xs = ys @ [(k, v)]" using ne by (metis append_butlast_last_id)
  have "sorted_wrt (\<lambda>a b. vm_end (snd a) \<le> fst b) ?xs" using assms(1) by (simp add: areas_ok_def sorted_wrt_filter)
  then have "\<forall>q \<in> set ys. vm_end (snd q) \<le> k" unfolding ys by (simp add: sorted_wrt_append)
  moreover have "k < vm_end v" using assms(1) kv by (auto simp: areas_ok_def area_ok_def)
  ultimately have "\<forall>q \<in> set ?xs. vm_end (snd q) \<le> vm_end v" unfolding ys by auto
  then show "\<forall>kv \<in> set m. fst kv \<le> a \<longrightarrow> vm_end (snd kv) \<le> vm_end v" by auto
qed

lemma last_le_None: "last_le a m = None \<Longrightarrow> \<forall>kv \<in> set m. a < fst kv"
  by (auto simp: last_le_def Let_def filter_empty_conv not_le split: if_splits)

lemma first_fit_ok:
  fixes s :: "('i, 'p) VmaSet"
  assumes "areas_ok (vs_vmas s)" "4096 dvd floor" "0 < len" "x_virt_new x floor = Ret floor"
  obtains r where "first_fit x floor len s = Ret r"
    "case r of Some c \<Rightarrow> floor \<le> c \<and> free_gap c len (vs_vmas s) \<and> (\<forall>c' \<ge> floor. free_gap c' len (vs_vmas s) \<longrightarrow> c \<le> c')
     | None \<Rightarrow> \<forall>c \<ge> floor. \<not> free_gap c len (vs_vmas s)"
proof -
  let ?m = "vs_vmas s" and ?before = "filter (\<lambda>(k, _). k < floor) (vs_vmas s)"
  have m: "?before @ range_from floor ?m = ?m" by (rule bt_split_at_key) (rule areas_ok_bt_wf [OF assms(1)])
  have ok: "areas_ok (range_from floor ?m)" using assms(1) by (auto simp: areas_ok_def range_from_def sorted_wrt_filter)
  obtain cursor where cur: "(case last_le floor ?m of None \<Rightarrow> Some floor
      | Some (_, prev) \<Rightarrow> map_option (max floor) (page_round_up (vm_end prev))) = Some cursor"
    "4096 dvd cursor" "floor \<le> cursor" "\<forall>kv \<in> set ?before. vm_end (snd kv) \<le> cursor"
    "\<forall>c \<ge> floor. free_gap c len ?m \<longrightarrow> cursor \<le> c"
  proof (cases "last_le floor ?m")
    case None
    show ?thesis by (rule that [of floor]) (use None last_le_None [OF None] assms(2) in fastforce)+
  next
    case (Some kv)
    obtain k v where kv: "kv = (k, v)" by (cases kv)
    note l = last_le_ends [OF assms(1) Some [unfolded kv]]
    let ?c = "max floor (round_page (vm_end v))"
    have e: "k < vm_end v" "vm_end v \<le> USER_VA_END" using assms(1) l(1) by (auto simp: areas_ok_def area_ok_def)
    have below: "\<forall>kv \<in> set ?before. vm_end (snd kv) \<le> ?c"
      using l(3) round_page_facts(1) [of "vm_end v"] by fastforce
    have "?c \<le> c" if "floor \<le> c" "free_gap c len ?m" for c
    proof -
      have "vm_end v \<le> c \<or> c + len \<le> k" using that(2) l(1) by (auto simp: free_gap_def)
      then have "vm_end v \<le> c" using that(1) l(2) assms(3) by auto
      then show ?thesis using that round_page_facts(3) [of c "vm_end v"] by (simp add: free_gap_def)
    qed
    then show ?thesis using that [of ?c] below Some kv e assms(2) round_page_facts(2) [of "vm_end v"]
      by (simp add: page_round_up_val USER_VA_END_def max_def)
  qed
  have "case gap_loop len cursor (range_from floor ?m) of
      Some c \<Rightarrow> floor \<le> c \<and> free_gap c len (?before @ range_from floor ?m) \<and>
        (\<forall>c' \<ge> floor. free_gap c' len (?before @ range_from floor ?m) \<longrightarrow> c \<le> c')
    | None \<Rightarrow> \<forall>c \<ge> floor. \<not> free_gap c len (?before @ range_from floor ?m)"
    by (rule gap_loop_ok [OF ok cur(2) assms(3) cur(4) _ cur(3)]) (simp only: m, rule cur(5))
  then show thesis unfolding m by (intro that) (simp add: first_fit_def assms(4) cur(1), assumption)
qed

lemma areas_ok_insert:
  assumes "areas_ok m" "area_ok (k, v)" "\<forall>kv \<in> set m. vm_end (snd kv) \<le> k \<or> vm_end v \<le> fst kv"
  shows "areas_ok (bt_insert k v m) \<and> set (bt_insert k v m) = insert (k, v) (set m)"
  using assms
proof (induction k v m rule: bt_insert.induct)
  case (2 k v k' v' xs)
  have k: "k < vm_end v" "k' < vm_end v'" using "2.prems" by (auto simp: areas_ok_def area_ok_def)
  have rest: "\<forall>q \<in> set xs. vm_end v' \<le> fst q" "areas_ok xs" "area_ok (k', v')" using "2.prems"(1) by (auto simp: areas_ok_def)
  consider "k < k'" "vm_end v \<le> k'" | "k' < k" "vm_end v' \<le> k" using "2.prems"(3) k by fastforce
  then show ?case
  proof cases
    case 1
    then have "\<forall>q \<in> set xs. vm_end v \<le> fst q" using rest(1) k(2) by fastforce
    then show ?thesis using 1 "2.prems" by (auto simp: areas_ok_def)
  next
    case 2
    then have "areas_ok (bt_insert k v xs) \<and> set (bt_insert k v xs) = insert (k, v) (set xs)"
      using "2.IH" "2.prems" rest by auto
    then show ?thesis using 2 rest by (auto simp: areas_ok_def)
  qed
qed (auto simp: areas_ok_def)

text \<open>\<^verbatim>\<open>VirtAddr::new\<close> of the x86_64 crate: canonical addresses are kept, all others panic.\<close>

definition virt_addr_doc :: "x86_64 \<Rightarrow> bool" where
  "virt_addr_doc x \<longleftrightarrow> (\<forall>a < 2 ^ 64. x_virt_new x a = (if a < 2 ^ 47 \<or> 2 ^ 64 - 2 ^ 47 \<le> a then Ret a else Panic))"

definition mmap_floor :: "nat \<Rightarrow> ('i, 'p) VmaSet \<Rightarrow> nat" where
  "mmap_floor hint s = (if vs_mmap_base s = 0 then round_page hint else vs_mmap_base s)"

definition lowest_gap :: "nat \<Rightarrow> nat \<Rightarrow> (nat, ('i, 'p) Vma) btree \<Rightarrow> nat \<Rightarrow> bool" where
  "lowest_gap floor len m c \<longleftrightarrow> floor \<le> c \<and> free_gap c len m \<and> (\<forall>c' \<ge> floor. free_gap c' len m \<longrightarrow> c \<le> c')"

lemma find_free_address_ok:
  assumes "areas_ok (vs_vmas s)" "4096 dvd mmap_floor hint s" "mmap_floor hint s < USER_VA_END" "virt_addr_doc x"
    "0 < len" "4096 dvd len" "len + 4095 < 2 ^ 64"
  shows "(\<exists>c. lowest_gap (mmap_floor hint s) len (vs_vmas s) c \<and>
           find_free_address x hint len s = Ret (Inr c, c + len, s\<lparr>vs_mmap_base := mmap_floor hint s\<rparr>)) \<or>
         (\<forall>c \<ge> mmap_floor hint s. \<not> free_gap c len (vs_vmas s)) \<and>
         find_free_address x hint len s = Ret (Inl NoSpace, hint, s\<lparr>vs_mmap_base := mmap_floor hint s\<rparr>)"
proof -
  let ?b = "mmap_floor hint s" and ?s = "s\<lparr>vs_mmap_base := mmap_floor hint s\<rparr>"
  have virt: "x_virt_new x a = Ret a" if "a < USER_VA_END" for a
    using assms(4) that by (simp add: virt_addr_doc_def USER_VA_END_def)
  have hint: "hint + 4095 < 2 ^ 64" if "vs_mmap_base s = 0"
    using assms(3) that round_page_facts(1) [of hint] by (simp add: mmap_floor_def USER_VA_END_def)
  have base: "(if vs_mmap_base s = 0 then unat (word_of_nat (hint + 0xFFF) AND NOT 0xFFF :: u64) else vs_mmap_base s) = ?b"
    unfolding mmap_floor_def round_page_def by (intro if_cong refl, subst round_word) (use hint in auto)
  have "page_round_up len = Some len" using assms(6,7) by (simp add: page_round_up_val round_page_facts(4))
  moreover have "\<not> (vs_mmap_base s = 0 \<and> hint + 0xFFF \<ge> 2 ^ 64)" using hint by fastforce
  ultimately have run: "find_free_address x hint len s = run_bind (first_fit x ?b len ?s) (\<lambda>r. case r of
      None \<Rightarrow> Ret (Inl NoSpace, hint, ?s) | Some found \<Rightarrow> run_bind (x_virt_new x found) (\<lambda>a. Ret (Inr a, found + len, ?s)))"
    unfolding find_free_address_def Let_def base by (simp only: option.case if_False)
  have "areas_ok (vs_vmas ?s)" using assms(1) by simp
  then obtain r where r: "first_fit x ?b len ?s = Ret r"
    "case r of Some c \<Rightarrow> ?b \<le> c \<and> free_gap c len (vs_vmas ?s) \<and> (\<forall>c' \<ge> ?b. free_gap c' len (vs_vmas ?s) \<longrightarrow> c \<le> c')
     | None \<Rightarrow> \<forall>c \<ge> ?b. \<not> free_gap c len (vs_vmas ?s)"
    using first_fit_ok [OF _ assms(2,5) virt [OF assms(3)]] by blast
  moreover have "x_virt_new x c = Ret c" if "r = Some c" for c
    by (rule virt) (use r(2) that assms(5) in \<open>simp add: free_gap_def\<close>)
  ultimately show ?thesis by (cases r) (auto simp: run lowest_gap_def)
qed

definition reserved :: "nat \<Rightarrow> nat \<Rightarrow> u8 \<Rightarrow> u8 \<Rightarrow> ('i, 'p) VmaBacking \<Rightarrow> ('i, 'p) Vma" where
  "reserved start len prot flags backing =
     \<lparr>vm_start = start, vm_end = start + len, vm_prot = prot, vm_flags = flags, vm_backing = backing\<rparr>"

lemma reserve_found:
  fixes s :: "('i, 'p) VmaSet"
  assumes ok: "areas_ok (vs_vmas s)" and x: "virt_addr_doc x" and len: "0 < len0" "len0 + 4095 < 2 ^ 64"
    and gap: "free_gap c (round_page len0) (vs_vmas s)"
    and found: "find_free_address x hint (round_page len0) s = Ret (Inr c, hint', s\<lparr>vs_mmap_base := b\<rparr>)"
  shows "if c + round_page len0 = USER_VA_END then reserve x hint len0 prot flags backing s = Panic
    else \<exists>m. reserve x hint len0 prot flags backing s = Ret (Inr c, hint', s\<lparr>vs_mmap_base := b, vs_vmas := m\<rparr>) \<and>
      areas_ok m \<and> set m = insert (c, reserved c (round_page len0) prot flags backing) (set (vs_vmas s))"
proof -
  let ?len = "round_page len0"
  let ?v = "reserved c ?len prot flags backing"
  have pos: "0 < ?len" "4096 dvd ?len" using len(1) round_page_facts(1,2) [of len0] by (simp, simp)
  have g: "4096 dvd c" "c + ?len \<le> USER_VA_END" "\<forall>kv \<in> set (vs_vmas s). vm_end (snd kv) \<le> c \<or> c + ?len \<le> fst kv"
    using gap by (auto simp: free_gap_def)
  have ins: "areas_ok (bt_insert c ?v (vs_vmas s)) \<and> set (bt_insert c ?v (vs_vmas s)) = insert (c, ?v) (set (vs_vmas s))"
    by (rule areas_ok_insert [OF ok]) (use g pos in \<open>auto simp: area_ok_def reserved_def\<close>)
  have add: "checked_add c ?len = Some (c + ?len)" using g(2) by (simp add: checked_add_def USER_VA_END_def)
  have al: "c mod PAGE_SIZE = 0" "(c + ?len) mod PAGE_SIZE = 0"
    using g(1) pos(2) by (auto simp: PAGE_SIZE_def mod_eq_0_iff_dvd)
  have virt: "x_virt_new x (c + ?len) = (if c + ?len = USER_VA_END then Panic else Ret (c + ?len))"
    using x g(2) by (simp add: virt_addr_doc_def USER_VA_END_def)
  have ru: "page_round_up len0 = Some ?len" using len(2) by (simp add: page_round_up_val)
  have "reserve x hint len0 prot flags backing s = (if c + ?len = USER_VA_END then Panic
      else Ret (Inr c, hint', s\<lparr>vs_mmap_base := b, vs_vmas := bt_insert c ?v (vs_vmas s)\<rparr>))"
    unfolding reserve_def ru option.case found run_bind_simps prod.case sum.case add virt
    using al g(2) by (simp add: vma_insert_def reserved_def)
  then show ?thesis using ins by auto
qed

lemma reserve_ok:
  fixes s :: "('i, 'p) VmaSet"
  assumes "areas_ok (vs_vmas s)" "4096 dvd mmap_floor hint s" "mmap_floor hint s < USER_VA_END" "virt_addr_doc x" "0 < len0"
  shows "case reserve x hint len0 prot flags backing s of
      Ret (Inr c, hint', s') \<Rightarrow>
        lowest_gap (mmap_floor hint s) (round_page len0) (vs_vmas s) c \<and> areas_ok (vs_vmas s') \<and>
        set (vs_vmas s') = insert (c, reserved c (round_page len0) prot flags backing) (set (vs_vmas s))
    | Ret (Inl e, hint', s') \<Rightarrow>
        vs_vmas s' = vs_vmas s \<and> (\<forall>c \<ge> mmap_floor hint s. \<not> free_gap c (round_page len0) (vs_vmas s))
    | Panic \<Rightarrow> lowest_gap (mmap_floor hint s) (round_page len0) (vs_vmas s) (USER_VA_END - round_page len0)"
proof (cases "len0 + 4095 < 2 ^ 64")
  case False
  then have "USER_VA_END < round_page len0" using round_page_facts(1) [of len0] by (simp add: USER_VA_END_def)
  then show ?thesis using False by (simp add: reserve_def page_round_up_val free_gap_def)
next
  case True
  let ?len = "round_page len0" and ?b = "mmap_floor hint s" and ?s = "s\<lparr>vs_mmap_base := mmap_floor hint s\<rparr>"
  have len: "0 < ?len" "4096 dvd ?len" using assms(5) round_page_facts(1,2) [of len0] by (simp, simp)
  show ?thesis
  proof (cases "?len + 4095 < 2 ^ 64")
    case False
    then have "USER_VA_END < ?len" by (simp add: USER_VA_END_def)
    then show ?thesis using True False by (simp add: reserve_def find_free_address_def page_round_up_val free_gap_def)
  next
    case small: True
    from find_free_address_ok [OF assms(1-4) len small] show ?thesis
    proof
      assume "\<exists>c. lowest_gap ?b ?len (vs_vmas s) c \<and> find_free_address x hint ?len s = Ret (Inr c, c + ?len, ?s)"
      then obtain c where c: "lowest_gap ?b ?len (vs_vmas s) c"
        "find_free_address x hint ?len s = Ret (Inr c, c + ?len, ?s)" by blast
      have "USER_VA_END - ?len = c" if "c + ?len = USER_VA_END" using that by simp
      moreover have "free_gap c ?len (vs_vmas s)" using c(1) by (simp add: lowest_gap_def)
      note reserve_found [OF assms(1,4,5) True this c(2), of prot flags backing]
      ultimately show ?thesis using c(1) by (auto split: if_splits)
    qed (use True in \<open>simp add: reserve_def page_round_up_val\<close>)
  qed
qed


definition canonical_x86 :: x86_64 where
  "canonical_x86 = \<lparr>x_virt_new = (\<lambda>a. if a < 2 ^ 47 \<or> 2 ^ 64 - 2 ^ 47 \<le> a then Ret a else Panic),
     x_align_down = (\<lambda>a n. a div n * n)\<rparr>"

definition one_area :: "(nat, nat) VmaSet" where
  "one_area = \<lparr>vs_vmas = [(0x10000, \<lparr>vm_start = 0x10000, vm_end = 0x11234, vm_prot = 3, vm_flags = 1, vm_backing = Anonymous\<rparr>)],
     vs_mmap_base = 0\<rparr>"


end
